(* ===== verification/Prelude.thy ===== *)
theory Prelude
  imports Main "HOL-Library.Word"
begin

text \<open>
  What every theory of the development shares: the machine integers of
  \<^verbatim>\<open>include/types.h\<close>, the ways a run of the C code can end, the command type in which
  the stateful code is written, its loop combinator, and one weakest-precondition
  calculus with the rules for each of them.

  A command takes the state and gives \<^term>\<open>None\<close> when the code never comes back from a
  loop, \<^term>\<open>Some (Inl e, s)\<close> when it stops for the reason \<open>e\<close> (a panic, an operation whose
  behaviour C leaves undefined, or the jump to the loaded program), and
  \<^term>\<open>Some (Inr a, s)\<close> when it returns \<open>a\<close>.
\<close>

unbundle bit_operations_syntax

section \<open>Machine integers\<close>

type_synonym u8 = "8 word"
type_synonym u16 = "16 word"
type_synonym u32 = "32 word"
type_synonym u64 = "64 word"

lemma u8_bound: "unat (x :: u8) < 256"
  using unsigned_less [where ?'a = nat, of x] by simp

lemma u16_bound: "unat (x :: u16) < 65536"
  using unsigned_less [where ?'a = nat, of x] by simp

lemma u32_bound: "unat (x :: u32) < 4294967296"
  using unsigned_less [where ?'a = nat, of x] by simp

text \<open>Widening keeps the number.\<close>

lemma unat_ucast_8_16 [simp]: "unat (ucast (x :: u8) :: u16) = unat x"
  using u8_bound [of x] by (simp add: unsigned_ucast_eq take_bit_nat_eq_self)

lemma unat_ucast_8_32 [simp]: "unat (ucast (x :: u8) :: u32) = unat x"
  using u8_bound [of x] by (simp add: unsigned_ucast_eq take_bit_nat_eq_self)

lemma unat_ucast_16_32 [simp]: "unat (ucast (x :: u16) :: u32) = unat x"
  using u16_bound [of x] by (simp add: unsigned_ucast_eq take_bit_nat_eq_self)

lemma unat_ucast_32_64 [simp]: "unat (ucast (x :: u32) :: u64) = unat x"
  using u32_bound [of x] by (simp add: unsigned_ucast_eq take_bit_nat_eq_self)

section \<open>How a run ends\<close>

datatype ub =
    Div_By_Zero
  | Out_Of_Bounds
  | Signed_Overflow
  | Null_Deref

datatype stop =
    Panic string
  | Undef ub
  | Control_Transferred u32 u32

type_synonym 'a res = "ub + 'a"

type_synonym ('s, 'a) cmd = "'s \<Rightarrow> ((stop + 'a) \<times> 's) option"

section \<open>Fallible pure code\<close>

definition rbind :: "'a res \<Rightarrow> ('a \<Rightarrow> 'b res) \<Rightarrow> 'b res" where
  "rbind r f = (case r of Inl e \<Rightarrow> Inl e | Inr a \<Rightarrow> f a)"

lemma rbind_simps [simp]:
  "rbind (Inl e) f = Inl e"
  "rbind (Inr a) f = f a"
  by (simp_all add: rbind_def)

lemma rbind_eq_Inr_iff: "rbind r f = Inr b \<longleftrightarrow> (\<exists>a. r = Inr a \<and> f a = Inr b)"
  by (cases r) simp_all

text \<open>Reading and writing a local array of the C code: the index is checked.\<close>

definition rd :: "'a list \<Rightarrow> nat \<Rightarrow> 'a res" where
  "rd xs i = (if i < length xs then Inr (xs ! i) else Inl Out_Of_Bounds)"

definition wr :: "'a list \<Rightarrow> nat \<Rightarrow> 'a \<Rightarrow> 'a list res" where
  "wr xs i x = (if i < length xs then Inr (xs[i := x]) else Inl Out_Of_Bounds)"

lemma rd_in [simp]: "i < length xs \<Longrightarrow> rd xs i = Inr (xs ! i)"
  by (simp add: rd_def)

lemma rd_out [simp]: "\<not> i < length xs \<Longrightarrow> rd xs i = Inl Out_Of_Bounds"
  by (simp add: rd_def)

lemma wr_in [simp]: "i < length xs \<Longrightarrow> wr xs i x = Inr (xs[i := x])"
  by (simp add: wr_def)

lemma wr_out [simp]: "\<not> i < length xs \<Longrightarrow> wr xs i x = Inl Out_Of_Bounds"
  by (simp add: wr_def)

text \<open>What a loop that writes \<open>xs\<close> from index \<open>k\<close> on leaves of an array.\<close>

definition overwrite :: "'a list \<Rightarrow> nat \<Rightarrow> 'a list \<Rightarrow> 'a list" where
  "overwrite out k xs = take k out @ xs @ drop (k + length xs) out"

lemma overwrite_Nil: "overwrite out k [] = out"
  by (simp add: overwrite_def)

lemma overwrite_Cons: "k < length out \<Longrightarrow> overwrite (out[k := x]) (Suc k) xs = overwrite out k (x # xs)"
  by (simp add: overwrite_def take_Suc_conv_app_nth)

lemma length_overwrite: "k + length xs \<le> length out \<Longrightarrow> length (overwrite out k xs) = length out"
  by (simp add: overwrite_def)

lemma overwrite_terminate:
  assumes "length xs < length out"
  shows "(overwrite out 0 xs)[length xs := x] = xs @ x # drop (Suc (length xs)) out"
proof -
  have "drop (length xs) out = out ! length xs # drop (Suc (length xs)) out"
    using assms by (simp add: Cons_nth_drop_Suc)
  then show ?thesis by (simp add: overwrite_def list_update_append)
qed

section \<open>Commands\<close>

definition ret :: "'a \<Rightarrow> ('s, 'a) cmd" where
  "ret a = (\<lambda>s. Some (Inr a, s))"

definition halt :: "stop \<Rightarrow> ('s, 'a) cmd" where
  "halt e = (\<lambda>s. Some (Inl e, s))"

definition bind :: "('s, 'a) cmd \<Rightarrow> ('a \<Rightarrow> ('s, 'b) cmd) \<Rightarrow> ('s, 'b) cmd" where
  "bind m k = (\<lambda>s. Option.bind (m s) (\<lambda>(r, s').
     case r of Inl e \<Rightarrow> Some (Inl e, s') | Inr a \<Rightarrow> k a s'))"

definition gets :: "('s \<Rightarrow> 'a) \<Rightarrow> ('s, 'a) cmd" where
  "gets f = (\<lambda>s. Some (Inr (f s), s))"

definition modify :: "('s \<Rightarrow> 's) \<Rightarrow> ('s, unit) cmd" where
  "modify f = (\<lambda>s. Some (Inr (), f s))"

definition lift_res :: "'a res \<Rightarrow> ('s, 'a) cmd" where
  "lift_res r = (case r of Inl e \<Rightarrow> halt (Undef e) | Inr a \<Rightarrow> ret a)"

text \<open>
  A C loop: the body gets the loop's variables and says whether to go round again with new
  ones (\<^term>\<open>Inl\<close>) or to leave the loop with a result (\<^term>\<open>Inr\<close>, the exit of the guard, a
  \<open>break\<close> or a \<open>return\<close>).
\<close>

partial_function (option) iterate ::
  "('x \<Rightarrow> ('s, 'x + 'r) cmd) \<Rightarrow> 'x \<Rightarrow> 's \<Rightarrow> ((stop + 'r) \<times> 's) option"
where
  "iterate body x s =
     Option.bind (body x s) (\<lambda>(o1, s').
       case o1 of Inl e \<Rightarrow> Some (Inl e, s')
       | Inr (Inl x') \<Rightarrow> iterate body x' s'
       | Inr (Inr r) \<Rightarrow> Some (Inr r, s'))"

lemma iterate_unfold:
  "iterate body x =
     bind (body x) (\<lambda>y. case y of Inl x' \<Rightarrow> iterate body x' | Inr r \<Rightarrow> ret r)"
  by (rule ext, subst iterate.simps)
     (auto simp: bind_def ret_def split: sum.splits option.splits intro!: arg_cong2 [where f = Option.bind])

named_theorems exec "equations that run a command on a known state"

lemma exec_basic [exec]:
  "ret a s = Some (Inr a, s)"
  "halt e s = Some (Inl e, s)"
  "gets f s = Some (Inr (f s), s)"
  "modify g s = Some (Inr (), g s)"
  by (simp_all add: ret_def halt_def gets_def modify_def)

lemma exec_lift_res [exec]:
  "lift_res (Inr a) s = Some (Inr a, s)"
  "lift_res (Inl u) s = Some (Inl (Undef u), s)"
  by (simp_all add: lift_res_def ret_def halt_def)

lemma exec_bind:
  "bind m k s =
     (case m s of None \<Rightarrow> None | Some (Inl e, s') \<Rightarrow> Some (Inl e, s') | Some (Inr a, s') \<Rightarrow> k a s')"
  by (simp add: bind_def split: option.splits sum.splits prod.splits)

lemma bind_return: "m s = Some (Inr a, s') \<Longrightarrow> bind m k s = k a s'"
  by (simp add: exec_bind)

lemma bind_run: "m s = Some (Inr a, s') \<Longrightarrow> k a s' = r \<Longrightarrow> bind m k s = r"
  by (simp add: exec_bind)

lemma bind_halts: "m s = Some (Inl e, s') \<Longrightarrow> bind m k s = Some (Inl e, s')"
  by (simp add: exec_bind)

lemma bind_assoc: "bind (bind m k) l = bind m (\<lambda>a. bind (k a) l)"
  by (rule ext) (simp add: exec_bind split: option.splits sum.splits prod.splits)

section \<open>Weakest preconditions\<close>

text \<open>
  \<open>wp m Q E D s\<close>: run from \<open>s\<close>, the command returns with \<open>Q\<close>, or stops with \<open>E\<close>, or
  (allowed only if \<open>D\<close>) never ends.
\<close>

definition wp :: "('s, 'a) cmd \<Rightarrow> ('a \<Rightarrow> 's \<Rightarrow> bool) \<Rightarrow> (stop \<Rightarrow> 's \<Rightarrow> bool) \<Rightarrow> bool \<Rightarrow> 's \<Rightarrow> bool" where
  "wp m Q E D s = (case m s of None \<Rightarrow> D | Some (Inl e, s') \<Rightarrow> E e s' | Some (Inr a, s') \<Rightarrow> Q a s')"

text \<open>Total: it returns, with \<open>Q\<close>. Partial: if it returns, then with \<open>Q\<close>.\<close>

abbreviation total :: "('s, 'a) cmd \<Rightarrow> ('a \<Rightarrow> 's \<Rightarrow> bool) \<Rightarrow> 's \<Rightarrow> bool" where
  "total m Q s \<equiv> wp m Q (\<lambda>_ _. False) False s"

abbreviation partial :: "('s, 'a) cmd \<Rightarrow> ('a \<Rightarrow> 's \<Rightarrow> bool) \<Rightarrow> 's \<Rightarrow> bool" where
  "partial m Q s \<equiv> wp m Q (\<lambda>_ _. True) True s"

lemma wp_ret [simp]: "wp (ret a) Q E D s \<longleftrightarrow> Q a s"
  by (simp add: wp_def exec)

lemma wp_halt [simp]: "wp (halt e) Q E D s \<longleftrightarrow> E e s"
  by (simp add: wp_def exec)

lemma wp_gets [simp]: "wp (gets f) Q E D s \<longleftrightarrow> Q (f s) s"
  by (simp add: wp_def exec)

lemma wp_modify [simp]: "wp (modify g) Q E D s \<longleftrightarrow> Q () (g s)"
  by (simp add: wp_def exec)

lemma wp_bind [simp]: "wp (bind m k) Q E D s \<longleftrightarrow> wp m (\<lambda>a. wp (k a) Q E D) E D s"
  by (auto simp: wp_def bind_def split: option.splits sum.splits prod.splits)

lemma wp_lift_res: "wp (lift_res r) Q E D s \<longleftrightarrow> (case r of Inl u \<Rightarrow> E (Undef u) s | Inr a \<Rightarrow> Q a s)"
  by (cases r) (simp_all add: lift_res_def)

lemma wp_lift_res_Inr [simp]: "wp (lift_res (Inr a)) Q E D s \<longleftrightarrow> Q a s"
  by (simp add: wp_lift_res)

lemma wp_lift_res_Inl [simp]: "wp (lift_res (Inl u)) Q E D s \<longleftrightarrow> E (Undef u) s"
  by (simp add: wp_lift_res)

lemma wp_if [simp]:
  "wp (if b then m else n) Q E D s \<longleftrightarrow> (if b then wp m Q E D s else wp n Q E D s)"
  by simp

lemma wp_mono:
  assumes "wp m Q E D s"
    and "\<And>a t. Q a t \<Longrightarrow> Q' a t" and "\<And>e t. E e t \<Longrightarrow> E' e t" and "D \<Longrightarrow> D'"
  shows "wp m Q' E' D' s"
  using assms by (auto simp: wp_def split: option.splits sum.splits prod.splits)

lemma total_post:
  "total m Q s \<Longrightarrow> (\<And>a t. Q a t \<Longrightarrow> Q' a t) \<Longrightarrow> total m Q' s"
  by (erule wp_mono) simp_all

lemma partial_post:
  "partial m Q s \<Longrightarrow> (\<And>a t. Q a t \<Longrightarrow> Q' a t) \<Longrightarrow> partial m Q' s"
  by (erule wp_mono) simp_all

lemma total_returns: "total m Q s \<longleftrightarrow> (\<exists>a t. m s = Some (Inr a, t) \<and> Q a t)"
  by (auto simp: wp_def split: option.splits sum.splits)

lemma partial_returns: "partial m Q s \<longleftrightarrow> (\<forall>a t. m s = Some (Inr a, t) \<longrightarrow> Q a t)"
  by (auto simp: wp_def split: option.splits sum.splits)

lemma wp_conj:
  "wp m Q E D s \<Longrightarrow> partial m R s \<Longrightarrow> wp m (\<lambda>a t. Q a t \<and> R a t) E D s"
  by (auto simp: wp_def split: option.splits sum.splits)

section \<open>Loop rules\<close>

lemma wp_iterate_unfold:
  "wp (iterate body x) Q E D s \<longleftrightarrow>
     wp (body x) (\<lambda>y t. case y of Inl x' \<Rightarrow> wp (iterate body x') Q E D t | Inr r \<Rightarrow> Q r t) E D s"
  by (subst iterate_unfold, subst wp_bind, rule arg_cong [where f = "\<lambda>q. wp (body x) q E D s"])
     (auto simp: fun_eq_iff split: sum.splits)

text \<open>Total: an invariant and a measure that every further round decreases.\<close>

lemma wp_iterate_measure:
  fixes f :: "'x \<Rightarrow> 's \<Rightarrow> nat"
  assumes "I x s"
    and step: "\<And>x s. I x s \<Longrightarrow>
      wp (body x) (\<lambda>y t. case y of Inl x' \<Rightarrow> I x' t \<and> f x' t < f x s | Inr r \<Rightarrow> Q r t) E D s"
  shows "wp (iterate body x) Q E D s"
  using assms(1)
proof (induction "f x s" arbitrary: x s rule: less_induct)
  case less
  show ?case
    by (subst wp_iterate_unfold, rule wp_mono [OF step [OF less.prems]])
       (auto split: sum.splits intro: less.hyps)
qed

text \<open>Partial: an invariant is enough when not ending is allowed.\<close>

lemma wp_iterate_invariant:
  assumes init: "I x s"
    and step: "\<And>x s. I x s \<Longrightarrow>
      wp (body x) (\<lambda>y t. case y of Inl x' \<Rightarrow> I x' t | Inr r \<Rightarrow> Q r t) E True s"
  shows "wp (iterate body x) Q E True s"
proof -
  let ?P = "\<lambda>b z t y. b = body \<longrightarrow> I z t \<longrightarrow> (case fst y of Inl e \<Rightarrow> E e (snd y) | Inr r \<Rightarrow> Q r (snd y))"
  have *: "?P b z t y" if ret: "iterate b z t = Some y" for b z t y
  proof (rule iterate.raw_induct [of ?P "((b, z), t)" y, unfolded prod.case, OF _ ret], intro impI)
    fix it :: "('a \<Rightarrow> ('b, 'a + 'c) cmd) \<Rightarrow> 'a \<Rightarrow> 'b \<Rightarrow> ((stop + 'c) \<times> 'b) option" and b z t y
    assume IH: "\<And>b z t y. it b z t = Some y \<Longrightarrow> ?P b z t y"
      and eq: "Option.bind (b z t) (\<lambda>(o1, s'). case o1 of Inl e \<Rightarrow> Some (Inl e, s')
         | Inr (Inl x') \<Rightarrow> it b x' s' | Inr (Inr r) \<Rightarrow> Some (Inr r, s')) = Some y"
      and b: "b = body" and I: "I z t"
    from eq obtain o1 t1 where run: "body z t = Some (o1, t1)"
      by (auto simp: b bind_eq_Some_conv)
    note st = step [OF I, unfolded wp_def run option.case prod.case]
    show "case fst y of Inl e \<Rightarrow> E e (snd y) | Inr r \<Rightarrow> Q r (snd y)"
    proof (cases o1)
      case (Inl e)
      with eq st run b show ?thesis by auto
    next
      case (Inr v)
      show ?thesis
      proof (cases v)
        case (Inl x')
        with Inr eq run b have "it body x' t1 = Some y" by simp
        moreover from Inr Inl st have "I x' t1" by simp
        ultimately show ?thesis using IH [of body x' t1 y] by simp
      next
        case (Inr r)
        with \<open>o1 = Inr v\<close> eq st run b show ?thesis by auto
      qed
    qed
  qed
  show ?thesis
  proof (cases "iterate body x s")
    case None
    then show ?thesis by (simp add: wp_def)
  next
    case (Some y)
    from * [OF Some] init Some show ?thesis
      by (cases y) (auto simp: wp_def split: sum.splits)
  qed
qed

text \<open>A loop whose every round goes round again never ends.\<close>

lemma iterate_diverges:
  assumes init: "I x s"
    and step: "\<And>x s. I x s \<Longrightarrow> \<exists>x' t. body x s = Some (Inr (Inl x'), t) \<and> I x' t"
  shows "iterate body x s = None"
proof -
  have "wp (iterate body x) (\<lambda>_ _. False) (\<lambda>_ _. False) True s"
  proof (rule wp_iterate_invariant [where I = I, OF init])
    fix x s assume "I x s"
    then show "wp (body x) (\<lambda>y t. case y of Inl x' \<Rightarrow> I x' t | Inr r \<Rightarrow> False) (\<lambda>_ _. False) True s"
      using step [of x s] by (auto simp: wp_def)
  qed
  then show ?thesis
    by (simp add: wp_def split: option.splits sum.splits prod.splits)
qed

end
