(* ===== verification/Machine.thy ===== *)
theory Machine
  imports Prelude
begin

text \<open>
  The machine the C code of \<^verbatim>\<open>stage1\<close> runs on: the flat byte memory it sees in unreal mode, the
  two stack tops of \<^verbatim>\<open>mem.c\<close>, the nodes of the memory-region list, the characters sent to
  the BIOS, and the BIOS's own state. With it the constants of \<^verbatim>\<open>include/memory_map.h\<close>, the
  structures of \<^verbatim>\<open>include/sysinfo.h\<close>, little-endian loads and stores, and \<^verbatim>\<open>stage1/print.c\<close>.

  The region nodes live in a heap of their own, from addresses to nodes: they are allocated
  by \<^verbatim>\<open>static_alloc\<close> only and the code never looks at them as bytes.
\<close>

section \<open>Memory map\<close>

definition REAL_MODE_LIMIT :: u32 where
  "REAL_MODE_LIMIT = push_bit 4 0xffff + 0xffff"

definition EXTENDED_STACK_BASE :: u32 where
  "EXTENDED_STACK_BASE = 0x80000"

definition EXTENDED_STACK_LIMIT :: u32 where
  "EXTENDED_STACK_LIMIT = 0x40000"

definition STATIC_STACK_BASE :: u32 where
  "STATIC_STACK_BASE = EXTENDED_STACK_LIMIT"

definition STATIC_STACK_LIMIT :: u32 where
  "STATIC_STACK_LIMIT = 0x10000"

definition ELF_STACK_ALIGNMENT :: u8 where
  "ELF_STACK_ALIGNMENT = 4"

lemma REAL_MODE_LIMIT_val: "REAL_MODE_LIMIT = 0x10FFEF"
  by (simp add: REAL_MODE_LIMIT_def)

lemmas memory_map =
  REAL_MODE_LIMIT_val EXTENDED_STACK_BASE_def EXTENDED_STACK_LIMIT_def
  STATIC_STACK_BASE_def STATIC_STACK_LIMIT_def ELF_STACK_ALIGNMENT_def

section \<open>System information handed to the loaded program\<close>

datatype sysinfo_mem_type_t =
    SYSINFO_MT_USABLE
  | SYSINFO_MT_RECLAIMABLE
  | SYSINFO_MT_ELF_EXECUTABLE
  | SYSINFO_MT_ACPI_NVS
  | SYSINFO_MT_BAD
  | SYSINFO_MT_RESERVED

text \<open>Node addresses are 32-bit pointers; \<open>0\<close> is \<^verbatim>\<open>nullptr\<close>.\<close>

record sysinfo_memregion_t =
  mr_next :: u32
  mr_base_addr :: u64
  mr_size :: u64
  mr_type :: sysinfo_mem_type_t
  mr_is_volatile :: bool

record sysinfo_t =
  si_boot_drive :: u8
  si_mem_regions :: u32
  si_rsdp :: u32

section \<open>The machine state\<close>

type_synonym memory = "u32 \<Rightarrow> u8"

record 'e machine =
  mem :: memory
  ext_stack_top :: u32
  static_stack_top :: u32
  region_heap :: "u32 \<Rightarrow> sysinfo_memregion_t option"
  int10_log :: "u32 list"
  bios_env :: 'e

section \<open>Little-endian loads and stores\<close>

definition load16 :: "memory \<Rightarrow> u32 \<Rightarrow> u16" where
  "load16 m a = ucast (m a) + 256 * ucast (m (a + 1))"

definition load32 :: "memory \<Rightarrow> u32 \<Rightarrow> u32" where
  "load32 m a = ucast (m a) + 256 * ucast (m (a + 1))
     + 65536 * ucast (m (a + 2)) + 16777216 * ucast (m (a + 3))"

definition store32 :: "u32 \<Rightarrow> u32 \<Rightarrow> memory \<Rightarrow> memory" where
  "store32 a v m = m(a := ucast v, a + 1 := ucast (drop_bit 8 v),
     a + 2 := ucast (drop_bit 16 v), a + 3 := ucast (drop_bit 24 v))"

lemma unat_load16: "unat (load16 m a) = unat (m a) + 256 * unat (m (a + 1))"
proof -
  have "unat (m a) < 256" "unat (m (a + 1)) < 256"
    using unsigned_less [of "m a"] unsigned_less [of "m (a + 1)"] by simp_all
  then show ?thesis
    by (simp add: load16_def unat_word_ariths unsigned_ucast_eq take_bit_nat_eq_self)
qed

lemma unat_load32:
  "unat (load32 m a) = unat (m a) + 256 * unat (m (a + 1))
     + 65536 * unat (m (a + 2)) + 16777216 * unat (m (a + 3))"
proof -
  have "unat (m a) < 256" "unat (m (a + 1)) < 256" "unat (m (a + 2)) < 256" "unat (m (a + 3)) < 256"
    using unsigned_less [of "m a"] unsigned_less [of "m (a + 1)"]
      unsigned_less [of "m (a + 2)"] unsigned_less [of "m (a + 3)"] by simp_all
  then show ?thesis
    by (simp add: load32_def unat_word_ariths unsigned_ucast_eq take_bit_nat_eq_self)
qed

text \<open>The four bytes of a loaded double word are the four bytes of memory.\<close>

lemma load32_bytes:
  "ucast (load32 m a) = m a"
  "ucast (drop_bit 8 (load32 m a)) = m (a + 1)"
  "ucast (drop_bit 16 (load32 m a)) = m (a + 2)"
  "ucast (drop_bit 24 (load32 m a)) = m (a + 3)"
proof -
  have b: "unat (m a) < 256" "unat (m (a + 1)) < 256" "unat (m (a + 2)) < 256" "unat (m (a + 3)) < 256"
    using unsigned_less [of "m a"] unsigned_less [of "m (a + 1)"]
      unsigned_less [of "m (a + 2)"] unsigned_less [of "m (a + 3)"] by simp_all
  have low: "(x + 256 * y) mod 256 = x" and high: "(x + 256 * y) div 256 = y" if "x < 256" for x y :: nat
    using that by simp_all
  have horner: "unat (load32 m a) = unat (m a) + 256 * (unat (m (a + 1)) + 256 *
      (unat (m (a + 2)) + 256 * unat (m (a + 3))))"
    by (simp add: unat_load32)
  have u: "unat (ucast (drop_bit k (load32 m a)) :: u8) = unat (load32 m a) div 2 ^ k mod 256" for k
    by (simp add: unsigned_ucast_eq take_bit_eq_mod unat_drop_bit_eq drop_bit_eq_div [of _ "unat _"])
  have p: "x div 2 ^ 16 = x div 256 div 256" "x div 2 ^ 24 = x div 256 div 256 div 256" for x :: nat
    by (simp_all flip: div_mult2_eq)
  show "ucast (load32 m a) = m a"
    using u [of 0, simplified] b by (simp only: word_unat_eq_iff horner low)
  show "ucast (drop_bit 8 (load32 m a)) = m (a + 1)"
    using u [of 8, simplified] b by (simp only: word_unat_eq_iff horner low high)
  show "ucast (drop_bit 16 (load32 m a)) = m (a + 2)"
    using u [of 16] b by (simp only: word_unat_eq_iff horner p low high)
  show "ucast (drop_bit 24 (load32 m a)) = m (a + 3)"
    using u [of 24] b by (simp only: word_unat_eq_iff horner p low high) simp
qed

lemma load32_eq_iff:
  "load32 m a = load32 m b \<longleftrightarrow>
     m a = m b \<and> m (a + 1) = m (b + 1) \<and> m (a + 2) = m (b + 2) \<and> m (a + 3) = m (b + 3)"
  by (metis load32_bytes load32_def)

lemma store32_load32:
  "store32 d (load32 m a) m' = m'(d := m a, d + 1 := m (a + 1), d + 2 := m (a + 2), d + 3 := m (a + 3))"
  by (simp add: store32_def load32_bytes)

text \<open>\<open>blit a n f m\<close>: the \<open>n\<close> bytes from \<open>a\<close> on become \<open>f 0, f 1, \<dots>\<close>.\<close>

definition blit :: "u32 \<Rightarrow> nat \<Rightarrow> (nat \<Rightarrow> u8) \<Rightarrow> memory \<Rightarrow> memory" where
  "blit a n f m = (\<lambda>x. if unat (x - a) < n then f (unat (x - a)) else m x)"

text \<open>\<open>in_range a n x\<close>: \<open>x\<close> is one of the \<open>n\<close> addresses from \<open>a\<close> on.\<close>

definition in_range :: "u32 \<Rightarrow> nat \<Rightarrow> u32 \<Rightarrow> bool" where
  "in_range a n x \<longleftrightarrow> unat (x - a) < n"

lemma blit_in: "in_range a n x \<Longrightarrow> blit a n f m x = f (unat (x - a))"
  by (simp add: blit_def in_range_def)

lemma blit_out: "\<not> in_range a n x \<Longrightarrow> blit a n f m x = m x"
  by (simp add: blit_def in_range_def)

lemma unat_offset [simp]: "i < 2 ^ 32 \<Longrightarrow> unat (a + of_nat i - a :: u32) = i"
  by (simp add: unat_of_nat)

lemma blit_nth:
  assumes "i < n" and "n \<le> 2 ^ 32"
  shows "blit a n f m (a + of_nat i) = f i"
proof -
  have "unat (a + of_nat i - a) = i" using assms by (intro unat_offset) simp
  with assms(1) show ?thesis by (simp add: blit_def)
qed

lemma blit_0 [simp]: "blit a 0 f m = m"
  by (simp add: blit_def)

lemma blit_cong: "(\<And>i. i < n \<Longrightarrow> f i = g i) \<Longrightarrow> blit a n f m = blit a n g m"
  by (auto simp: blit_def)

section \<open>Characters and literals\<close>

text \<open>A string literal of the C code: its characters and the terminator.\<close>

definition lit :: "string \<Rightarrow> u8 list" where
  "lit cs = map of_char cs @ [0]"

section \<open>print.c\<close>

text \<open>
  The BIOS teletype call gets \<open>0x0e << 8 | c\<close> in \<open>eax\<close>; the \<open>char\<close> is signed and is
  widened to \<open>int\<close> first. The log holds the values of \<open>eax\<close>, the latest last.
\<close>

definition int10 :: "u32 \<Rightarrow> ('e machine, unit) cmd" where
  "int10 eax = modify (\<lambda>s. s\<lparr>int10_log := int10_log s @ [eax]\<rparr>)"

definition putc :: "u8 \<Rightarrow> ('e machine, unit) cmd" where
  "putc c = int10 (push_bit 8 0x0e OR scast c)"

fun puts :: "u8 list \<Rightarrow> ('e machine, unit) cmd" where
  "puts [] = halt (Undef Out_Of_Bounds)"
| "puts (c # cs) = (if c = 0 then ret () else bind (putc c) (\<lambda>_. puts cs))"

definition panic :: "string \<Rightarrow> ('e machine, 'a) cmd" where
  "panic msg = bind (puts (lit ''PANIC: '')) (\<lambda>_. bind (puts (lit msg)) (\<lambda>_. halt (Panic msg)))"

text \<open>What a C string prints: one teletype call per character before the terminator.\<close>

lemma putc_run: "putc c s = Some (Inr (), s\<lparr>int10_log := int10_log s @ [0xe00 OR scast c]\<rparr>)"
  by (simp add: putc_def int10_def exec)

lemma puts_run:
  "0 \<notin> set cs \<Longrightarrow>
   puts (cs @ 0 # rest) s =
     Some (Inr (), s\<lparr>int10_log := int10_log s @ map (\<lambda>c. 0xe00 OR scast c) cs\<rparr>)"
  by (induction cs arbitrary: s) (simp_all add: exec bind_return [OF putc_run])

lemma of_char_u8_0_iff: "of_char c = (0 :: u8) \<longleftrightarrow> c = CHR 0x00"
proof -
  have "of_char c = (0 :: u8) \<longleftrightarrow> of_nat (of_char c) = (0 :: u8)"
    by (simp only: of_nat_of_char)
  also have "\<dots> \<longleftrightarrow> 256 dvd (of_char c :: nat)"
    by (simp add: word_of_nat_eq_0_iff)
  also have "\<dots> \<longleftrightarrow> of_char c = (0 :: nat)"
    using nat_of_char_less_256 [of c] by (metis dvd_imp_mod_0 dvd_0_right mod_less)
  also have "\<dots> \<longleftrightarrow> of_char c = (of_char (CHR 0x00) :: nat)"
    by simp
  also have "\<dots> \<longleftrightarrow> c = CHR 0x00"
    by (simp only: of_char_eq_iff)
  finally show ?thesis .
qed

definition put_all :: "u8 list \<Rightarrow> 'e machine \<Rightarrow> 'e machine" where
  "put_all cs s = s\<lparr>int10_log := int10_log s @ map (\<lambda>c. 0xe00 OR scast c) cs\<rparr>"

lemma puts_lit_run:
  "CHR 0x00 \<notin> set cs \<Longrightarrow> puts (lit cs) s = Some (Inr (), put_all (map of_char cs) s)"
  unfolding lit_def put_all_def
  by (subst puts_run) (auto simp: of_char_u8_0_iff)

lemma panic_run:
  assumes "CHR 0x00 \<notin> set msg"
  shows "panic msg s = Some (Inl (Panic msg), put_all (map of_char msg) (put_all (map of_char ''PANIC: '') s))"
proof -
  have "puts (lit ''PANIC: '') s = Some (Inr (), put_all (map of_char ''PANIC: '') s)"
    by (rule puts_lit_run) simp
  with assms show ?thesis
    by (simp add: panic_def bind_return puts_lit_run exec)
qed

lemma put_all_frame [simp]:
  "mem (put_all cs s) = mem s"
  "ext_stack_top (put_all cs s) = ext_stack_top s"
  "static_stack_top (put_all cs s) = static_stack_top s"
  "region_heap (put_all cs s) = region_heap s"
  "bios_env (put_all cs s) = bios_env s"
  by (simp_all add: put_all_def)

end
