(* ===== verification/Cstring.thy ===== *)
theory Cstring
  imports Machine
begin

text \<open>
  \<^verbatim>\<open>stage1/string.c\<close> and \<^verbatim>\<open>stage1/math.c\<close>, on character arrays: an array is the list of
  its bytes, terminator included, and every access is checked against its length, so a
  read or write past the array is the result \<^term>\<open>Inl Out_Of_Bounds\<close>. The C string an
  array holds is what comes before its first zero byte.
\<close>

section \<open>math.c\<close>

definition min_u32 :: "u32 \<Rightarrow> u32 \<Rightarrow> u32" where
  "min_u32 a b = (if a < b then a else b)"

definition max_u32 :: "u32 \<Rightarrow> u32 \<Rightarrow> u32" where
  "max_u32 a b = (if a > b then a else b)"

lemma unat_min_u32 [simp]: "unat (min_u32 a b) = min (unat a) (unat b)"
  by (auto simp: min_u32_def word_less_nat_alt)

lemma unat_max_u32 [simp]: "unat (max_u32 a b) = max (unat a) (unat b)"
  by (auto simp: max_u32_def word_less_nat_alt)

section \<open>string.c\<close>

fun strlen_loop :: "u8 list \<Rightarrow> u32 \<Rightarrow> u32 res" where
  "strlen_loop [] len = Inl Out_Of_Bounds"
| "strlen_loop (c # str) len = (if c \<noteq> 0 then strlen_loop str (len + 1) else Inr len)"

definition strlen :: "u8 list \<Rightarrow> u32 res" where
  "strlen str = strlen_loop str 0"

definition toupper :: "u8 \<Rightarrow> u8" where
  "toupper c = (if of_char CHR ''a'' \<le> c \<and> c \<le> of_char CHR ''z'' then c - 32 else c)"

text \<open>The three assignments of the exclusive-or swap, in their order.\<close>

function strnrev_loop :: "nat \<Rightarrow> nat \<Rightarrow> u8 list \<Rightarrow> u8 list res" where
  "strnrev_loop i j str =
     (if i < j then
        rbind (rd str i) (\<lambda>a. rbind (rd str j) (\<lambda>b. rbind (wr str i (a XOR b)) (\<lambda>str1.
        rbind (rd str1 j) (\<lambda>b1. rbind (rd str1 i) (\<lambda>a1. rbind (wr str1 j (b1 XOR a1)) (\<lambda>str2.
        rbind (rd str2 i) (\<lambda>a2. rbind (rd str2 j) (\<lambda>b2. rbind (wr str2 i (a2 XOR b2)) (\<lambda>str3.
        strnrev_loop (i + 1) (j - 1) str3)))))))))
      else Inr str)"
  by pat_completeness auto
termination
  by (relation "measure (\<lambda>(i, j, str). j - i)") auto

declare strnrev_loop.simps [simp del]

definition strnrev :: "u8 list \<Rightarrow> nat \<Rightarrow> u8 list res" where
  "strnrev str n = (if n = 0 then Inr str else strnrev_loop 0 (n - 1) str)"

fun streq :: "u8 list \<Rightarrow> u8 list \<Rightarrow> bool res" where
  "streq (a # s1) (b # s2) = (if a \<noteq> 0 \<and> b \<noteq> 0 \<and> a = b then streq s1 s2 else Inr (a = b))"
| "streq _ _ = Inl Out_Of_Bounds"

definition alphabet :: "u8 list" where
  "alphabet = lit ''0123456789ABCDEF''"

text \<open>
  The digit loop of \<open>itoa\<close>: \<open>value\<close> and \<open>base\<close> are C \<open>int\<close>s there, the value not negative.
  With base one the value never gets smaller and the loop runs off the buffer.
\<close>

function itoa_loop :: "int \<Rightarrow> u8 list \<Rightarrow> nat \<Rightarrow> int \<Rightarrow> (u8 list \<times> nat) res" where
  "itoa_loop value str i base =
     (if value > 0 then
        if base = 0 then Inl Div_By_Zero
        else case rd alphabet (nat (value mod base)) of
          Inl e \<Rightarrow> Inl e
        | Inr d \<Rightarrow>
            (case wr str i d of
              Inl e \<Rightarrow> Inl e
            | Inr str' \<Rightarrow> itoa_loop (value div base) str' (i + 1) base)
      else Inr (str, i))"
  by pat_completeness auto
termination
  by (relation "measure (\<lambda>(value, str, i, base). length str - i)")
    (auto simp: wr_def split: if_splits)

declare itoa_loop.simps [simp del]

text \<open>
  \<open>str\<close> is \<^term>\<open>None\<close> for the null pointer; the result is \<^term>\<open>None\<close> for \<open>NULL\<close> and the
  filled buffer otherwise. Negating the least \<open>int\<close> overflows.
\<close>

definition itoa :: "int \<Rightarrow> u8 list option \<Rightarrow> u8 \<Rightarrow> u8 list option res" where
  "itoa value0 str0 base =
     (case str0 of None \<Rightarrow> Inr None | Some str \<Rightarrow>
       if unat base > length alphabet then Inr None
       else
         let is_neg = value0 < 0 in
         rbind (if is_neg then (if value0 = - (2 ^ 31) then Inl Signed_Overflow else Inr (- value0))
                else Inr value0) (\<lambda>value.
         rbind (itoa_loop value str 0 (uint base)) (\<lambda>(str, i).
         rbind (if i = 0 then rbind (wr str i (of_char CHR ''0'')) (\<lambda>str. Inr (str, i + 1))
                else Inr (str, i)) (\<lambda>(str, i).
         rbind (if is_neg then rbind (wr str i (of_char CHR ''-'')) (\<lambda>str. Inr (str, i + 1))
                else Inr (str, i)) (\<lambda>(str, i).
         rbind (wr str i 0) (\<lambda>str.
         rbind (strnrev str i) (\<lambda>str. Inr (Some str))))))))"

text \<open>\<open>sizeof(alphabet)\<close> counts the terminator.\<close>

function find_from :: "nat \<Rightarrow> u8 \<Rightarrow> int" where
  "find_from i d =
     (if i < length alphabet then if d = alphabet ! i then int i else find_from (i + 1) d else - 1)"
  by pat_completeness auto
termination
  by (relation "measure (\<lambda>(i, d). length alphabet - i)") auto

declare find_from.simps [simp del]

definition find_in_alphabet :: "u8 \<Rightarrow> int" where
  "find_in_alphabet d = find_from 0 (toupper d)"

fun atoi_loop :: "u8 list \<Rightarrow> u8 \<Rightarrow> u32 \<Rightarrow> (bool \<times> u32) res" where
  "atoi_loop [] base out = Inl Out_Of_Bounds"
| "atoi_loop (c # str) base out =
     (if c \<noteq> 0 then
        let out1 = out * ucast base; digit = find_in_alphabet c in
        if digit < 0 \<or> uint base \<le> digit then Inr (False, out1)
        else atoi_loop str base (out1 + of_int digit)
      else Inr (True, out))"

definition atoi :: "u8 list \<Rightarrow> u8 \<Rightarrow> (bool \<times> u32) res" where
  "atoi str base = atoi_loop str base 0"

section \<open>The string an array holds\<close>

definition cstr :: "u8 list \<Rightarrow> u8 list" where
  "cstr buf = takeWhile (\<lambda>c. c \<noteq> 0) buf"

definition terminated :: "u8 list \<Rightarrow> bool" where
  "terminated buf \<longleftrightarrow> 0 \<in> set buf"

lemma terminated_split:
  "terminated buf \<longleftrightarrow> (\<exists>rest. buf = cstr buf @ 0 # rest)"
proof
  assume "terminated buf"
  then have "dropWhile (\<lambda>c. c \<noteq> 0) buf \<noteq> []"
    by (auto simp: terminated_def dropWhile_eq_Nil_conv)
  then obtain d ds where d: "dropWhile (\<lambda>c. c \<noteq> 0) buf = d # ds"
    by (cases "dropWhile (\<lambda>c. c \<noteq> 0) buf") auto
  then have "d = 0" using hd_dropWhile [of "\<lambda>c. c \<noteq> 0" buf] by auto
  with d show "\<exists>rest. buf = cstr buf @ 0 # rest"
    by (metis cstr_def takeWhile_dropWhile_id)
next
  assume "\<exists>rest. buf = cstr buf @ 0 # rest"
  then obtain rest where "buf = cstr buf @ 0 # rest" ..
  then show "terminated buf"
    unfolding terminated_def by (metis in_set_conv_decomp)
qed

lemma cstr_simps [simp]:
  "cstr [] = []"
  "cstr (c # cs) = (if c = 0 then [] else c # cstr cs)"
  by (simp_all add: cstr_def)

lemma terminated_simps [simp]:
  "\<not> terminated []"
  "terminated (c # cs) \<longleftrightarrow> c = 0 \<or> terminated cs"
  by (auto simp: terminated_def)

lemma cstr_append: "0 \<notin> set cs \<Longrightarrow> cstr (cs @ 0 # rest) = cs"
  by (induction cs) auto

lemma strlen_loop_cstr:
  "terminated buf \<Longrightarrow> strlen_loop buf len = Inr (len + of_nat (length (cstr buf)))"
  by (induction buf arbitrary: len) (auto simp: algebra_simps)

lemma strlen_cstr: "terminated buf \<Longrightarrow> strlen buf = Inr (of_nat (length (cstr buf)))"
  by (simp add: strlen_def strlen_loop_cstr)

lemma streq_cstr: "terminated s1 \<Longrightarrow> terminated s2 \<Longrightarrow> streq s1 s2 = Inr (cstr s1 = cstr s2)"
  by (induction s1 s2 rule: streq.induct) auto

section \<open>Reversal in place\<close>

lemma strnrev_loop_nth:
  "i \<le> Suc j \<Longrightarrow> j < length s \<Longrightarrow>
   \<exists>s'. strnrev_loop i j s = Inr s' \<and> length s' = length s \<and>
     (\<forall>k < length s. s' ! k = (if i \<le> k \<and> k \<le> j then s ! (i + j - k) else s ! k))"
proof (induction i j s rule: strnrev_loop.induct)
  case (1 i j s)
  show ?case
  proof (cases "i < j")
    case False
    then have "i = j \<or> i = Suc j" using "1.prems"(1) by auto
    with False show ?thesis by (auto simp: strnrev_loop.simps [of i j s])
  next
    case True
    define t where "t = s[i := s ! j, j := s ! i]"
    have il: "i < length s" using True "1.prems" by simp
    have xx: "a XOR b XOR a = b" "b XOR (a XOR b) = a" for a b :: u8
      by (simp_all add: ac_simps flip: xor.assoc)
    have swap: "strnrev_loop i j s = strnrev_loop (i + 1) (j - 1) t"
      using True il "1.prems"
      by (subst strnrev_loop.simps) (simp add: t_def list_update_swap nth_list_update xx)
    have le_t: "i + 1 \<le> Suc (j - 1)" "j - 1 < length t"
      using True "1.prems" by (simp_all add: t_def)
    obtain s' where s': "strnrev_loop (i + 1) (j - 1) t = Inr s'" "length s' = length t"
      "\<forall>k < length t. s' ! k = (if i + 1 \<le> k \<and> k \<le> j - 1 then t ! (i + 1 + (j - 1) - k) else t ! k)"
      using "1.IH" [of t, OF True] le_t by blast
    have "s' ! k = (if i \<le> k \<and> k \<le> j then s ! (i + j - k) else s ! k)" if "k < length s" for k
    proof -
      have "s' ! k = (if i + 1 \<le> k \<and> k \<le> j - 1 then t ! (i + j - k) else t ! k)"
        using s'(3) that True by (auto simp: t_def)
      then show ?thesis
        using True that "1.prems" by (auto simp: t_def nth_list_update)
    qed
    with s' swap show ?thesis by (auto simp: t_def)
  qed
qed

lemma strnrev_rev:
  assumes "n \<le> length s"
  shows "strnrev s n = Inr (rev (take n s) @ drop n s)"
proof (cases "n = 0")
  case True
  then show ?thesis by (simp add: strnrev_def)
next
  case False
  with assms have "n - 1 < length s" by simp
  from strnrev_loop_nth [OF _ this, of 0] obtain s' where s':
    "strnrev_loop 0 (n - 1) s = Inr s'" "length s' = length s"
    "\<forall>k < length s. s' ! k = (if k \<le> n - 1 then s ! (n - 1 - k) else s ! k)"
    by auto
  have "s' = rev (take n s) @ drop n s"
  proof (rule nth_equalityI)
    fix k assume "k < length s'"
    with s' assms False show "s' ! k = (rev (take n s) @ drop n s) ! k"
      by (auto simp: nth_append rev_nth min_def)
  qed (use s'(2) assms in simp)
  with s'(1) False show ?thesis by (simp add: strnrev_def)
qed

section \<open>Digits\<close>

text \<open>The digits of a number, the lowest first.\<close>

function lsd :: "int \<Rightarrow> int \<Rightarrow> int list" where
  "lsd b v = (if 0 < v \<and> 2 \<le> b then v mod b # lsd b (v div b) else [])"
  by pat_completeness auto
termination
proof (relation "measure (\<lambda>(b, v). nat v)")
  fix b v :: int
  assume "0 < v \<and> 2 \<le> b"
  then have "v div b < v" by (simp add: int_div_less_self)
  with \<open>0 < v \<and> 2 \<le> b\<close> show "((b, v div b), b, v) \<in> measure (\<lambda>(b, v). nat v)"
    by (simp add: nat_mono_iff)
qed simp

declare lsd.simps [simp del]

lemma lsd_step: "0 < v \<Longrightarrow> 2 \<le> b \<Longrightarrow> lsd b v = v mod b # lsd b (v div b)"
  by (subst lsd.simps) simp

lemma lsd_stop: "v \<le> 0 \<Longrightarrow> lsd b v = []"
  by (subst lsd.simps) simp

lemma lsd_digits: "d \<in> set (lsd b v) \<Longrightarrow> 0 \<le> d \<and> d < b"
  by (induction b v rule: lsd.induct) (subst (asm) (2) lsd.simps, auto split: if_splits)

lemma lsd_length: "v < b ^ n \<Longrightarrow> 2 \<le> b \<Longrightarrow> length (lsd b v) \<le> n"
proof (induction n arbitrary: v)
  case 0
  then show ?case by (simp add: lsd_stop)
next
  case (Suc n)
  show ?case
  proof (cases "0 < v")
    case True
    have "v div b < b ^ n"
    proof (rule ccontr)
      assume "\<not> v div b < b ^ n"
      then have "b ^ n * b \<le> v div b * b" using Suc.prems(2) by (intro mult_right_mono) simp_all
      also have "\<dots> \<le> v"
        using Suc.prems(2) mult_div_mod_eq [of b v] pos_mod_sign [of b v]
        by (subst mult.commute) linarith
      finally show False using Suc.prems(1) by (simp add: ac_simps)
    qed
    then have "length (lsd b (v div b)) \<le> n" using Suc by simp
    with True Suc.prems show ?thesis by (simp add: lsd_step)
  qed (simp add: lsd_stop)
qed

lemma lsd_value: "0 \<le> v \<Longrightarrow> 2 \<le> b \<Longrightarrow> foldr (\<lambda>d a. a * b + d) (lsd b v) 0 = v"
proof (induction b v rule: lsd.induct)
  case (1 b v)
  show ?case
  proof (cases "0 < v")
    case True
    with 1 show ?thesis by (simp add: lsd_step pos_imp_zdiv_nonneg_iff)
  qed (use "1.prems" in \<open>simp add: lsd_stop\<close>)
qed

lemma length_alphabet [simp]: "length alphabet = 17"
  by (simp add: alphabet_def lit_def)

lemma itoa_loop_digits:
  "2 \<le> base \<Longrightarrow> base \<le> 17 \<Longrightarrow> i + length (lsd base v) \<le> length str \<Longrightarrow>
   itoa_loop v str i base =
     Inr (take i str @ map (\<lambda>d. alphabet ! nat d) (lsd base v) @ drop (i + length (lsd base v)) str,
       i + length (lsd base v))"
proof (induction v str i base rule: itoa_loop.induct)
  case (1 v str i base)
  show ?case
  proof (cases "0 < v")
    case False
    then show ?thesis by (subst itoa_loop.simps) (simp add: lsd_stop)
  next
    case True
    let ?d = "alphabet ! nat (v mod base)"
    have lsd: "lsd base v = v mod base # lsd base (v div base)"
      using True "1.prems" by (simp add: lsd_step)
    have i: "i < length str" using "1.prems" lsd by simp
    have m: "nat (v mod base) < 17"
      using pos_mod_bound [of base v] pos_mod_sign [of base v] "1.prems" by linarith
    have "itoa_loop v str i base = itoa_loop (v div base) (str[i := ?d]) (i + 1) base"
      using True "1.prems" i m by (subst itoa_loop.simps) simp
    also have "\<dots> = Inr (take (i + 1) (str[i := ?d]) @ map (\<lambda>d. alphabet ! nat d) (lsd base (v div base))
        @ drop (i + 1 + length (lsd base (v div base))) (str[i := ?d]), i + 1 + length (lsd base (v div base)))"
      using True "1.prems" i m lsd by (intro "1.IH") simp_all
    also have "take (i + 1) (str[i := ?d]) = take i str @ [?d]"
      using i by (simp add: take_Suc_conv_app_nth)
    finally show ?thesis by (simp add: lsd)
  qed
qed

text \<open>Reading digits back: each of the sixteen digit characters gives its value.\<close>

lemma alphabet_bytes:
  "alphabet = [48, 49, 50, 51, 52, 53, 54, 55, 56, 57, 65, 66, 67, 68, 69, 70, 0]"
  by (simp add: alphabet_def lit_def)

lemma distinct_alphabet: "distinct alphabet"
  by (simp add: alphabet_bytes)

lemma toupper_alphabet: "c \<in> set alphabet \<Longrightarrow> toupper c = c"
proof -
  have "\<forall>c \<in> set alphabet. \<not> (97 \<le> c \<and> c \<le> 122)" by (simp add: alphabet_bytes)
  then show "c \<in> set alphabet \<Longrightarrow> toupper c = c" by (auto simp: toupper_def)
qed

lemma find_from_nth: "i \<le> d \<Longrightarrow> d < length alphabet \<Longrightarrow> find_from i (alphabet ! d) = int d"
proof (induction "d - i" arbitrary: i)
  case 0
  then show ?case by (subst find_from.simps) simp
next
  case (Suc k)
  then have "alphabet ! d \<noteq> alphabet ! i"
    using nth_eq_iff_index_eq [OF distinct_alphabet, of d i] by auto
  with Suc show ?case by (subst find_from.simps) simp
qed

lemma find_in_alphabet_digit: "d < 16 \<Longrightarrow> find_in_alphabet (alphabet ! d) = int d"
  by (simp add: find_in_alphabet_def toupper_alphabet find_from_nth)

lemma alphabet_nonzero: "d < 16 \<Longrightarrow> alphabet ! d \<noteq> 0"
  using nth_eq_iff_index_eq [OF distinct_alphabet, of d 16] by (simp add: alphabet_bytes)

lemma atoi_loop_digits:
  assumes "unat base \<le> 16"
  shows "\<forall>d \<in> set ds. 0 \<le> d \<and> d < uint base \<Longrightarrow>
    atoi_loop (map (\<lambda>d. alphabet ! nat d) ds @ 0 # rest) base out =
      Inr (True, foldl (\<lambda>a d. a * ucast base + of_int d) out ds)"
proof (induction ds arbitrary: out)
  case Nil
  then show ?case by simp
next
  case (Cons d ds)
  have d: "0 \<le> d" "d < uint base" using Cons.prems by simp_all
  have "uint base \<le> 16" using assms unfolding unat_eq_nat_uint by arith
  with d have n: "nat d < 16" by simp
  have find: "find_in_alphabet (alphabet ! nat d) = d"
    using find_in_alphabet_digit [OF n] d by simp
  have "atoi_loop (map (\<lambda>d. alphabet ! nat d) (d # ds) @ 0 # rest) base out
      = atoi_loop (map (\<lambda>d. alphabet ! nat d) ds @ 0 # rest) base (out * ucast base + of_int d)"
    using d alphabet_nonzero [OF n] by (simp only: list.map append_Cons atoi_loop.simps Let_def find) simp
  also have "\<dots> = Inr (True, foldl (\<lambda>a d. a * ucast base + of_int d) (out * ucast base + of_int d) ds)"
    using Cons.prems by (intro Cons.IH) simp
  finally show ?case by simp
qed

lemma foldl_of_int:
  "foldl (\<lambda>a d. a * of_int b + of_int d) (of_int x) ds = (of_int (foldl (\<lambda>a d. a * b + d) x ds) :: u32)"
  by (induction ds arbitrary: x) (simp_all flip: of_int_mult of_int_add)

lemma foldl_value:
  assumes "0 \<le> v" and "2 \<le> unat base"
  shows "foldl (\<lambda>a d. a * ucast base + of_int d) 0 (rev (lsd (uint base) v)) = (of_int v :: u32)"
proof -
  have b: "ucast base = (of_int (uint base) :: u32)" by simp
  have u: "2 \<le> uint base" using assms(2) unfolding unat_eq_nat_uint by arith
  have "foldl (\<lambda>a d. a * ucast base + of_int d) 0 (rev (lsd (uint base) v))
      = (of_int (foldl (\<lambda>a d. a * uint base + d) 0 (rev (lsd (uint base) v))) :: u32)"
    unfolding b by (simp only: foldl_of_int [of _ 0, simplified])
  also have "foldl (\<lambda>a d. a * uint base + d) 0 (rev (lsd (uint base) v)) = v"
    using assms u by (simp only: foldl_conv_foldr rev_rev_ident) (rule lsd_value, simp_all)
  finally show ?thesis .
qed

section \<open>What itoa writes\<close>

definition itoa_text :: "int \<Rightarrow> int \<Rightarrow> u8 list" where
  "itoa_text base v =
     (if v < 0 then [of_char CHR ''-''] else []) @
     (if v = 0 then [of_char CHR ''0''] else map (\<lambda>d. alphabet ! nat d) (rev (lsd base \<bar>v\<bar>)))"

lemma lsd_nonempty: "0 < v \<Longrightarrow> 2 \<le> b \<Longrightarrow> lsd b v \<noteq> []"
  by (simp add: lsd_step)

lemma itoa_writes:
  assumes base: "2 \<le> unat base" "unat base \<le> 17" and v: "- (2 ^ 31) < v"
    and room: "length (itoa_text (uint base) v) < length str"
  shows "itoa v (Some str) base = Inr (Some (itoa_text (uint base) v @ 0 #
    drop (Suc (length (itoa_text (uint base) v))) str))"
proof -
  let ?b = "uint base" and ?a = "\<bar>v\<bar>"
  let ?ds = "map (\<lambda>d. alphabet ! nat d) (lsd ?b ?a)"
  have b: "2 \<le> ?b" "?b \<le> 17" using base unfolding unat_eq_nat_uint by arith+
  have ds: "length ?ds \<le> length str"
    using room by (cases "v = 0") (simp_all add: itoa_text_def lsd_stop)
  have loop: "itoa_loop ?a str 0 ?b = Inr (?ds @ drop (length ?ds) str, length ?ds)"
    using itoa_loop_digits [OF b, of 0 ?a str] ds by simp
  have neg: "v < 0 \<Longrightarrow> v \<noteq> - (2 ^ 31)" using v by simp
  consider (zero) "v = 0" | (pos) "0 < v" | (neg) "v < 0" by linarith
  then show ?thesis
  proof cases
    case zero
    obtain c1 c2 cs where str: "str = c1 # c2 # cs"
      using room zero by (cases str; cases "tl str") (auto simp: itoa_text_def)
    show ?thesis
      using loop base zero
      by (simp add: itoa_def lsd_stop str strnrev_rev itoa_text_def Let_def)
  next
    case pos
    have ne: "lsd ?b v \<noteq> []" using lsd_nonempty pos b by simp
    have lt: "length (lsd ?b v) < length str" using room pos by (simp add: itoa_text_def)
    with pos ne loop base show ?thesis
      by (simp add: itoa_def Let_def list_update_append strnrev_rev itoa_text_def rev_map
          upd_conv_take_nth_drop Cons_nth_drop_Suc)
  next
    case neg
    have ne: "lsd ?b (- v) \<noteq> []" using lsd_nonempty neg b by simp
    have lt: "Suc (length (lsd ?b (- v))) < length str" using room neg by (simp add: itoa_text_def)
    with neg ne loop base v show ?thesis
      by (simp add: itoa_def Let_def list_update_append strnrev_rev itoa_text_def rev_map
          upd_conv_take_nth_drop Cons_nth_drop_Suc)
  qed
qed

lemma itoa_loop_short:
  "2 \<le> base \<Longrightarrow> base \<le> 17 \<Longrightarrow> length str < i + length (lsd base v) \<Longrightarrow> i \<le> length str \<Longrightarrow>
   itoa_loop v str i base = Inl Out_Of_Bounds"
proof (induction v str i base rule: itoa_loop.induct)
  case (1 v str i base)
  then have v: "0 < v" using lsd_stop [of v base] by (cases "0 < v") auto
  have m: "nat (v mod base) < 17"
    using pos_mod_bound [of base v] pos_mod_sign [of base v] "1.prems" by linarith
  show ?case
  proof (cases "i < length str")
    case False
    with v m "1.prems" show ?thesis by (subst itoa_loop.simps) simp
  next
    case True
    have "itoa_loop (v div base) (str[i := alphabet ! nat (v mod base)]) (i + 1) base = Inl Out_Of_Bounds"
      using True "1.prems" v m lsd_step [of v base] by (intro "1.IH") simp_all
    with True v m "1.prems" show ?thesis by (subst itoa_loop.simps) simp
  qed
qed

lemma itoa_short:
  assumes base: "2 \<le> unat base" "unat base \<le> 17" and v: "- (2 ^ 31) < v"
    and short: "length str \<le> length (itoa_text (uint base) v)"
  shows "itoa v (Some str) base = Inl Out_Of_Bounds"
proof -
  let ?b = "uint base" and ?a = "\<bar>v\<bar>"
  let ?ds = "map (\<lambda>d. alphabet ! nat d) (lsd ?b ?a)"
  have b: "2 \<le> ?b" "?b \<le> 17" using base unfolding unat_eq_nat_uint by arith+
  show ?thesis
  proof (cases "length str < length (lsd ?b ?a)")
    case True
    then have "itoa_loop ?a str 0 ?b = Inl Out_Of_Bounds"
      using b by (intro itoa_loop_short) simp_all
    with base v show ?thesis by (auto simp: itoa_def Let_def abs_if split: if_splits)
  next
    case False
    then have loop: "itoa_loop ?a str 0 ?b = Inr (?ds @ drop (length ?ds) str, length ?ds)"
      using itoa_loop_digits [OF b, of 0 ?a str] by simp
    consider (zero) "v = 0" | (pos) "0 < v" | (neg) "v < 0" by linarith
    then show ?thesis
    proof cases
      case zero
      then have "str = [] \<or> (\<exists>c. str = [c])"
        using short by (cases str; cases "tl str") (auto simp: itoa_text_def)
      with loop base zero show ?thesis by (auto simp: itoa_def lsd_stop Let_def)
    next
      case pos
      with lsd_nonempty [of v ?b] b have "lsd ?b v \<noteq> []" by simp
      with pos loop base short show ?thesis by (simp add: itoa_def Let_def itoa_text_def)
    next
      case neg
      with lsd_nonempty [of "- v" ?b] b have ne: "lsd ?b (- v) \<noteq> []" by simp
      have "length str \<le> Suc (length (lsd ?b (- v)))" using neg short by (simp add: itoa_text_def)
      with ne neg loop base v show ?thesis
        by (cases "length (lsd ?b (- v)) < length str") (simp_all add: itoa_def Let_def)
    qed
  qed
qed

lemma itoa_text_nonzero:
  assumes "2 \<le> base" and "base \<le> 16"
  shows "0 \<notin> set (itoa_text base v)"
proof -
  have "alphabet ! nat d \<noteq> 0" if "d \<in> set (lsd base \<bar>v\<bar>)" for d
    using lsd_digits [OF that] assms by (intro alphabet_nonzero) (simp add: nat_less_iff)
  then have "0 \<notin> (\<lambda>d. alphabet ! nat d) ` set (lsd base \<bar>v\<bar>)" by force
  then show ?thesis by (simp add: itoa_text_def)
qed

lemma atoi_itoa_text:
  assumes v: "0 \<le> v" "v < 2 ^ 31" and base: "2 \<le> unat base" "unat base \<le> 16"
  shows "atoi_loop (itoa_text (uint base) v @ 0 # rest) base 0 = Inr (True, of_int v)"
proof -
  let ?b = "uint base"
  have b: "2 \<le> ?b" "?b \<le> 16" using base unfolding unat_eq_nat_uint by arith+
  show ?thesis
  proof (cases "v = 0")
    case True
    have "find_in_alphabet (of_char CHR ''0'') = 0"
      using find_in_alphabet_digit [of 0] by (simp add: alphabet_bytes)
    with True b show ?thesis by (simp add: itoa_text_def Let_def)
  next
    case False
    with v have t: "itoa_text ?b v = map (\<lambda>d. alphabet ! nat d) (rev (lsd ?b v))" by (simp add: itoa_text_def)
    have "\<forall>d \<in> set (rev (lsd ?b v)). 0 \<le> d \<and> d < ?b" using lsd_digits by simp
    from atoi_loop_digits [OF base(2) this] foldl_value [OF v(1) base(1)]
    show ?thesis unfolding t by simp
  qed
qed

section \<open>Properties\<close>

text \<open>
  C24. Printing a non-negative number with \<open>itoa\<close> and reading the buffer back with \<open>atoi\<close> in
  the same base gives the number again, and the buffer holds a terminated string: for every
  \<open>int\<close> value, every base from 2 to 16, and every buffer of at least 33 bytes.
\<close>

theorem itoa_atoi_roundtrip:
  assumes v: "0 \<le> v" "v < 2 ^ 31" and base: "2 \<le> unat base" "unat base \<le> 16"
    and room: "33 \<le> length str"
  shows "\<exists>buf. itoa v (Some str) base = Inr (Some buf) \<and> length buf = length str
    \<and> terminated buf \<and> atoi buf base = Inr (True, of_int v)"
proof -
  let ?b = "uint base" and ?t = "itoa_text (uint base) v"
  have b: "2 \<le> ?b" "?b \<le> 16" using base unfolding unat_eq_nat_uint by arith+
  have "v < ?b ^ 31"
    using v(2) power_mono [of 2 ?b 31] b by simp
  then have len: "length ?t < length str"
    using lsd_length [of v ?b 31] v b room by (auto simp: itoa_text_def)
  let ?buf = "?t @ 0 # drop (Suc (length ?t)) str"
  have it: "itoa v (Some str) base = Inr (Some ?buf)"
    using v base len by (intro itoa_writes) simp_all
  have "atoi_loop ?buf base 0 = Inr (True, of_int v)" by (rule atoi_itoa_text [OF v base])
  moreover have "terminated ?buf" by (simp add: terminated_def)
  moreover have "length ?buf = length str" using len by simp
  ultimately show ?thesis using it unfolding atoi_def by blast
qed

theorem itoa_atoi_roundtrip_witness:
  "\<exists>buf. itoa 48879 (Some (replicate 40 0)) 16 = Inr (Some buf) \<and> length buf = 40
    \<and> terminated buf \<and> atoi buf 16 = Inr (True, 48879)"
  using itoa_atoi_roundtrip [of 48879 16 "replicate 40 0"] by simp

text \<open>
  Reversing a string in place with the exclusive-or swap reverses exactly its first \<open>n\<close>
  bytes, and comparing two terminated arrays says whether they hold the same string, for
  arrays of any content.
\<close>

theorem strnrev_streq_correct:
  "(n \<le> length s \<longrightarrow> strnrev s n = Inr (rev (take n s) @ drop n s))
   \<and> (terminated a \<and> terminated b \<longrightarrow> streq a b = Inr (cstr a = cstr b))"
  by (simp add: strnrev_rev streq_cstr)

theorem strnrev_streq_correct_witness:
  "strnrev [1, 2, 3, 4] 3 = Inr [3, 2, 1, 4] \<and> streq [65, 66, 0, 9] [65, 66, 0] = Inr True"
  using strnrev_streq_correct [of 3 "[1, 2, 3, 4]" "[65, 66, 0, 9]" "[65, 66, 0]"] by simp

text \<open>
  \<open>itoa\<close> needs a buffer longer than the sign and the digits, no more and no less: with
  one it writes them and the terminator and leaves the rest, with any shorter buffer it
  writes past the end. So the nine bytes \<open>main\<close> sets aside for the load offset are too few
  for an offset that is negative as an \<open>int\<close> and has eight hexadecimal digits.
\<close>

theorem itoa_exact_room:
  assumes "2 \<le> unat base" and "unat base \<le> 16" and "- (2 ^ 31) < v"
  shows "itoa v (Some str) base =
    (let text = itoa_text (uint base) v in
     if length text < length str then Inr (Some (text @ 0 # drop (Suc (length text)) str))
     else Inl Out_Of_Bounds)"
  using assms by (simp add: Let_def itoa_writes itoa_short not_less)

theorem itoa_exact_room_witness:
  "itoa (sint (0x80000001 :: u32)) (Some (replicate 9 0)) 16 = Inl Out_Of_Bounds
   \<and> itoa 255 (Some (replicate 3 7)) 16 = Inr (Some [70, 70, 0])"
proof -
  have "lsd 16 2147483647 = [15, 15, 15, 15, 15, 15, 15, 7]" "lsd 16 255 = [15, 15]"
    by (simp_all add: lsd.simps)
  then show ?thesis
    using itoa_exact_room [of 16 "sint (0x80000001 :: u32)" "replicate 9 0"]
      itoa_exact_room [of 16 255 "replicate 3 7"]
    by (simp add: itoa_text_def alphabet_bytes Let_def numeral_eq_Suc [of "num.One"])
qed

end
