(* ===== verification/Options.thy ===== *)
theory Options
  imports Cstring
begin

text \<open>
  \<^verbatim>\<open>stage1/options_parser.c\<close>: the parser of \<^verbatim>\<open>/boot/options.txt\<close>. The text and the two
  local arrays are byte lists with checked indices; the locals start with whatever the stack
  held, which the code can read when a line has no \<open>=\<close>, so their contents are arguments. The
  specification is line by line; the lemmas show that the parser follows it on every text of
  \<open>key=value\<close> lines within the limits and where it leaves its arrays on others.
\<close>

section \<open>Data\<close>

definition PARSER_KEY_MAX_LENGTH :: nat where "PARSER_KEY_MAX_LENGTH = 64"
definition PARSER_VALUE_MAX_LENGTH :: nat where "PARSER_VALUE_MAX_LENGTH = 256"

lemmas parser_lengths [simp] = PARSER_KEY_MAX_LENGTH_def PARSER_VALUE_MAX_LENGTH_def

datatype parser_result_t =
    PARSER_SUCCESS
  | PARSER_UNRECOGNIZED_KEY
  | PARSER_VALUE_TOO_LONG
  | PARSER_INCOMPATIBLE_LOAD_OFFSET
  | PARSER_SYNTAX_ERROR
  | PARSER_MISSING_KEY

fun parser_result_to_str :: "parser_result_t \<Rightarrow> string" where
  "parser_result_to_str PARSER_SUCCESS = ''Success''"
| "parser_result_to_str PARSER_UNRECOGNIZED_KEY = ''Unrecognized key''"
| "parser_result_to_str PARSER_VALUE_TOO_LONG = ''Value too long''"
| "parser_result_to_str PARSER_INCOMPATIBLE_LOAD_OFFSET = ''Incompatible load offset''"
| "parser_result_to_str PARSER_SYNTAX_ERROR = ''Syntax error''"
| "parser_result_to_str PARSER_MISSING_KEY = ''Missing key''"

record boot_options_t =
  boot_binary :: "u8 list"
  load_offset :: u32

definition BOOT_OPTIONS_BOOT_BINARY_KEY :: "u8 list" where
  "BOOT_OPTIONS_BOOT_BINARY_KEY = lit ''boot_binary''"

definition BOOT_OPTIONS_LOAD_OFFSET_KEY :: "u8 list" where
  "BOOT_OPTIONS_LOAD_OFFSET_KEY = lit ''load_offset''"

section \<open>Operations\<close>

definition update_options ::
  "u8 list \<Rightarrow> u8 list \<Rightarrow> boot_options_t \<Rightarrow> (parser_result_t \<times> boot_options_t) res"
where
  "update_options key value opts =
     rbind (strlen key) (\<lambda>key_len.
     rbind (strlen value) (\<lambda>value_len.
     if unat key_len > PARSER_KEY_MAX_LENGTH then Inr (PARSER_UNRECOGNIZED_KEY, opts)
     else if unat value_len > PARSER_VALUE_MAX_LENGTH then Inr (PARSER_VALUE_TOO_LONG, opts)
     else
       rbind (streq key BOOT_OPTIONS_BOOT_BINARY_KEY) (\<lambda>is_boot_binary.
       if is_boot_binary then
         rbind (wr (overwrite (boot_binary opts) 0 (take (unat value_len) value)) (unat value_len) 0) (\<lambda>bin.
         Inr (PARSER_SUCCESS, opts\<lparr>boot_binary := bin\<rparr>))
       else
         rbind (streq key BOOT_OPTIONS_LOAD_OFFSET_KEY) (\<lambda>is_load_offset.
         if is_load_offset then
           let is_hex = unat value_len > 2 \<and> value ! 0 = of_char CHR ''0'' \<and> value ! 1 = of_char CHR ''x'';
               base = (if is_hex then 16 else 10);
               offset = (if is_hex then 2 else 0) in
           rbind (atoi (drop offset value) base) (\<lambda>(ok, out).
           Inr (if ok then PARSER_SUCCESS else PARSER_SYNTAX_ERROR, opts\<lparr>load_offset := out\<rparr>))
         else Inr (PARSER_UNRECOGNIZED_KEY, opts)))))"

abbreviation newline :: u8 where "newline \<equiv> 10"
abbreviation carriage_return :: u8 where "carriage_return \<equiv> 13"
abbreviation equals_sign :: u8 where "equals_sign \<equiv> 61"

text \<open>
  The loop over the text, here what is left of it. \<^term>\<open>Some\<close> is an early return, \<^term>\<open>None\<close> the end of
  the loop.
\<close>

fun parse_loop ::
  "u8 list \<Rightarrow> nat \<Rightarrow> bool \<Rightarrow> u8 list \<Rightarrow> u8 list \<Rightarrow> boot_options_t \<Rightarrow>
   (parser_result_t option \<times> boot_options_t) res"
where
  "parse_loop [] j in_key key value opts = Inl Out_Of_Bounds"
| "parse_loop (c # text) j in_key key value opts =
     (if c = 0 then Inr (None, opts)
      else if c = newline then
        rbind (wr value j 0) (\<lambda>value.
        rbind (update_options key value opts) (\<lambda>(result, opts).
        if result \<noteq> PARSER_SUCCESS then Inr (Some result, opts)
        else parse_loop text 0 True key value opts))
      else if c = carriage_return then parse_loop text j in_key key value opts
      else if c = equals_sign then
        rbind (wr key j 0) (\<lambda>key. parse_loop text 0 False key value opts)
      else if in_key then
        if j > PARSER_KEY_MAX_LENGTH then Inr (Some PARSER_UNRECOGNIZED_KEY, opts)
        else rbind (wr key j c) (\<lambda>key. parse_loop text (j + 1) in_key key value opts)
      else
        if j > PARSER_VALUE_MAX_LENGTH then Inr (Some PARSER_VALUE_TOO_LONG, opts)
        else rbind (wr value j c) (\<lambda>value. parse_loop text (j + 1) in_key key value opts))"

text \<open>\<open>key0\<close> and \<open>value0\<close> are what the stack held where the two arrays are.\<close>

definition parse ::
  "u8 list \<Rightarrow> u8 list \<Rightarrow> u8 list \<Rightarrow> boot_options_t \<Rightarrow> (parser_result_t \<times> boot_options_t) res"
where
  "parse key0 value0 text opts =
     rbind (wr key0 0 0) (\<lambda>key.
     rbind (wr value0 0 0) (\<lambda>value.
     rbind (parse_loop text 0 True key value opts) (\<lambda>(early, opts).
     case early of
       Some result \<Rightarrow> Inr (result, opts)
     | None \<Rightarrow>
         rbind (strlen (boot_binary opts)) (\<lambda>n.
         Inr (if n = 0 then PARSER_MISSING_KEY else PARSER_SUCCESS, opts)))))"

section \<open>The specification\<close>

text \<open>One line sets one option; a config is its lines.\<close>

definition number_of :: "u8 list \<Rightarrow> (bool \<times> u32) res" where
  "number_of v =
     (if length v > 2 \<and> v ! 0 = of_char CHR ''0'' \<and> v ! 1 = of_char CHR ''x''
      then atoi (drop 2 v @ [0]) 16 else atoi (v @ [0]) 10)"

definition apply_option :: "u8 list \<Rightarrow> u8 list \<Rightarrow> boot_options_t \<Rightarrow> parser_result_t \<times> boot_options_t" where
  "apply_option k v opts =
     (if k = map of_char ''boot_binary'' then
        (PARSER_SUCCESS, opts\<lparr>boot_binary := v @ 0 # drop (Suc (length v)) (boot_binary opts)\<rparr>)
      else if k = map of_char ''load_offset'' then
        (case number_of v of
           Inr (ok, out) \<Rightarrow> (if ok then PARSER_SUCCESS else PARSER_SYNTAX_ERROR, opts\<lparr>load_offset := out\<rparr>)
         | Inl _ \<Rightarrow> (PARSER_SYNTAX_ERROR, opts))
      else (PARSER_UNRECOGNIZED_KEY, opts))"

fun apply_lines ::
  "(u8 list \<times> u8 list) list \<Rightarrow> boot_options_t \<Rightarrow> parser_result_t option \<times> boot_options_t"
where
  "apply_lines [] opts = (None, opts)"
| "apply_lines ((k, v) # ls) opts =
     (case apply_option k v opts of (r, opts') \<Rightarrow>
       if r \<noteq> PARSER_SUCCESS then (Some r, opts') else apply_lines ls opts')"

fun config_text :: "(u8 list \<times> u8 list) list \<Rightarrow> u8 list" where
  "config_text [] = []"
| "config_text ((k, v) # ls) = k @ equals_sign # v @ newline # config_text ls"

definition plain :: "u8 list \<Rightarrow> bool" where
  "plain xs \<longleftrightarrow> 0 \<notin> set xs \<and> newline \<notin> set xs \<and> carriage_return \<notin> set xs \<and> equals_sign \<notin> set xs"

definition line_ok :: "u8 list \<times> u8 list \<Rightarrow> bool" where
  "line_ok l \<longleftrightarrow> plain (fst l) \<and> plain (snd l) \<and> length (fst l) \<le> 64 \<and> length (snd l) \<le> 256"

section \<open>The parser follows it\<close>

lemma strlen_terminated:
  assumes "0 \<notin> set cs" and "length cs < 2 ^ 32"
  shows "strlen (cs @ 0 # rest) = Inr (of_nat (length cs)) \<and> unat (of_nat (length cs) :: u32) = length cs"
  using assms by (simp add: strlen_cstr terminated_def cstr_append unat_of_nat)

lemma atoi_loop_rest: "0 \<notin> set cs \<Longrightarrow> atoi_loop (cs @ 0 # rest) base out = atoi_loop (cs @ [0]) base out"
  by (induction cs arbitrary: out) (simp_all add: Let_def)

lemma atoi_loop_Inr: "0 \<notin> set cs \<Longrightarrow> \<exists>ok n. atoi_loop (cs @ [0]) base out = Inr (ok, n)"
  by (induction cs arbitrary: out) (auto simp: Let_def)

lemma number_of_Inr: "0 \<notin> set v \<Longrightarrow> \<exists>ok out. number_of v = Inr (ok, out)"
  using atoi_loop_Inr [of v 10 0] atoi_loop_Inr [of "drop 2 v" 16 0]
  by (auto simp: number_of_def atoi_def dest: in_set_dropD)

lemma update_options_apply:
  assumes k: "0 \<notin> set k" "length k \<le> 64" and v: "0 \<notin> set v" "length v \<le> 256"
    and bin: "length (boot_binary opts) = 257"
  shows "update_options (k @ 0 # r1) (v @ 0 # r2) opts = Inr (apply_option k v opts)"
proof -
  have lk: "strlen (k @ 0 # r1) = Inr (of_nat (length k))" "unat (of_nat (length k) :: u32) = length k"
    using strlen_terminated [of k r1] k by simp_all
  have lv: "strlen (v @ 0 # r2) = Inr (of_nat (length v))" "unat (of_nat (length v) :: u32) = length v"
    using strlen_terminated [of v r2] v by simp_all
  have key: "streq (k @ 0 # r1) (lit cs) = Inr (k = map of_char cs)" if "CHR 0x00 \<notin> set cs" for cs
  proof -
    have nz: "0 \<notin> set (map of_char cs :: u8 list)" using that of_char_u8_0_iff by (auto simp: image_iff)
    show ?thesis
      unfolding lit_def using cstr_append [OF k(1), of r1] cstr_append [OF nz, of "[]"]
      by (subst streq_cstr) (simp_all add: terminated_def)
  qed
  have copy: "wr (overwrite (boot_binary opts) 0 v) (length v) 0
      = Inr (v @ 0 # drop (Suc (length v)) (boot_binary opts))"
    using v(2) bin by (simp add: overwrite_terminate length_overwrite)
  have drop2: "0 \<notin> set (drop 2 v)" using v(1) by (auto dest: in_set_dropD)
  have num: "atoi (drop (if h then 2 else 0) (v @ 0 # r2)) (if h then 16 else 10)
      = (if h then atoi (drop 2 v @ [0]) 16 else atoi (v @ [0]) 10)" if "h \<Longrightarrow> length v > 2" for h
    using that atoi_loop_rest [OF v(1), of r2] atoi_loop_rest [OF drop2, of r2]
    by (auto simp: atoi_def)
  have nth: "length v > 2 \<Longrightarrow> (v @ 0 # r2) ! 0 = v ! 0" "length v > 2 \<Longrightarrow> (v @ 0 # r2) ! 1 = v ! 1"
    by (auto simp: nth_append)
  obtain ok out where n: "number_of v = Inr (ok, out)" using number_of_Inr [OF v(1)] by blast
  let ?h = "length v > 2 \<and> v ! 0 = of_char CHR ''0'' \<and> v ! 1 = of_char CHR ''x''"
  have h: "(length v > 2 \<and> (v @ 0 # r2) ! 0 = of_char CHR ''0'' \<and> (v @ 0 # r2) ! 1 = of_char CHR ''x'') = ?h"
    using nth by auto
  have n': "atoi (drop (if ?h then 2 else 0) (v @ 0 # r2)) (if ?h then 16 else 10) = Inr (ok, out)"
    using num [of ?h] n by (simp add: number_of_def)
  show ?thesis
    unfolding update_options_def lk(1) lv(1) rbind_simps lk(2) lv(2) Let_def h n'
      BOOT_OPTIONS_BOOT_BINARY_KEY_def BOOT_OPTIONS_LOAD_OFFSET_KEY_def
    using k(2) v(2) copy n by (simp add: key apply_option_def)
qed

text \<open>Plain characters go into the array of the current side, one past the limit included.\<close>

lemma plain_Cons: "plain (c # cs) \<longleftrightarrow> c \<noteq> 0 \<and> c \<noteq> newline \<and> c \<noteq> carriage_return \<and> c \<noteq> equals_sign \<and> plain cs"
  by (auto simp: plain_def)

lemma key_chars:
  assumes "plain k" and "j + length k \<le> 65" and "length key = 65"
  shows "parse_loop (k @ t) j True key value opts = parse_loop t (j + length k) True (overwrite key j k) value opts"
  using assms
proof (induction k arbitrary: j key)
  case Nil
  then show ?case by (simp add: overwrite_Nil)
next
  case (Cons c k)
  then have "parse_loop ((c # k) @ t) j True key value opts = parse_loop (k @ t) (j + 1) True (key[j := c]) value opts"
    by (simp add: plain_Cons)
  also have "\<dots> = parse_loop t (j + 1 + length k) True (overwrite (key[j := c]) (j + 1) k) value opts"
    using Cons.prems by (intro Cons.IH) (simp_all add: plain_Cons)
  finally show ?case using Cons.prems by (simp add: overwrite_Cons)
qed

lemma value_chars:
  assumes "plain v" and "j + length v \<le> 257" and "length value = 257"
  shows "parse_loop (v @ t) j False key value opts = parse_loop t (j + length v) False key (overwrite value j v) opts"
  using assms
proof (induction v arbitrary: j "value")
  case Nil
  then show ?case by (simp add: overwrite_Nil)
next
  case (Cons c v)
  then have "parse_loop ((c # v) @ t) j False key value opts = parse_loop (v @ t) (j + 1) False key (value[j := c]) opts"
    by (simp add: plain_Cons)
  also have "\<dots> = parse_loop t (j + 1 + length v) False key (overwrite (value[j := c]) (j + 1) v) opts"
    using Cons.prems by (intro Cons.IH) (simp_all add: plain_Cons)
  finally show ?case using Cons.prems by (simp add: overwrite_Cons)
qed

text \<open>The part of a line up to its \<open>=\<close>, and the rest of it.\<close>

lemma key_run:
  assumes "plain k" and "length k \<le> 64" and "length key = 65"
  shows "parse_loop (k @ equals_sign # t) 0 True key value opts
    = parse_loop t 0 False (k @ 0 # drop (Suc (length k)) key) value opts"
  using key_chars [of k 0 key "equals_sign # t" "value" opts] assms
  by (simp add: length_overwrite overwrite_terminate)

lemma value_run:
  assumes "plain v" and "length v \<le> 256" and "length value = 257"
  shows "parse_loop (v @ newline # t) 0 False key value opts =
    rbind (update_options key (v @ 0 # drop (Suc (length v)) value) opts) (\<lambda>(r, opts').
      if r \<noteq> PARSER_SUCCESS then Inr (Some r, opts')
      else parse_loop t 0 True key (v @ 0 # drop (Suc (length v)) value) opts')"
  using value_chars [of v 0 "value" "newline # t" key opts] assms
  by (simp add: length_overwrite overwrite_terminate)

lemma apply_option_length:
  "apply_option k v opts = (r, opts') \<Longrightarrow> length v \<le> 256 \<Longrightarrow> length (boot_binary opts) = 257 \<Longrightarrow>
   length (boot_binary opts') = 257"
  by (auto simp: apply_option_def split: if_splits sum.splits prod.splits)

lemma parse_loop_lines:
  assumes "list_all line_ok ls" and "length key = 65" and "length value = 257" and "length (boot_binary opts) = 257"
  shows "\<exists>key' value'. length key' = 65 \<and> length value' = 257 \<and>
    parse_loop (config_text ls @ t) 0 True key value opts =
      (case apply_lines ls opts of
        (Some r, opts') \<Rightarrow> Inr (Some r, opts')
      | (None, opts') \<Rightarrow> parse_loop t 0 True key' value' opts')
    \<and> length (boot_binary (snd (apply_lines ls opts))) = 257
    \<and> (\<exists>r. key' = (if ls = [] then key else fst (last ls) @ 0 # r))"
  using assms
proof (induction ls arbitrary: key "value" opts)
  case Nil
  then show ?case by auto
next
  case (Cons l ls)
  obtain k v where l: "l = (k, v)" by (cases l)
  have k: "plain k" "length k \<le> 64" "0 \<notin> set k" and v: "plain v" "length v \<le> 256" "0 \<notin> set v"
    using Cons.prems(1) by (simp_all add: l line_ok_def plain_def)
  define key1 where "key1 = k @ 0 # drop (Suc (length k)) key"
  define value1 where "value1 = v @ 0 # drop (Suc (length v)) value"
  obtain r opts1 where ap: "apply_option k v opts = (r, opts1)" by (cases "apply_option k v opts")
  have len1: "length key1 = 65" "length value1 = 257" "length (boot_binary opts1) = 257"
    using k v Cons.prems apply_option_length [OF ap] by (simp_all add: key1_def value1_def)
  have step: "parse_loop (config_text (l # ls) @ t) 0 True key value opts =
      (if r \<noteq> PARSER_SUCCESS then Inr (Some r, opts1) else parse_loop (config_text ls @ t) 0 True key1 value1 opts1)"
    using key_run [of k key "v @ newline # config_text ls @ t" "value" opts] k Cons.prems(2)
      value_run [of v "value" "config_text ls @ t" key1 opts] v Cons.prems(3)
      update_options_apply [OF k(3,2) v(3,2) Cons.prems(4), of "drop (Suc (length k)) key" "drop (Suc (length v)) value"]
    by (simp add: l ap flip: key1_def value1_def)
  from Cons.IH [OF _ len1] Cons.prems(1) obtain key' value' where
    "length key' = 65" "length value' = 257" and
    "parse_loop (config_text ls @ t) 0 True key1 value1 opts1 =
      (case apply_lines ls opts1 of (Some r, opts') \<Rightarrow> Inr (Some r, opts')
        | (None, opts') \<Rightarrow> parse_loop t 0 True key' value' opts')"
    "length (boot_binary (snd (apply_lines ls opts1))) = 257"
    "\<exists>r. key' = (if ls = [] then key1 else fst (last ls) @ 0 # r)" by auto
  moreover from this(5) have "\<exists>r. key' = fst (last (l # ls)) @ 0 # r"
    by (auto simp: l key1_def split: if_splits)
  ultimately show ?case
    using step ap len1 by (intro exI [of _ key'] exI [of _ value']) (cases "r = PARSER_SUCCESS"; auto simp: l)
qed

text \<open>What the code does when the text is read: return early, or check that there is a boot binary.\<close>

lemma parse_lines:
  assumes "list_all line_ok ls" and "length key0 = 65" and "length value0 = 257" and "length (boot_binary opts) = 257"
  shows "\<exists>key value. length key = 65 \<and> length value = 257 \<and>
    parse key0 value0 (config_text ls @ t) opts =
      rbind (case apply_lines ls opts of
          (Some r, opts') \<Rightarrow> Inr (Some r, opts')
        | (None, opts') \<Rightarrow> parse_loop t 0 True key value opts')
        (\<lambda>(early, opts). case early of Some r \<Rightarrow> Inr (r, opts)
          | None \<Rightarrow> rbind (strlen (boot_binary opts)) (\<lambda>n.
              Inr (if n = 0 then PARSER_MISSING_KEY else PARSER_SUCCESS, opts)))
    \<and> length (boot_binary (snd (apply_lines ls opts))) = 257
    \<and> (ls \<noteq> [] \<longrightarrow> (\<exists>r. key = fst (last ls) @ 0 # r))"
proof -
  from parse_loop_lines [of ls "key0[0 := 0]" "value0[0 := 0]" opts t] assms obtain key' value' where
    "length key' = 65" "length value' = 257" and
    "parse_loop (config_text ls @ t) 0 True (key0[0 := 0]) (value0[0 := 0]) opts =
      (case apply_lines ls opts of (Some r, opts') \<Rightarrow> Inr (Some r, opts')
        | (None, opts') \<Rightarrow> parse_loop t 0 True key' value' opts')"
    "length (boot_binary (snd (apply_lines ls opts))) = 257"
    "\<exists>r. key' = (if ls = [] then key0[0 := 0] else fst (last ls) @ 0 # r)" by auto
  moreover have "wr key0 0 0 = Inr (key0[0 := 0])" "wr value0 0 0 = Inr (value0[0 := 0])" using assms by simp_all
  ultimately show ?thesis by (intro exI [of _ key'] exI [of _ value']) (auto simp: parse_def)
qed

text \<open>The check after the loop.\<close>

definition finish :: "boot_options_t \<Rightarrow> (parser_result_t \<times> boot_options_t) res" where
  "finish opts =
     (if terminated (boot_binary opts)
      then Inr (if cstr (boot_binary opts) = [] then PARSER_MISSING_KEY else PARSER_SUCCESS, opts)
      else Inl Out_Of_Bounds)"

lemma strlen_unterminated: "\<not> terminated xs \<Longrightarrow> strlen xs = Inl Out_Of_Bounds"
proof -
  have "0 \<notin> set xs \<Longrightarrow> strlen_loop xs n = Inl Out_Of_Bounds" for n
    by (induction xs arbitrary: n) simp_all
  then show "\<not> terminated xs \<Longrightarrow> strlen xs = Inl Out_Of_Bounds"
    by (simp add: terminated_def strlen_def)
qed

lemma finish_strlen:
  assumes "length (boot_binary opts) = 257"
  shows "rbind (strlen (boot_binary opts)) (\<lambda>n.
      Inr (if n = 0 then PARSER_MISSING_KEY else PARSER_SUCCESS, opts)) = finish opts"
proof (cases "terminated (boot_binary opts)")
  case True
  have "length (cstr (boot_binary opts)) \<le> 257"
    using assms length_takeWhile_le [of _ "boot_binary opts"] by (metis cstr_def)
  then have "(of_nat (length (cstr (boot_binary opts))) = (0 :: u32)) \<longleftrightarrow> cstr (boot_binary opts) = []"
    by (simp add: word_unat_eq_iff unat_of_nat)
  with True show ?thesis by (simp add: finish_def strlen_cstr)
next
  case False
  then show ?thesis by (simp add: finish_def strlen_unterminated)
qed

definition config_result :: "parser_result_t option \<times> boot_options_t \<Rightarrow> (parser_result_t \<times> boot_options_t) res" where
  "config_result r = (case r of (Some e, opts) \<Rightarrow> Inr (e, opts) | (None, opts) \<Rightarrow> finish opts)"

lemma parse_config:
  assumes "list_all line_ok ls" and "length key0 = 65" and "length value0 = 257" and "length (boot_binary opts) = 257"
    and tail: "\<And>key value opts'. length key = 65 \<Longrightarrow> length value = 257 \<Longrightarrow>
      parse_loop t 0 True key value opts' = Inr (None, opts')"
  shows "parse key0 value0 (config_text ls @ t) opts = config_result (apply_lines ls opts)"
proof -
  obtain r opts' where ap: "apply_lines ls opts = (r, opts')" by (cases "apply_lines ls opts")
  from parse_lines [OF assms(1-4), of t] show ?thesis
    by (cases r) (auto simp: ap config_result_def tail finish_strlen)
qed

text \<open>Whatever the arrays hold, the array of the path keeps its size.\<close>

lemma update_options_length:
  assumes "update_options key value opts = Inr (r, opts')" and "length (boot_binary opts) = 257"
  shows "length (boot_binary opts') = 257"
  using assms by (auto simp: update_options_def rbind_eq_Inr_iff wr_def overwrite_def Let_def split: if_splits prod.splits)

lemma parse_loop_length:
  "parse_loop cs j in_key key value opts = Inr (early, opts') \<Longrightarrow> length (boot_binary opts) = 257 \<Longrightarrow>
     length (boot_binary opts') = 257 \<and> early \<noteq> Some PARSER_SUCCESS"
  by (induction cs j in_key key "value" opts rule: parse_loop.induct)
    (auto simp: rbind_eq_Inr_iff dest: update_options_length split: if_splits prod.splits)

section \<open>Properties\<close>

text \<open>
  C19. On every text made of \<open>key=value\<close> lines within the limits, whatever the stack held
  before, the parser applies the lines in order and stops at the first that is wrong
  (unknown key, bad number); at the end it reports a missing key when no boot binary is set. A
  last line without a newline has no effect.
\<close>

theorem parse_follows_lines:
  assumes "list_all line_ok ls" and "length key0 = 65" and "length value0 = 257"
    and "length (boot_binary opts) = 257" and "line_ok (k, v)"
  shows "parse key0 value0 (config_text ls @ 0 # rest) opts = config_result (apply_lines ls opts)
    \<and> parse key0 value0 (config_text ls @ k @ equals_sign # v @ 0 # rest) opts = config_result (apply_lines ls opts)"
proof
  show "parse key0 value0 (config_text ls @ 0 # rest) opts = config_result (apply_lines ls opts)"
    by (rule parse_config [OF assms(1-4)]) simp
  have "plain k" "length k \<le> 64" "plain v" "length v \<le> 256" using assms(5) by (simp_all add: line_ok_def)
  then show "parse key0 value0 (config_text ls @ k @ equals_sign # v @ 0 # rest) opts = config_result (apply_lines ls opts)"
    by (intro parse_config [OF assms(1-4)]) (simp add: key_run value_chars)
qed

theorem parse_follows_lines_witness:
  "parse (replicate 65 1) (replicate 257 1) (lit (''boot_binary=/a'' @ [CHR 0x0A] @ ''nope=1'' @ [CHR 0x0A]))
     \<lparr>boot_binary = replicate 257 1, load_offset = 7\<rparr>
   = Inr (PARSER_UNRECOGNIZED_KEY, \<lparr>boot_binary = map of_char ''/a'' @ 0 # replicate 254 1, load_offset = 7\<rparr>)"
proof -
  let ?ls = "[(map of_char ''boot_binary'', map of_char ''/a''), (map of_char ''nope'', map of_char ''1'')] :: (u8 list \<times> u8 list) list"
  have ok: "list_all line_ok ?ls" "line_ok ([], [])" by (simp_all add: line_ok_def plain_def)
  have "lit (''boot_binary=/a'' @ [CHR 0x0A] @ ''nope=1'' @ [CHR 0x0A]) = config_text ?ls @ 0 # []"
    by (simp add: lit_def)
  then show ?thesis
    using parse_follows_lines [OF ok(1) _ _ _ ok(2), of "replicate 65 1" "replicate 257 1"
        "\<lparr>boot_binary = replicate 257 1, load_offset = 7\<rparr>" "[]"]
    by (simp add: apply_option_def config_result_def drop_replicate)
qed

lemma itoa_text_plain: "0 \<le> v \<Longrightarrow> plain (itoa_text 16 v)"
proof -
  have digits: "plain (map (\<lambda>d. alphabet ! nat d) ds)" if "\<forall>d \<in> set ds. 0 \<le> d \<and> d < 16" for ds :: "int list"
  proof -
    have "c \<notin> (\<lambda>d. alphabet ! nat d) ` set ds" if "c \<notin> set (take 16 alphabet)" for c
    proof
      assume "c \<in> (\<lambda>d. alphabet ! nat d) ` set ds"
      then obtain d where "d \<in> set ds" and c: "c = alphabet ! nat d" by blast
      then have "nat d < 16" using \<open>\<forall>d \<in> set ds. 0 \<le> d \<and> d < 16\<close> by (simp add: nat_less_iff)
      then have "c \<in> set (take 16 alphabet)" using c by (auto simp: in_set_conv_nth intro!: exI [of _ "nat d"])
      with that show False by simp
    qed
    then show ?thesis by (simp add: plain_def alphabet_bytes)
  qed
  assume "0 \<le> v"
  then show ?thesis
    using digits [of "rev (lsd 16 v)"] lsd_digits [of _ 16 v]
    by (auto simp: itoa_text_def plain_def)
qed

text \<open>
  C21. Options survive being written out and parsed again: for every path of 1 to 256 plain
  characters and every load offset an \<open>int\<close> can hold that is not negative, \<open>itoa\<close> prints the
  offset in hexadecimal into any array of nine characters or more, and the parser, given a text
  with the path and the contents of that array, returns success with exactly that path and
  that offset.
\<close>

theorem options_roundtrip:
  assumes "plain path" and "path \<noteq> []" and "length path \<le> 256" and "0 \<le> v" and "v < 2 ^ 31" and "9 \<le> length str"
    and "length key0 = 65" and "length value0 = 257" and "length (boot_binary opts) = 257"
  shows "\<exists>buf opts'. itoa v (Some str) 16 = Inr (Some buf)
    \<and> parse key0 value0
      (config_text [(map of_char ''boot_binary'', path), (map of_char ''load_offset'', map of_char ''0x'' @ cstr buf)] @ [0])
      opts = Inr (PARSER_SUCCESS, opts')
    \<and> cstr (boot_binary opts') = path \<and> load_offset opts' = of_int v"
proof -
  let ?t = "itoa_text 16 v" and ?ls = "[(map of_char ''boot_binary'', path), (map of_char ''load_offset'', map of_char ''0x'' @ itoa_text 16 v)]"
  have t: "plain ?t" "0 \<notin> set ?t" using itoa_text_plain [OF assms(4)] by (simp_all add: plain_def)
  have len: "length ?t \<le> 8" and ne: "?t \<noteq> []"
    using lsd_length [of v 16 8] lsd_nonempty [of v 16] assms(4,5) by (auto simp: itoa_text_def)
  let ?buf = "?t @ 0 # drop (Suc (length ?t)) str"
  have it: "itoa v (Some str) 16 = Inr (Some ?buf)"
    using itoa_writes [where v = v and base = 16 and str = str] assms(4-6) len by simp
  have buf: "cstr ?buf = ?t" using t(2) by (rule cstr_append)
  have ok: "list_all line_ok ?ls" using t len assms(1,3) by (auto simp: line_ok_def plain_def)
  have "atoi (?t @ [0]) 16 = Inr (True, of_int v)"
    using atoi_itoa_text [OF assms(4,5), of 16 "[]"] by (simp add: atoi_def)
  then have num: "number_of (map of_char ''0x'' @ ?t) = Inr (True, of_int v)"
    using ne by (simp add: number_of_def)
  have path: "0 \<notin> set path" using assms(1) by (simp add: plain_def)
  let ?bin = "path @ 0 # drop (Suc (length path)) (boot_binary opts)"
  have "apply_lines ?ls opts = (None, opts\<lparr>boot_binary := ?bin, load_offset := of_int v\<rparr>)"
    using num by (simp add: apply_option_def)
  moreover have "cstr ?bin = path" using path by (rule cstr_append)
  moreover have "terminated ?bin" by (simp add: terminated_def)
  ultimately have "parse key0 value0 (config_text ?ls @ [0]) opts
      = Inr (PARSER_SUCCESS, opts\<lparr>boot_binary := ?bin, load_offset := of_int v\<rparr>)"
    using parse_config [OF ok assms(7-9), of "[0]"] assms(2) by (simp add: config_result_def finish_def del: config_text.simps)
  with \<open>cstr ?bin = path\<close> show ?thesis
    by (intro exI [of _ ?buf] exI [of _ "opts\<lparr>boot_binary := ?bin, load_offset := of_int v\<rparr>"])
      (simp add: it buf del: config_text.simps)
qed

theorem options_roundtrip_witness:
  "\<exists>buf opts'. itoa 0x100000 (Some (replicate 9 7)) 16 = Inr (Some buf) \<and> parse (replicate 65 9) (replicate 257 9)
      (config_text [(map of_char ''boot_binary'', map of_char ''/boot/test.elf''),
        (map of_char ''load_offset'', map of_char ''0x'' @ cstr buf)] @ [0])
      \<lparr>boot_binary = replicate 257 9, load_offset = 9\<rparr> = Inr (PARSER_SUCCESS, opts')
    \<and> cstr (boot_binary opts') = map of_char ''/boot/test.elf'' \<and> load_offset opts' = 0x100000"
  using options_roundtrip [of "map of_char ''/boot/test.elf''" "0x100000" "replicate 9 7" "replicate 65 9" "replicate 257 9"
      "\<lparr>boot_binary = replicate 257 9, load_offset = 9\<rparr>"]
  by (simp add: plain_def del: config_text.simps)

text \<open>
  C20. On any text and any content of the local arrays, options the parser returns have a path
  array of 257 bytes; and when it reports success, the array holds a string that is ended by a
  zero inside it and is not empty.
\<close>

theorem parsed_options_typed:
  assumes "length (boot_binary opts) = 257" and "parse key0 value0 text opts = Inr (r, opts')"
  shows "length (boot_binary opts') = 257
    \<and> (r = PARSER_SUCCESS \<longrightarrow> terminated (boot_binary opts') \<and> cstr (boot_binary opts') \<noteq> [] \<and> length (cstr (boot_binary opts')) \<le> 256)"
proof -
  from assms(2) obtain key "value" early opts1 where loop: "parse_loop text 0 True key value opts = Inr (early, opts1)"
    and rest: "(case early of Some e \<Rightarrow> Inr (e, opts1) | None \<Rightarrow> rbind (strlen (boot_binary opts1)) (\<lambda>n.
      Inr (if n = 0 then PARSER_MISSING_KEY else PARSER_SUCCESS, opts1))) = Inr (r, opts')"
    unfolding parse_def rbind_eq_Inr_iff by auto
  have len: "length (boot_binary opts1) = 257" "early \<noteq> Some PARSER_SUCCESS"
    using parse_loop_length [OF loop assms(1)] by simp_all
  note rest = rest [unfolded finish_strlen [OF len(1)]]
  have "length (cstr (boot_binary opts1)) \<le> 256" if "terminated (boot_binary opts1)"
  proof -
    have "cstr (boot_binary opts1) \<noteq> boot_binary opts1"
      using that by (auto simp: cstr_def terminated_def takeWhile_eq_all_conv)
    then have "\<not> length (boot_binary opts1) \<le> length (cstr (boot_binary opts1))"
      unfolding cstr_def by (metis takeWhile_eq_take take_all)
    with len(1) show ?thesis by simp
  qed
  with len rest show ?thesis by (auto simp: finish_def split: option.splits if_splits)
qed

theorem parsed_options_typed_witness:
  "\<exists>r opts'. parse (replicate 65 7) (replicate 257 7) (map of_char ''boot_binary=/k'' @ [newline, 0])
      \<lparr>boot_binary = replicate 257 1, load_offset = 0\<rparr> = Inr (r, opts') \<and> length (boot_binary opts') = 257"
proof -
  let ?ls = "[(map of_char ''boot_binary'', map of_char ''/k'')] :: (u8 list \<times> u8 list) list"
  let ?opts = "\<lparr>boot_binary = replicate 257 1, load_offset = 0\<rparr> :: boot_options_t"
  have "parse (replicate 65 7) (replicate 257 7) (config_text ?ls @ [0]) ?opts = config_result (apply_lines ?ls ?opts)"
    by (rule parse_config) (simp_all add: line_ok_def plain_def)
  then obtain r opts' where run: "parse (replicate 65 7) (replicate 257 7) (map of_char ''boot_binary=/k'' @ [newline, 0]) ?opts = Inr (r, opts')"
    by (simp add: apply_option_def config_result_def finish_def terminated_def)
  then show ?thesis using parsed_options_typed [of ?opts, OF _ run] by auto
qed

text \<open>
  C33. The limits are off by one: a key of 65 characters is taken into the 65-byte array in
  full and its terminator is written behind it, and so is the terminator of a value of 257
  characters. One character more is caught by the check.
\<close>

theorem limits_off_by_one:
  assumes "plain k" and "length k = 65" and "plain k'" and "length k' \<le> 64" and "plain v" and "length v = 257"
    and "plain [c]" and "length key0 = 65" and "length value0 = 257"
  shows "parse key0 value0 (k @ equals_sign # t) opts = Inl Out_Of_Bounds
    \<and> parse key0 value0 (k' @ equals_sign # v @ newline # t) opts = Inl Out_Of_Bounds
    \<and> parse key0 value0 (k @ c # t) opts = Inr (PARSER_UNRECOGNIZED_KEY, opts)
    \<and> parse key0 value0 (k' @ equals_sign # v @ c # t) opts = Inr (PARSER_VALUE_TOO_LONG, opts)"
  using assms key_chars [OF assms(1), of 0 "key0[0 := 0]"] key_run [OF assms(3,4), of "key0[0 := 0]"]
    value_chars [OF assms(5), of 0 "value0[0 := 0]"]
  by (simp add: parse_def length_overwrite plain_def)

theorem limits_off_by_one_witness:
  "parse (replicate 65 0) (replicate 257 0) (replicate 65 97 @ equals_sign # [0]) \<lparr>boot_binary = replicate 257 0, load_offset = 0\<rparr>
    = Inl Out_Of_Bounds"
  using limits_off_by_one [of "replicate 65 97" "[]" "replicate 257 97" 97 "replicate 65 0" "replicate 257 0" "[0]"
      "\<lparr>boot_binary = replicate 257 0, load_offset = 0\<rparr>"]
  by (simp add: plain_def)

lemma parse_loop_config:
  assumes "list_all line_ok ls" and "length key = 65" and "length value = 257" and "length (boot_binary opts) = 257"
  shows "parse_loop (config_text ls @ [0]) 0 True key value opts = Inr (apply_lines ls opts)"
  using parse_loop_lines [OF assms, of "[0]"] by (cases "apply_lines ls opts") (auto split: option.splits)

lemma apply_lines_append:
  "apply_lines (ls @ ls') opts = (case apply_lines ls opts of
     (Some r, opts') \<Rightarrow> (Some r, opts') | (None, opts') \<Rightarrow> apply_lines ls' opts')"
  by (induction ls arbitrary: opts) (auto split: prod.split)

text \<open>A blank line behind others: the key array still holds the last key, the value array is emptied.\<close>

lemma blank_line_step:
  assumes "plain k" and "length k \<le> 64" and "length value = 257" and "length (boot_binary opts) = 257"
  shows "parse_loop (newline # t) 0 True (k @ 0 # r) value opts =
    (case apply_option k [] opts of (r', opts') \<Rightarrow>
      if r' \<noteq> PARSER_SUCCESS then Inr (Some r', opts')
      else parse_loop t 0 True (k @ 0 # r) (value[0 := 0]) opts')"
proof -
  have "value[0 := 0] = [] @ 0 # drop 1 value" using assms(3) by (cases "value") simp_all
  then have "update_options (k @ 0 # r) (value[0 := 0]) opts = Inr (apply_option k [] opts)"
    using update_options_apply [of k "[]" opts r "drop 1 value"] assms by (simp add: plain_def)
  with assms(3) show ?thesis by (simp split: prod.split)
qed

lemma parse_blank_line:
  assumes "list_all line_ok ls" and "ls \<noteq> []" and "list_all line_ok ls'"
    and "length key0 = 65" and "length value0 = 257" and "length (boot_binary opts) = 257"
  shows "parse key0 value0 (config_text ls @ newline # config_text ls' @ [0]) opts
    = config_result (apply_lines (ls @ (fst (last ls), []) # ls') opts)"
proof -
  let ?k = "fst (last ls)"
  have last: "line_ok (last ls)" using assms(1,2) by (simp add: list_all_iff)
  then have k: "plain ?k" "length ?k \<le> 64" by (simp_all add: line_ok_def)
  obtain key "value" r where len: "length key = 65" "length value = 257" and key: "key = ?k @ 0 # r"
    and len1: "length (boot_binary (snd (apply_lines ls opts))) = 257"
    and run: "parse key0 value0 (config_text ls @ newline # config_text ls' @ [0]) opts =
      rbind (case apply_lines ls opts of
          (Some r, opts') \<Rightarrow> Inr (Some r, opts')
        | (None, opts') \<Rightarrow> parse_loop (newline # config_text ls' @ [0]) 0 True key value opts')
        (\<lambda>(early, opts). case early of Some r \<Rightarrow> Inr (r, opts)
          | None \<Rightarrow> rbind (strlen (boot_binary opts)) (\<lambda>n.
              Inr (if n = 0 then PARSER_MISSING_KEY else PARSER_SUCCESS, opts)))"
    using parse_lines [OF assms(1,4-6), of "newline # config_text ls' @ [0]"] assms(2) by blast
  show ?thesis
  proof (cases "apply_lines ls opts")
    case (Pair early opts1)
    show ?thesis
    proof (cases early)
      case (Some e)
      then show ?thesis by (simp add: run Pair apply_lines_append config_result_def)
    next
      case None
      obtain r2 opts2 where ap: "apply_option ?k [] opts1 = (r2, opts2)" by (cases "apply_option ?k [] opts1")
      have b1: "length (boot_binary opts1) = 257" using len1 Pair by simp
      have b2: "length (boot_binary opts2) = 257" using apply_option_length [OF ap _ b1] by simp
      have "parse_loop (newline # config_text ls' @ [0]) 0 True key value opts1 = Inr (apply_lines ((?k, []) # ls') opts1)"
        using blank_line_step [OF k len(2) b1, of "config_text ls' @ [0]" r, folded key]
          parse_loop_config [OF assms(3) len(1) _ b2, of "value[0 := 0]"] len(2)
        by (simp add: ap del: parse_loop.simps)
      moreover have "length (boot_binary (snd (apply_lines ((?k, []) # ls') opts1))) = 257"
        using parse_loop_lines [OF assms(3) len(1,2) b2] b2 by (auto simp: ap)
      ultimately show ?thesis
        by (cases "apply_lines ((?k, []) # ls') opts1"; cases "fst (apply_lines ((?k, []) # ls') opts1)")
          (simp_all add: run Pair None apply_lines_append config_result_def finish_strlen
            del: parse_loop.simps apply_lines.simps)
    qed
  qed
qed

text \<open>
  C34. A blank line is not skipped: between any lines before it (at least one) and after it, the
  parser does exactly what it would do if a line with the key of the line before and an empty
  value stood there. So a blank line behind the one that names the boot binary, as at the end
  of a file, takes the name back, and the parser reports a missing key.
\<close>

theorem blank_line_repeats_key:
  assumes "list_all line_ok ls" and "ls \<noteq> []" and "list_all line_ok ls'"
    and "length key0 = 65" and "length value0 = 257" and "length (boot_binary opts) = 257"
  shows "parse key0 value0 (config_text ls @ newline # config_text ls' @ [0]) opts
      = config_result (apply_lines (ls @ (fst (last ls), []) # ls') opts)
    \<and> parse key0 value0 (config_text ls @ newline # config_text ls' @ [0]) opts
      = parse key0 value0 (config_text (ls @ (fst (last ls), []) # ls') @ [0]) opts
    \<and> (ls' = [] \<and> fst (last ls) = map of_char ''boot_binary'' \<and> fst (apply_lines ls opts) = None \<longrightarrow>
      (\<exists>opts'. parse key0 value0 (config_text ls @ [newline, 0]) opts = Inr (PARSER_MISSING_KEY, opts')
        \<and> cstr (boot_binary opts') = []))"
proof (intro conjI impI)
  let ?k = "fst (last ls)" and ?all = "ls @ (fst (last ls), []) # ls'"
  have k: "plain ?k" "length ?k \<le> 64" using assms(1,2) by (simp_all add: list_all_iff line_ok_def)
  show res: "parse key0 value0 (config_text ls @ newline # config_text ls' @ [0]) opts = config_result (apply_lines ?all opts)"
    by (rule parse_blank_line [OF assms])
  have "list_all line_ok ?all" using assms(1,3) k by (simp add: line_ok_def plain_def)
  then have "parse key0 value0 (config_text ?all @ [0]) opts = config_result (apply_lines ?all opts)"
    by (rule parse_config [OF _ assms(4-6)]) simp
  with res show "parse key0 value0 (config_text ls @ newline # config_text ls' @ [0]) opts
      = parse key0 value0 (config_text ?all @ [0]) opts" by simp
  assume c: "ls' = [] \<and> ?k = map of_char ''boot_binary'' \<and> fst (apply_lines ls opts) = None"
  let ?opts1 = "snd (apply_lines ls opts)"
  have "apply_lines ?all opts = (None, ?opts1\<lparr>boot_binary := 0 # drop 1 (boot_binary ?opts1)\<rparr>)"
    using c by (cases "apply_lines ls opts") (simp add: apply_lines_append apply_option_def)
  then show "\<exists>opts'. parse key0 value0 (config_text ls @ [newline, 0]) opts = Inr (PARSER_MISSING_KEY, opts')
      \<and> cstr (boot_binary opts') = []"
    using res c by (simp add: config_result_def finish_def terminated_def cstr_def)
qed

theorem blank_line_repeats_key_witness:
  "parse (replicate 65 9) (replicate 257 9) (lit (''boot_binary=/a'' @ [CHR 0x0A, CHR 0x0A] @ ''load_offset=7'' @ [CHR 0x0A]))
      \<lparr>boot_binary = replicate 257 9, load_offset = 0\<rparr>
    = Inr (PARSER_MISSING_KEY, \<lparr>boot_binary = 0 # of_char CHR ''a'' # 0 # replicate 254 9, load_offset = 7\<rparr>)"
proof -
  let ?ls = "[(map of_char ''boot_binary'', map of_char ''/a'')] :: (u8 list \<times> u8 list) list"
  let ?ls' = "[(map of_char ''load_offset'', map of_char ''7'')] :: (u8 list \<times> u8 list) list"
  have ok: "list_all line_ok ?ls" "list_all line_ok ?ls'" by (simp_all add: line_ok_def plain_def)
  have num: "number_of (map of_char ''7'') = Inr (True, 7)"
    by (simp add: number_of_def atoi_def Let_def find_in_alphabet_def find_from.simps alphabet_bytes toupper_def)
  have "lit (''boot_binary=/a'' @ [CHR 0x0A, CHR 0x0A] @ ''load_offset=7'' @ [CHR 0x0A])
      = config_text ?ls @ newline # config_text ?ls' @ [0]" by (simp add: lit_def)
  then show ?thesis
    using blank_line_repeats_key [OF ok(1) _ ok(2), of "replicate 65 9" "replicate 257 9"
        "\<lparr>boot_binary = replicate 257 9, load_offset = 0\<rparr>"] num
    by (simp add: apply_option_def config_result_def finish_def terminated_def cstr_def
        drop_replicate del: config_text.simps)
qed

end
