(* ===== verification/Mem.thy ===== *)
theory Mem
  imports Machine
begin

text \<open>
  \<^verbatim>\<open>stage1/mem.c\<close>: the string-instruction block operations and the two downward-growing
  stacks. Each \<^verbatim>\<open>rep\<close> instruction is a recursion over its count in \<open>ecx\<close> that carries
  \<open>esi\<close>, \<open>edi\<close> and the memory. The lemmas show that the double-word-then-byte code is a
  plain byte copy, fill or comparison, and that the two stacks stay inside their areas. The
  locale \<open>stack_allocator\<close> states what the users of \<open>push\<close> and \<open>pop\<close> rely on.
\<close>

section \<open>Block operations\<close>

fun rep_stosl :: "nat \<Rightarrow> u32 \<Rightarrow> u32 \<times> memory \<Rightarrow> u32 \<times> memory" where
  "rep_stosl 0 eax (edi, m) = (edi, m)"
| "rep_stosl (Suc ecx) eax (edi, m) = rep_stosl ecx eax (edi + 4, store32 edi eax m)"

fun rep_stosb :: "nat \<Rightarrow> u32 \<Rightarrow> u32 \<times> memory \<Rightarrow> u32 \<times> memory" where
  "rep_stosb 0 eax (edi, m) = (edi, m)"
| "rep_stosb (Suc ecx) eax (edi, m) = rep_stosb ecx eax (edi + 1, m(edi := ucast eax))"

definition memset_mem :: "u32 \<Rightarrow> u8 \<Rightarrow> u32 \<Rightarrow> memory \<Rightarrow> memory" where
  "memset_mem dst b n m =
     (let val = ucast b * 0x01010101
      in snd (rep_stosb (unat (n mod 4)) val (rep_stosl (unat (n div 4)) val (dst, m))))"

definition memset :: "u32 \<Rightarrow> u8 \<Rightarrow> u32 \<Rightarrow> ('e machine, u32) cmd" where
  "memset dst b n = bind (modify (\<lambda>s. s\<lparr>mem := memset_mem dst b n (mem s)\<rparr>)) (\<lambda>_. ret dst)"

fun rep_movsl :: "nat \<Rightarrow> u32 \<times> u32 \<times> memory \<Rightarrow> u32 \<times> u32 \<times> memory" where
  "rep_movsl 0 (esi, edi, m) = (esi, edi, m)"
| "rep_movsl (Suc ecx) (esi, edi, m) =
     rep_movsl ecx (esi + 4, edi + 4, store32 edi (load32 m esi) m)"

fun rep_movsb :: "nat \<Rightarrow> u32 \<times> u32 \<times> memory \<Rightarrow> u32 \<times> u32 \<times> memory" where
  "rep_movsb 0 (esi, edi, m) = (esi, edi, m)"
| "rep_movsb (Suc ecx) (esi, edi, m) = rep_movsb ecx (esi + 1, edi + 1, m(edi := m esi))"

definition memcpy_mem :: "u32 \<Rightarrow> u32 \<Rightarrow> u32 \<Rightarrow> memory \<Rightarrow> memory" where
  "memcpy_mem dst src n m =
     snd (snd (rep_movsb (unat (n mod 4)) (rep_movsl (unat (n div 4)) (src, dst, m))))"

definition memcpy :: "u32 \<Rightarrow> u32 \<Rightarrow> u32 \<Rightarrow> ('e machine, u32) cmd" where
  "memcpy dst src n = bind (modify (\<lambda>s. s\<lparr>mem := memcpy_mem dst src n (mem s)\<rparr>)) (\<lambda>_. ret dst)"

text \<open>
  \<^verbatim>\<open>repe cmpsl\<close>: compare, advance, go on while equal. The \<open>xor eax, eax\<close> before it leaves
  the zero flag set, which is the outcome for a count of zero.
\<close>

fun repe_cmpsl :: "nat \<Rightarrow> memory \<Rightarrow> bool \<times> u32 \<times> u32 \<Rightarrow> bool \<times> u32 \<times> u32" where
  "repe_cmpsl 0 m (zf, esi, edi) = (zf, esi, edi)"
| "repe_cmpsl (Suc ecx) m (zf, esi, edi) =
     (if load32 m esi = load32 m edi then repe_cmpsl ecx m (True, esi + 4, edi + 4)
      else (False, esi + 4, edi + 4))"

fun cmp_tail :: "nat \<Rightarrow> memory \<Rightarrow> u32 \<Rightarrow> u32 \<Rightarrow> bool" where
  "cmp_tail 0 m s1 s2 = True"
| "cmp_tail (Suc remaining) m s1 s2 =
     (if m s1 \<noteq> m s2 then False else cmp_tail remaining m (s1 + 1) (s2 + 1))"

definition memeq :: "memory \<Rightarrow> u32 \<Rightarrow> u32 \<Rightarrow> u32 \<Rightarrow> bool" where
  "memeq m p1 p2 n =
     (case repe_cmpsl (unat (n div 4)) m (True, p1, p2) of (equal, addr1, addr2) \<Rightarrow>
       if \<not> equal then False else cmp_tail (unat (n mod 4)) m addr1 addr2)"

section \<open>The two stacks\<close>

definition push :: "u32 \<Rightarrow> ('e machine, u32) cmd" where
  "push n = bind (gets ext_stack_top) (\<lambda>top.
     if top - EXTENDED_STACK_LIMIT < n then panic ''Overgrown extended stack''
     else bind (modify (\<lambda>s. s\<lparr>ext_stack_top := top - n\<rparr>)) (\<lambda>_. gets ext_stack_top))"

definition static_alloc :: "u32 \<Rightarrow> ('e machine, u32) cmd" where
  "static_alloc n = bind (gets static_stack_top) (\<lambda>top.
     if top - STATIC_STACK_LIMIT < n then panic ''Overgrown static allocations stack''
     else bind (modify (\<lambda>s. s\<lparr>static_stack_top := top - n\<rparr>)) (\<lambda>_. gets static_stack_top))"

definition pop :: "u32 \<Rightarrow> ('e machine, unit) cmd" where
  "pop n = bind (gets ext_stack_top) (\<lambda>top.
     if EXTENDED_STACK_BASE - top < n then panic ''Stack overflow''
     else modify (\<lambda>s. s\<lparr>ext_stack_top := top + n\<rparr>))"

text \<open>The state when \<open>main\<close> is called: both stacks empty, no region node, nothing printed.\<close>

definition boot_state :: "memory \<Rightarrow> 'e \<Rightarrow> 'e machine" where
  "boot_state m e = \<lparr>mem = m, ext_stack_top = EXTENDED_STACK_BASE,
     static_stack_top = STATIC_STACK_BASE, region_heap = (\<lambda>_. None), int10_log = [], bios_env = e\<rparr>"

section \<open>Block operations, byte by byte\<close>

text \<open>Four bytes at once are the four bytes one after the other, when nothing overlaps.\<close>

definition separate :: "u32 \<Rightarrow> u32 \<Rightarrow> nat \<Rightarrow> bool" where
  "separate a b n \<longleftrightarrow> (\<forall>i<n. \<forall>j<n. a + of_nat i \<noteq> b + of_nat j)"

lemma separate_mono: "separate a b n \<Longrightarrow> k \<le> n \<Longrightarrow> separate a b k"
  by (auto simp: separate_def)

lemma separate_shift:
  assumes "separate a b (k + n)"
  shows "separate (a + of_nat k) (b + of_nat k) n"
  unfolding separate_def
proof (intro allI impI)
  fix i j assume "i < n" and "j < n"
  then have "k + i < k + n" and "k + j < k + n" by simp_all
  with assms have "a + of_nat (k + i) \<noteq> b + of_nat (k + j)"
    unfolding separate_def by blast
  then show "a + of_nat k + of_nat i \<noteq> b + of_nat k + of_nat j"
    by (simp add: add.assoc)
qed

lemma separate_ne:
  assumes "separate a b n" and "i < n" and "j < n"
  shows "a + of_nat i \<noteq> b + of_nat j"
  using assms by (simp add: separate_def)

lemma rep_movsb_add: "rep_movsb (k + l) r = rep_movsb l (rep_movsb k r)"
  by (induction k r rule: rep_movsb.induct) simp_all

lemma rep_movsl_step:
  assumes "separate src dst 4"
  shows "rep_movsb 4 (src, dst, m) = (src + 4, dst + 4, store32 dst (load32 m src) m)"
proof -
  have ne: "src \<noteq> dst" "src + 1 \<noteq> dst" "src + 2 \<noteq> dst" "src + 3 \<noteq> dst"
    "src + 2 \<noteq> dst + 1" "src + 3 \<noteq> dst + 1" "src + 3 \<noteq> dst + 2"
    using separate_ne [OF assms, of 0 0] separate_ne [OF assms, of 1 0] separate_ne [OF assms, of 2 0]
      separate_ne [OF assms, of 3 0] separate_ne [OF assms, of 2 1] separate_ne [OF assms, of 3 1]
      separate_ne [OF assms, of 3 2] by simp_all
  have "src + 1 \<noteq> dst + 1" "src + 1 + 1 \<noteq> dst + 1" using ne by simp_all
  with ne show ?thesis
    by (simp add: numeral_eq_Suc store32_load32 add.assoc)
qed

lemma rep_movsl_movsb:
  "separate src dst (4 * k) \<Longrightarrow> rep_movsl k (src, dst, m) = rep_movsb (4 * k) (src, dst, m)"
proof (induction k arbitrary: src dst m)
  case 0
  then show ?case by simp
next
  case (Suc k)
  have s4: "separate src dst 4" and sk: "separate (src + 4) (dst + 4) (4 * k)"
    using separate_mono [OF Suc.prems, of 4] separate_shift [of src dst 4 "4 * k"] Suc.prems
    by simp_all
  have "rep_movsl (Suc k) (src, dst, m)
      = rep_movsb (4 * k) (src + 4, dst + 4, store32 dst (load32 m src) m)"
    by (simp add: Suc.IH [OF sk])
  also have "\<dots> = rep_movsb (4 + 4 * k) (src, dst, m)"
    by (simp only: rep_movsb_add rep_movsl_step [OF s4])
  finally show ?case by simp
qed

lemma blit_Suc_left:
  assumes "n < 2 ^ 32"
  shows "blit a (Suc n) f m = blit (a + 1) n (\<lambda>i. f (Suc i)) (m(a := f 0))"
proof
  fix x
  show "blit a (Suc n) f m x = blit (a + 1) n (\<lambda>i. f (Suc i)) (m(a := f 0)) x"
  proof (cases "x = a")
    case True
    have "unat (a - (a + 1)) = 2 ^ 32 - 1"
      by (simp add: unsigned_minus_1_eq_mask mask_eq_exp_minus_1)
    with True assms show ?thesis by (simp add: blit_def)
  next
    case False
    then have "x - a \<noteq> 0" by simp
    then have suc: "unat (x - a) = Suc (unat (x - a - 1))"
      by (simp add: unat_minus_one unat_gt_0 Suc_diff_Suc)
    have eq: "x - (a + 1) = x - a - 1" by simp
    show ?thesis unfolding blit_def eq suc using False by simp
  qed
qed

lemma rep_movsb_blit:
  "separate src dst k \<Longrightarrow> k < 2 ^ 32 \<Longrightarrow>
   rep_movsb k (src, dst, m) = (src + of_nat k, dst + of_nat k, blit dst k (\<lambda>i. m (src + of_nat i)) m)"
proof (induction k arbitrary: src dst m)
  case 0
  then show ?case by simp
next
  case (Suc k)
  have sep: "separate (src + 1) (dst + 1) k"
    using separate_shift [of src dst 1 k] Suc.prems(1) by simp
  have "src + of_nat (Suc i) \<noteq> dst" if "i < k" for i
    using separate_ne [OF Suc.prems(1), of "Suc i" 0] that by simp
  then have "blit (dst + 1) k (\<lambda>i. (m(dst := m src)) (src + 1 + of_nat i)) (m(dst := m src))
      = blit (dst + 1) k (\<lambda>i. m (src + of_nat (Suc i))) (m(dst := m src))"
    by (intro blit_cong) (simp add: add.assoc)
  also have "\<dots> = blit dst (Suc k) (\<lambda>i. m (src + of_nat i)) m"
    using Suc.prems(2) by (subst blit_Suc_left) simp_all
  finally have "blit (dst + 1) k (\<lambda>i. (m(dst := m src)) (src + 1 + of_nat i)) (m(dst := m src))
      = blit dst (Suc k) (\<lambda>i. m (src + of_nat i)) m" .
  with Suc.IH [OF sep] Suc.prems(2) show ?case
    by (simp add: add.assoc)
qed

lemma unat_div_mod_4: "unat (n mod 4) + 4 * unat (n div 4) = unat (n :: u32)"
  by (simp add: unat_div unat_mod)

lemma memcpy_mem_blit:
  assumes "separate src dst (unat n)"
  shows "memcpy_mem dst src n m = blit dst (unat n) (\<lambda>i. m (src + of_nat i)) m"
proof -
  have n: "4 * unat (n div 4) + unat (n mod 4) = unat n"
    using unat_div_mod_4 [of n] by simp
  have "rep_movsl (unat (n div 4)) (src, dst, m) = rep_movsb (4 * unat (n div 4)) (src, dst, m)"
    using n by (intro rep_movsl_movsb separate_mono [OF assms]) simp
  then have "memcpy_mem dst src n m = snd (snd (rep_movsb (unat n) (src, dst, m)))"
    by (simp only: memcpy_mem_def flip: rep_movsb_add) (simp only: n)
  also have "\<dots> = blit dst (unat n) (\<lambda>i. m (src + of_nat i)) m"
    using unsigned_less [of n] by (subst rep_movsb_blit [OF assms]) simp_all
  finally show ?thesis .
qed

lemma replicated_byte: "ucast b * 0x01010101 = load32 (\<lambda>_. b) a"
  by (simp add: load32_def)

lemma rep_stosb_add: "rep_stosb (k + l) v r = rep_stosb l v (rep_stosb k v r)"
  by (induction k v r rule: rep_stosb.induct) simp_all

lemma rep_stosl_stosb:
  "v = load32 (\<lambda>_. b) 0 \<Longrightarrow> rep_stosl k v (dst, m) = rep_stosb (4 * k) v (dst, m)"
proof (induction k arbitrary: dst m)
  case 0
  then show ?case by simp
next
  case (Suc k)
  have "rep_stosb 4 v (dst, m) = (dst + 4, store32 dst v m)"
    by (simp add: numeral_eq_Suc Suc.prems store32_load32 load32_bytes add.assoc)
  with Suc show ?case
    by (simp only: rep_stosl.simps mult_Suc_right rep_stosb_add)
qed

lemma rep_stosb_blit:
  "k < 2 ^ 32 \<Longrightarrow> rep_stosb k v (dst, m) = (dst + of_nat k, blit dst k (\<lambda>_. ucast v) m)"
  by (induction k arbitrary: dst m) (simp_all add: blit_Suc_left add.assoc)

lemma memset_mem_blit: "memset_mem dst b n m = blit dst (unat n) (\<lambda>_. b) m"
proof -
  let ?v = "ucast b * 0x01010101 :: u32"
  have n: "4 * unat (n div 4) + unat (n mod 4) = unat n"
    using unat_div_mod_4 [of n] by simp
  have "memset_mem dst b n m = snd (rep_stosb (unat n) ?v (dst, m))"
    unfolding memset_mem_def Let_def
    by (simp only: rep_stosl_stosb [OF replicated_byte] n flip: rep_stosb_add)
  also have "\<dots> = blit dst (unat n) (\<lambda>_. b) m"
  proof -
    have "ucast ?v = b" by (simp only: replicated_byte [of b 0] load32_bytes)
    with unsigned_less [of n] show ?thesis by (subst rep_stosb_blit) simp_all
  qed
  finally show ?thesis .
qed

lemma repe_cmpsl_iff:
  "(case repe_cmpsl k m (True, a, b) of (eq, a', b') \<Rightarrow> (eq \<longleftrightarrow> (\<forall>i < 4 * k. m (a + of_nat i) = m (b + of_nat i)))
     \<and> (eq \<longrightarrow> a' = a + of_nat (4 * k) \<and> b' = b + of_nat (4 * k)))"
proof (induction k arbitrary: a b)
  case 0
  then show ?case by simp
next
  case (Suc k)
  have split: "(\<forall>i < 4 * Suc k. P i) \<longleftrightarrow> P 0 \<and> P 1 \<and> P 2 \<and> P 3 \<and> (\<forall>i < 4 * k. P (4 + i))" for P :: "nat \<Rightarrow> bool"
    by (simp add: numeral_eq_Suc All_less_Suc2)
  show ?case
    using Suc.IH [of "a + 4" "b + 4"]
    by (auto simp: split load32_eq_iff add.assoc simp del: mult_Suc_right split: prod.splits)
qed

lemma cmp_tail_iff: "cmp_tail k m a b \<longleftrightarrow> (\<forall>i<k. m (a + of_nat i) = m (b + of_nat i))"
  by (induction k arbitrary: a b) (auto simp: All_less_Suc2 add.assoc)

lemma all_less_add: "(\<forall>i < a + b. P i) \<longleftrightarrow> (\<forall>i < a. P i) \<and> (\<forall>i < (b :: nat). P (a + i))"
proof (safe, simp_all)
  fix i assume lo: "\<forall>i<a. P i" and hi: "\<forall>i<b. P (a + i)" and "i < a + b"
  then show "P i" by (cases "i < a") (auto dest!: spec [where x = "i - a"])
qed

text \<open>\<open>memeq\<close> compares exactly the \<open>n\<close> bytes.\<close>

lemma memeq_iff: "memeq m p1 p2 n \<longleftrightarrow> (\<forall>i < unat n. m (p1 + of_nat i) = m (p2 + of_nat i))"
proof -
  let ?k = "unat (n div 4)" and ?r = "unat (n mod 4)"
  let ?P = "\<lambda>i. m (p1 + of_nat i) = m (p2 + of_nat i)"
  have n: "unat n = 4 * ?k + ?r" using unat_div_mod_4 [of n] by simp
  have all: "(\<forall>i < unat n. ?P i) \<longleftrightarrow> (\<forall>i < 4 * ?k. ?P i) \<and> (\<forall>i < ?r. ?P (4 * ?k + i))"
    unfolding n by (rule all_less_add)
  obtain eq a' b' where run: "repe_cmpsl ?k m (True, p1, p2) = (eq, a', b')"
    by (cases "repe_cmpsl ?k m (True, p1, p2)") auto
  have "eq \<longleftrightarrow> (\<forall>i < 4 * ?k. ?P i)" and "eq \<Longrightarrow> a' = p1 + of_nat (4 * ?k) \<and> b' = p2 + of_nat (4 * ?k)"
    using repe_cmpsl_iff [of ?k m p1 p2] by (simp_all add: run)
  then show ?thesis
    unfolding all memeq_def run by (cases eq) (simp_all add: cmp_tail_iff add.assoc)
qed

section \<open>The stacks stay in their areas\<close>

definition ext_stack_ok :: "'e machine \<Rightarrow> bool" where
  "ext_stack_ok s \<longleftrightarrow> EXTENDED_STACK_LIMIT \<le> ext_stack_top s \<and> ext_stack_top s \<le> EXTENDED_STACK_BASE"

definition static_stack_ok :: "'e machine \<Rightarrow> bool" where
  "static_stack_ok s \<longleftrightarrow>
     STATIC_STACK_LIMIT \<le> static_stack_top s \<and> static_stack_top s \<le> STATIC_STACK_BASE"

text \<open>Room for \<open>n\<close> bytes more on the extended stack.\<close>

definition ext_room :: "u32 \<Rightarrow> 'e machine \<Rightarrow> bool" where
  "ext_room n s \<longleftrightarrow> n \<le> ext_stack_top s - EXTENDED_STACK_LIMIT"

definition static_room :: "u32 \<Rightarrow> 'e machine \<Rightarrow> bool" where
  "static_room n s \<longleftrightarrow> n \<le> static_stack_top s - STATIC_STACK_LIMIT"

lemma boot_state_ok: "ext_stack_ok (boot_state m e)" "static_stack_ok (boot_state m e)"
  by (simp_all add: ext_stack_ok_def static_stack_ok_def boot_state_def memory_map)

lemma push_run:
  "ext_room n s \<Longrightarrow>
   push n s = Some (Inr (ext_stack_top s - n), s\<lparr>ext_stack_top := ext_stack_top s - n\<rparr>)"
  by (simp add: push_def ext_room_def exec_bind exec flip: not_less)

lemma push_full:
  "\<not> ext_room n s \<Longrightarrow> \<exists>t. push n s = Some (Inl (Panic ''Overgrown extended stack''), t)"
  by (auto simp: push_def ext_room_def exec_bind [of "gets _"] exec not_le panic_run)

lemma push_returns:
  "push n s = Some (Inr p, t) \<Longrightarrow>
   p = ext_stack_top s - n \<and> t = s\<lparr>ext_stack_top := ext_stack_top s - n\<rparr> \<and> ext_room n s"
  by (cases "ext_room n s") (auto simp: push_run dest: push_full)

lemma static_alloc_run:
  "static_room n s \<Longrightarrow>
   static_alloc n s = Some (Inr (static_stack_top s - n), s\<lparr>static_stack_top := static_stack_top s - n\<rparr>)"
  by (simp add: static_alloc_def static_room_def exec_bind exec flip: not_less)

lemma static_alloc_full:
  "\<not> static_room n s \<Longrightarrow>
   \<exists>t. static_alloc n s = Some (Inl (Panic ''Overgrown static allocations stack''), t)"
  by (auto simp: static_alloc_def static_room_def exec_bind [of "gets _"] exec not_le panic_run)

lemma static_alloc_returns:
  "static_alloc n s = Some (Inr p, t) \<Longrightarrow>
   p = static_stack_top s - n \<and> t = s\<lparr>static_stack_top := static_stack_top s - n\<rparr> \<and> static_room n s"
  by (cases "static_room n s") (auto simp: static_alloc_run dest: static_alloc_full)

lemma pop_run:
  "n \<le> EXTENDED_STACK_BASE - ext_stack_top s \<Longrightarrow>
   pop n s = Some (Inr (), s\<lparr>ext_stack_top := ext_stack_top s + n\<rparr>)"
  by (simp add: pop_def exec_bind exec flip: not_less)

lemma pop_under:
  "EXTENDED_STACK_BASE - ext_stack_top s < n \<Longrightarrow> \<exists>t. pop n s = Some (Inl (Panic ''Stack overflow''), t)"
  by (auto simp: pop_def exec_bind [of "gets _"] exec panic_run)

lemma pop_returns:
  "pop n s = Some (Inr u, t) \<Longrightarrow> t = s\<lparr>ext_stack_top := ext_stack_top s + n\<rparr>"
  using pop_under [of s n] pop_run [of n s]
  by (cases "n \<le> EXTENDED_STACK_BASE - ext_stack_top s") (auto simp: not_le)

lemma ext_room_unat:
  "ext_stack_ok s \<Longrightarrow> ext_room n s \<longleftrightarrow> 0x40000 + unat n \<le> unat (ext_stack_top s)"
  unfolding ext_stack_ok_def ext_room_def memory_map
  by (auto simp: word_le_nat_alt unat_sub)

lemma push_keeps_ok:
  "ext_stack_ok s \<Longrightarrow> ext_room n s \<Longrightarrow> ext_stack_ok (s\<lparr>ext_stack_top := ext_stack_top s - n\<rparr>)"
  using ext_room_unat [of s n]
  unfolding ext_stack_ok_def memory_map
  by (auto simp: word_le_nat_alt unat_sub)

lemma pop_after_push:
  assumes "ext_stack_ok s" and "ext_room n s" and "ext_stack_top t = ext_stack_top s - n"
  shows "pop n t = Some (Inr (), t\<lparr>ext_stack_top := ext_stack_top s\<rparr>)"
proof -
  have "n \<le> EXTENDED_STACK_BASE - ext_stack_top t"
    using assms ext_room_unat [of s n]
    unfolding ext_stack_ok_def memory_map
    by (auto simp: word_le_nat_alt unat_sub)
  with assms(3) show ?thesis by (simp add: pop_run)
qed

section \<open>Only scratch memory\<close>

text \<open>
  What a function that works in blocks of the extended stack may leave changed when it has
  given them back: the BIOS's state, and the \<open>n\<close> bytes below the stack top.
\<close>

definition only_scratch :: "nat \<Rightarrow> 'e machine \<Rightarrow> 'e machine \<Rightarrow> bool" where
  "only_scratch n s t \<longleftrightarrow> (\<exists>e m. t = s\<lparr>bios_env := e, mem := m\<rparr>
     \<and> (\<forall>x. \<not> (unat x < unat (ext_stack_top s) \<and> unat (ext_stack_top s) \<le> unat x + n) \<longrightarrow> m x = mem s x))"

lemma only_scratch_refl [simp]: "only_scratch n s s"
  unfolding only_scratch_def by (rule exI [of _ "bios_env s"], rule exI [of _ "mem s"]) simp

lemma only_scratch_trans:
  assumes "only_scratch n s t" and "only_scratch n t u"
  shows "only_scratch n s u"
  using assms by (fastforce simp: only_scratch_def)

lemma only_scratch_mono: "only_scratch n s t \<Longrightarrow> n \<le> k \<Longrightarrow> only_scratch k s t"
  by (fastforce simp: only_scratch_def)

lemma only_scratch_frame:
  assumes "only_scratch n s t"
  shows "ext_stack_top t = ext_stack_top s" "static_stack_top t = static_stack_top s"
    "region_heap t = region_heap s" "int10_log t = int10_log s"
    "ext_stack_ok t = ext_stack_ok s" "ext_room k t = ext_room k s"
  using assms by (auto simp: only_scratch_def ext_stack_ok_def ext_room_def)

lemma only_scratch_mem:
  "only_scratch n s t \<Longrightarrow> unat (ext_stack_top s) \<le> unat x \<or> unat x + n < unat (ext_stack_top s) \<Longrightarrow>
   mem t x = mem s x"
  by (auto simp: only_scratch_def)

text \<open>An address range below the top, without wrap-around.\<close>

lemma in_range_below:
  fixes k top :: u32
  assumes "unat k \<le> unat top"
  shows "in_range (top - k) n x \<Longrightarrow> n \<le> unat k \<Longrightarrow> unat x < unat top \<and> unat top \<le> unat x + unat k"
proof -
  assume x: "in_range (top - k) n x" and n: "n \<le> unat k"
  have b: "unat (top - k) = unat top - unat k"
    using assms by (simp add: unat_sub word_le_nat_alt)
  have "unat x = (unat (x - (top - k)) + unat (top - k)) mod 2 ^ 32"
    using unat_word_ariths(1) [of "x - (top - k)" "top - k"] by simp
  moreover have "unat (x - (top - k)) < n" using x by (simp add: in_range_def)
  moreover have "unat top < 2 ^ 32" using u32_bound [of top] by simp
  ultimately show ?thesis using assms n b by simp
qed

lemma only_scratch_blit:
  fixes k :: u32
  assumes "n \<le> unat k" and "unat k \<le> unat (ext_stack_top s)"
  shows "only_scratch (unat k) s (s\<lparr>bios_env := e, mem := blit (ext_stack_top s - k) n f (mem s)\<rparr>)"
  unfolding only_scratch_def
proof (intro exI conjI allI impI, rule refl)
  fix x :: u32 assume "\<not> (unat x < unat (ext_stack_top s) \<and> unat (ext_stack_top s) \<le> unat x + unat k)"
  with assms have "\<not> in_range (ext_stack_top s - k) n x"
    by (meson in_range_below)
  then show "blit (ext_stack_top s - k) n f (mem s) x = mem s x" by (rule blit_out)
qed

text \<open>A block pushed, a body that keeps to its scratch and its block, and the block popped.\<close>

lemma only_scratch_block:
  assumes "ext_stack_ok s" and "ext_room k s"
    and "only_scratch n (s\<lparr>ext_stack_top := ext_stack_top s - k, mem := m\<rparr>) t"
    and "\<forall>x. \<not> in_range (ext_stack_top s - k) (unat k) x \<longrightarrow> m x = mem s x"
  shows "only_scratch (unat k + n) s (t\<lparr>ext_stack_top := ext_stack_top s\<rparr>)"
proof -
  have le: "unat k \<le> unat (ext_stack_top s)"
    using assms(1,2) ext_room_unat [of s k] by simp
  then have top: "unat (ext_stack_top s - k) = unat (ext_stack_top s) - unat k"
    by (simp add: unat_sub word_le_nat_alt)
  from assms(3) obtain e m' where t: "t = s\<lparr>ext_stack_top := ext_stack_top s - k, bios_env := e, mem := m'\<rparr>"
    and m': "\<forall>x. \<not> (unat x < unat (ext_stack_top s - k) \<and> unat (ext_stack_top s - k) \<le> unat x + n) \<longrightarrow> m' x = m x"
    by (auto simp: only_scratch_def)
  have "t\<lparr>ext_stack_top := ext_stack_top s\<rparr> = s\<lparr>bios_env := e, mem := m'\<rparr>" by (simp add: t)
  moreover have "m' x = mem s x"
    if out: "\<not> (unat x < unat (ext_stack_top s) \<and> unat (ext_stack_top s) \<le> unat x + (unat k + n))" for x
  proof -
    have "\<not> in_range (ext_stack_top s - k) (unat k) x"
      using out in_range_below [OF le, of "unat k" x] by auto
    moreover have "\<not> (unat x < unat (ext_stack_top s - k) \<and> unat (ext_stack_top s - k) \<le> unat x + n)"
      using out le by (auto simp: top)
    ultimately show ?thesis using m' assms(4) by simp
  qed
  ultimately show ?thesis by (auto simp: only_scratch_def)
qed

section \<open>The interface of the extended stack\<close>

text \<open>
  What a user of \<open>push\<close> and \<open>pop\<close> relies on: a pushed block starts at the new top, a push
  without room panics, and popping what was pushed brings the old top back.
\<close>

locale stack_allocator =
  fixes push :: "u32 \<Rightarrow> ('s, u32) cmd"
    and pop :: "u32 \<Rightarrow> ('s, unit) cmd"
    and top :: "'s \<Rightarrow> u32"
    and set_top :: "u32 \<Rightarrow> 's \<Rightarrow> 's"
    and ok :: "'s \<Rightarrow> bool"
    and room :: "u32 \<Rightarrow> 's \<Rightarrow> bool"
  assumes push_law: "push n s = Some (Inr p, t) \<Longrightarrow>
      p = top s - n \<and> t = set_top (top s - n) s \<and> room n s"
    and push_room: "room n s \<Longrightarrow> push n s = Some (Inr (top s - n), set_top (top s - n) s)"
    and pop_law: "pop n s = Some (Inr u, t) \<Longrightarrow> t = set_top (top s + n) s"
    and pop_back: "ok s \<Longrightarrow> room n s \<Longrightarrow> top t = top s - n \<Longrightarrow>
      pop n t = Some (Inr (), set_top (top s) t)"
    and top_set: "top (set_top a s) = a"
begin

text \<open>A command is balanced when it leaves the top where it found it if it returns.\<close>

definition balanced :: "('s, 'a) cmd \<Rightarrow> bool" where
  "balanced m \<longleftrightarrow> (\<forall>s. partial m (\<lambda>_ t. top t = top s) s)"

lemma balancedI: "(\<And>s. partial m (\<lambda>_ t. top t = top s) s) \<Longrightarrow> balanced m"
  by (simp add: balanced_def)

lemma balancedD: "balanced m \<Longrightarrow> m s = Some (Inr a, t) \<Longrightarrow> top t = top s"
  by (auto simp: balanced_def partial_returns)

lemma balanced_ret: "balanced (ret a)"
  by (simp add: balanced_def)

lemma balanced_halt: "balanced (halt e)"
  by (simp add: balanced_def)

lemma balanced_lift_res: "balanced (lift_res r)"
  by (simp add: balanced_def wp_lift_res split: sum.splits)

lemma balanced_gets: "balanced (gets f)"
  by (simp add: balanced_def)

lemma balanced_modify: "(\<And>s. top (f s) = top s) \<Longrightarrow> balanced (modify f)"
  by (simp add: balanced_def)

lemma balanced_bind:
  assumes "balanced m" and "\<And>a. balanced (k a)"
  shows "balanced (bind m k)"
proof (rule balancedI)
  fix s
  have "partial m (\<lambda>_ t. top t = top s) s" using assms(1) by (simp add: balanced_def)
  then have "partial m (\<lambda>a t. partial (k a) (\<lambda>_ u. top u = top s) t) s"
    by (rule partial_post) (use assms(2) in \<open>auto simp: balanced_def partial_returns\<close>)
  then show "partial (bind m k) (\<lambda>_ t. top t = top s) s" by simp
qed

lemma balanced_if: "balanced m \<Longrightarrow> balanced n \<Longrightarrow> balanced (if b then m else n)"
  by simp

lemma balanced_iterate:
  assumes "\<And>x. balanced (body x)"
  shows "balanced (iterate body x)"
proof (rule balancedI)
  fix s
  show "partial (iterate body x) (\<lambda>_ t. top t = top s) s"
  proof (rule wp_iterate_invariant [where I = "\<lambda>_ t. top t = top s"])
    fix x t assume "top t = top s"
    with assms [of x] show "partial (body x)
        (\<lambda>y u. case y of Inl _ \<Rightarrow> top u = top s | Inr _ \<Rightarrow> top u = top s) t"
      by (auto simp: balanced_def partial_returns split: sum.splits)
  qed simp
qed

text \<open>A block pushed for the time of a balanced body and popped after it.\<close>

lemma balanced_block:
  assumes "\<And>b. balanced (body b)"
  shows "balanced (bind (push n) (\<lambda>b. bind (body b) (\<lambda>a. bind (pop n) (\<lambda>_. ret (f a)))))"
proof (rule balancedI)
  fix s
  show "partial (bind (push n) (\<lambda>b. bind (body b) (\<lambda>a. bind (pop n) (\<lambda>_. ret (f a)))))
      (\<lambda>_ t. top t = top s) s"
    using assms
    by (auto simp: partial_returns balanced_def exec_bind exec top_set
        dest!: push_law pop_law split: option.splits sum.splits)
qed

text \<open>And the run of such a block, when there is room for it.\<close>

lemma block_run:
  assumes "ok s" and "room n s"
    and "body (top s - n) (set_top (top s - n) s) = Some (Inr a, t)" and "top t = top s - n"
  shows "bind (push n) (\<lambda>b. bind (body b) (\<lambda>a. bind (pop n) (\<lambda>_. ret (f a)))) s
    = Some (Inr (f a), set_top (top s) t)"
  using assms by (simp add: exec_bind push_room pop_back exec)

end

interpretation ext_stack: stack_allocator push pop ext_stack_top
  "\<lambda>a s. s\<lparr>ext_stack_top := a\<rparr>" ext_stack_ok ext_room
  by unfold_locales
    (auto simp: push_run pop_after_push dest: push_returns pop_returns)

section \<open>Properties\<close>

text \<open>
  C17. The double-word string instructions with their byte tails do what their names say:
  \<open>memset\<close> fills exactly \<open>n\<close> bytes, \<open>memcpy\<close> copies exactly \<open>n\<close> bytes between areas that do not
  overlap, all other memory unchanged, both return the destination, and \<open>memeq\<close> holds just
  when the \<open>n\<close> bytes agree.
\<close>

theorem block_operations_bytewise:
  assumes "separate src dst (unat n)"
  shows "memset dst b n s = Some (Inr dst, s\<lparr>mem := blit dst (unat n) (\<lambda>_. b) (mem s)\<rparr>)
    \<and> memcpy dst src n s = Some (Inr dst, s\<lparr>mem := blit dst (unat n) (\<lambda>i. mem s (src + of_nat i)) (mem s)\<rparr>)
    \<and> (memeq m p1 p2 k \<longleftrightarrow> (\<forall>i < unat k. m (p1 + of_nat i) = m (p2 + of_nat i)))"
  by (simp add: memset_def memcpy_def exec_bind exec memset_mem_blit memcpy_mem_blit [OF assms] memeq_iff)

theorem block_operations_bytewise_witness:
  "memcpy 0x2000 0x1000 7 (boot_state (\<lambda>a. ucast a) ()) = Some (Inr 0x2000,
     (boot_state (\<lambda>a. ucast a) ())\<lparr>mem := blit 0x2000 7 (\<lambda>i. ucast (0x1000 + of_nat i :: u32)) (\<lambda>a. ucast a)\<rparr>)"
proof -
  have "(0x1000 + of_nat i :: u32) \<noteq> 0x2000 + of_nat j" if "i < 7" "j < 7" for i j
  proof -
    have "i \<in> {0, 1, 2, 3, 4, 5, 6}" "j \<in> {0, 1, 2, 3, 4, 5, 6}" using that by auto
    then show ?thesis by (elim insertE emptyE) simp_all
  qed
  then have "separate 0x1000 0x2000 (unat (7 :: u32))" by (simp add: separate_def)
  from block_operations_bytewise [OF this, of 0 "boot_state (\<lambda>a. ucast a) ()" "\<lambda>_. 0" 0 0 0]
  show ?thesis by (simp add: boot_state_def)
qed

lemma pop_keeps_ok:
  assumes "ext_stack_ok s" and "n \<le> EXTENDED_STACK_BASE - ext_stack_top s"
  shows "ext_stack_ok (s\<lparr>ext_stack_top := ext_stack_top s + n\<rparr>)"
    "unat (ext_stack_top s + n) = unat (ext_stack_top s) + unat n"
proof -
  have room: "unat (ext_stack_top s) + unat n \<le> 0x80000" and low: "0x40000 \<le> unat (ext_stack_top s)"
    using assms unfolding ext_stack_ok_def memory_map by (auto simp: word_le_nat_alt unat_sub)
  then show sum: "unat (ext_stack_top s + n) = unat (ext_stack_top s) + unat n"
    by (simp add: unat_word_ariths)
  show "ext_stack_ok (s\<lparr>ext_stack_top := ext_stack_top s + n\<rparr>)"
    using room low by (simp add: ext_stack_ok_def memory_map word_le_nat_alt sum)
qed

lemma static_alloc_keeps_ok:
  assumes "static_stack_ok s" and "static_room n s"
  shows "static_stack_ok (s\<lparr>static_stack_top := static_stack_top s - n\<rparr>)"
    "unat (static_stack_top s - n) + unat n = unat (static_stack_top s)"
proof -
  have lim: "0x10000 \<le> unat (static_stack_top s)" "unat (static_stack_top s) \<le> 0x40000"
    using assms(1) by (simp_all add: static_stack_ok_def memory_map word_le_nat_alt)
  have "unat (static_stack_top s - STATIC_STACK_LIMIT) = unat (static_stack_top s) - 0x10000"
    using lim by (simp add: memory_map unat_sub word_le_nat_alt)
  then have n: "unat n + 0x10000 \<le> unat (static_stack_top s)"
    using assms(2) lim by (simp add: static_room_def word_le_nat_alt)
  then show sum: "unat (static_stack_top s - n) + unat n = unat (static_stack_top s)"
    by (simp add: unat_sub word_le_nat_alt)
  show "static_stack_ok (s\<lparr>static_stack_top := static_stack_top s - n\<rparr>)"
    using n sum lim by (simp add: static_stack_ok_def memory_map word_le_nat_alt)
qed

text \<open>
  C16. The two stacks stay inside their areas of the memory map, so their blocks can never
  overlap. Each operation succeeds exactly when there is room: a block that is handed out lies
  between the area's limit and the old top and popping its size brings the top back; a
  request without room stops with a panic. \<open>pop\<close> of any size either stays below the base of the
  area or, when it would leave it, stops with its panic.
\<close>

theorem stacks_stay_in_their_areas:
  assumes "ext_stack_ok s" and "static_stack_ok s"
  shows "(push n s = Some (Inr p, t) \<longrightarrow> ext_stack_ok t \<and> static_stack_ok t \<and> ext_stack_top t = p
      \<and> EXTENDED_STACK_LIMIT \<le> p \<and> unat p + unat n = unat (ext_stack_top s)
      \<and> pop n t = Some (Inr (), s))
    \<and> (static_alloc n s = Some (Inr p, t) \<longrightarrow> ext_stack_ok t \<and> static_stack_ok t \<and> static_stack_top t = p
      \<and> STATIC_STACK_LIMIT \<le> p \<and> unat p + unat n = unat (static_stack_top s) \<and> unat p + unat n \<le> unat EXTENDED_STACK_LIMIT)
    \<and> (if ext_room n s then \<exists>p t. push n s = Some (Inr p, t)
       else \<exists>t. push n s = Some (Inl (Panic ''Overgrown extended stack''), t))
    \<and> (if static_room n s then \<exists>p t. static_alloc n s = Some (Inr p, t)
       else \<exists>t. static_alloc n s = Some (Inl (Panic ''Overgrown static allocations stack''), t))
    \<and> (if unat (ext_stack_top s) + unat n \<le> unat EXTENDED_STACK_BASE
       then \<exists>t. pop n s = Some (Inr (), t) \<and> ext_stack_ok t \<and> static_stack_ok t
         \<and> unat (ext_stack_top t) = unat (ext_stack_top s) + unat n
       else \<exists>t. pop n s = Some (Inl (Panic ''Stack overflow''), t))"
proof (intro conjI impI)
  assume run: "push n s = Some (Inr p, t)"
  note p = push_returns [OF this]
  then have room: "ext_room n s" by blast
  have ok: "ext_stack_ok (s\<lparr>ext_stack_top := ext_stack_top s - n\<rparr>)" by (rule push_keeps_ok [OF assms(1) room])
  show "ext_stack_ok t" using p ok by simp
  show "static_stack_ok t" using p assms(2) by (simp add: static_stack_ok_def)
  show "ext_stack_top t = p" using p by simp
  show "EXTENDED_STACK_LIMIT \<le> p" using p ok by (simp add: ext_stack_ok_def)
  show "unat p + unat n = unat (ext_stack_top s)"
    using p ext_room_unat [OF assms(1), of n] room by (simp add: unat_sub word_le_nat_alt)
  show "pop n t = Some (Inr (), s)"
    using pop_after_push [OF assms(1) room, of t] p by simp
next
  assume run: "static_alloc n s = Some (Inr p, t)"
  note p = static_alloc_returns [OF this]
  then have "static_room n s" by blast
  note ok = static_alloc_keeps_ok [OF assms(2) this]
  show "ext_stack_ok t" using p assms(1) by (simp add: ext_stack_ok_def)
  show "static_stack_ok t" using p ok(1) by simp
  show "static_stack_top t = p" using p by simp
  show "STATIC_STACK_LIMIT \<le> p" using p ok(1) by (simp add: static_stack_ok_def)
  show "unat p + unat n = unat (static_stack_top s)" using p ok(2) by simp
  then show "unat p + unat n \<le> unat EXTENDED_STACK_LIMIT"
    using assms(2) by (simp add: static_stack_ok_def memory_map word_le_nat_alt)
next
  show "if ext_room n s then \<exists>p t. push n s = Some (Inr p, t)
      else \<exists>t. push n s = Some (Inl (Panic ''Overgrown extended stack''), t)"
    using push_run push_full by auto
next
  show "if static_room n s then \<exists>p t. static_alloc n s = Some (Inr p, t)
      else \<exists>t. static_alloc n s = Some (Inl (Panic ''Overgrown static allocations stack''), t)"
    using static_alloc_run static_alloc_full by auto
next
  have "n \<le> EXTENDED_STACK_BASE - ext_stack_top s \<longleftrightarrow> unat (ext_stack_top s) + unat n \<le> unat EXTENDED_STACK_BASE"
    using assms(1) unfolding ext_stack_ok_def memory_map by (auto simp: word_le_nat_alt unat_sub)
  then show "if unat (ext_stack_top s) + unat n \<le> unat EXTENDED_STACK_BASE
      then \<exists>t. pop n s = Some (Inr (), t) \<and> ext_stack_ok t \<and> static_stack_ok t
        \<and> unat (ext_stack_top t) = unat (ext_stack_top s) + unat n
      else \<exists>t. pop n s = Some (Inl (Panic ''Stack overflow''), t)"
    using pop_run [of n s] pop_under [of s n] pop_keeps_ok [OF assms(1)] assms(2)
    by (auto simp: static_stack_ok_def not_le [symmetric])
qed

theorem stacks_stay_in_their_areas_witness:
  "pop 0x1000 ((boot_state (\<lambda>_. 0) ())\<lparr>ext_stack_top := 0x7F000\<rparr>) = Some (Inr (), boot_state (\<lambda>_. 0) ())
   \<and> (\<exists>t. static_alloc 0x30001 (boot_state (\<lambda>_. 0) ()) = Some (Inl (Panic ''Overgrown static allocations stack''), t))
   \<and> (\<exists>t. pop 1 (boot_state (\<lambda>_. 0) ()) = Some (Inl (Panic ''Stack overflow''), t))"
proof -
  let ?s = "boot_state (\<lambda>_. 0) ()"
  have push: "push 0x1000 ?s = Some (Inr 0x7F000, ?s\<lparr>ext_stack_top := 0x7F000\<rparr>)"
    by (subst push_run) (simp_all add: ext_room_def boot_state_def memory_map)
  have full: "\<not> static_room 0x30001 ?s" by (simp add: static_room_def boot_state_def memory_map)
  have empty: "\<not> unat (ext_stack_top ?s) + unat (1 :: u32) \<le> unat EXTENDED_STACK_BASE"
    by (simp add: boot_state_def memory_map)
  from push stacks_stay_in_their_areas [where s = ?s and n = "0x1000" and p = "0x7F000"
      and t = "?s\<lparr>ext_stack_top := 0x7F000\<rparr>", OF boot_state_ok]
  have "pop 0x1000 (?s\<lparr>ext_stack_top := 0x7F000\<rparr>) = Some (Inr (), ?s)" by blast
  moreover from full stacks_stay_in_their_areas [where s = ?s and n = "0x30001", OF boot_state_ok]
  have "\<exists>t. static_alloc 0x30001 ?s = Some (Inl (Panic ''Overgrown static allocations stack''), t)" by simp
  moreover from empty stacks_stay_in_their_areas [where s = ?s and n = 1, OF boot_state_ok]
  have "\<exists>t. pop 1 ?s = Some (Inl (Panic ''Stack overflow''), t)" by simp
  ultimately show ?thesis by blast
qed

end
