(* ===== verification/Regions.thy ===== *)
theory Regions
  imports Mem
begin

text \<open>
  The memory map of \<^verbatim>\<open>stage1/sysinfo_impl.c\<close>: a linked list of regions in nodes taken from
  \<open>static_alloc\<close>, built by sorted insertion. The operations follow every pointer through the
  heap of nodes and read a field again whenever the code does, so nodes may be shared. The
  specification is on plain lists of regions; the lemmas relate the two where the insertion
  is well-behaved and show where it is not.
\<close>

section \<open>Restrictiveness\<close>

text \<open>The enumeration is ordered from least to most restrictive: its values as a linear order.\<close>

fun restrictiveness :: "sysinfo_mem_type_t \<Rightarrow> nat" where
  "restrictiveness SYSINFO_MT_USABLE = 0"
| "restrictiveness SYSINFO_MT_RECLAIMABLE = 1"
| "restrictiveness SYSINFO_MT_ELF_EXECUTABLE = 2"
| "restrictiveness SYSINFO_MT_ACPI_NVS = 3"
| "restrictiveness SYSINFO_MT_BAD = 4"
| "restrictiveness SYSINFO_MT_RESERVED = 5"

lemma restrictiveness_inject: "restrictiveness a = restrictiveness b \<Longrightarrow> a = b"
  by (cases a; cases b) simp_all

instantiation sysinfo_mem_type_t :: linorder
begin

definition less_eq_sysinfo_mem_type_t :: "sysinfo_mem_type_t \<Rightarrow> sysinfo_mem_type_t \<Rightarrow> bool" where
  "less_eq_sysinfo_mem_type_t a b \<longleftrightarrow> restrictiveness a \<le> restrictiveness b"

definition less_sysinfo_mem_type_t :: "sysinfo_mem_type_t \<Rightarrow> sysinfo_mem_type_t \<Rightarrow> bool" where
  "less_sysinfo_mem_type_t a b \<longleftrightarrow> restrictiveness a < restrictiveness b"

instance
  by intro_classes
    (auto simp: less_eq_sysinfo_mem_type_t_def less_sysinfo_mem_type_t_def dest: restrictiveness_inject)

end

lemma RESERVED_max: "a \<le> SYSINFO_MT_RESERVED" "\<not> SYSINFO_MT_RESERVED < a"
  by (cases a; simp add: less_eq_sysinfo_mem_type_t_def less_sysinfo_mem_type_t_def)+

definition is_left_more_restrictive :: "sysinfo_mem_type_t \<Rightarrow> sysinfo_mem_type_t \<Rightarrow> bool" where
  "is_left_more_restrictive left right \<longleftrightarrow> left > right"

section \<open>Nodes\<close>

text \<open>Following a pointer that is no node, \<^verbatim>\<open>nullptr\<close> among them, is undefined.\<close>

definition node :: "u32 \<Rightarrow> ('e machine, sysinfo_memregion_t) cmd" where
  "node p = bind (gets (\<lambda>s. region_heap s p)) (\<lambda>n.
     case n of None \<Rightarrow> halt (Undef Null_Deref) | Some n \<Rightarrow> ret n)"

definition write_node :: "u32 \<Rightarrow> sysinfo_memregion_t \<Rightarrow> ('e machine, unit) cmd" where
  "write_node p n = modify (\<lambda>s. s\<lparr>region_heap := (region_heap s)(p := Some n)\<rparr>)"

definition update_node :: "u32 \<Rightarrow> (sysinfo_memregion_t \<Rightarrow> sysinfo_memregion_t) \<Rightarrow> ('e machine, unit) cmd" where
  "update_node p f = bind (node p) (\<lambda>n. write_node p (f n))"

definition SIZEOF_MEMREGION :: u32 where "SIZEOF_MEMREGION = 28"

section \<open>Insertion\<close>

definition region_limit :: "sysinfo_memregion_t \<Rightarrow> u64" where
  "region_limit n = mr_base_addr n + mr_size n"

definition add_padding_right :: "u32 \<Rightarrow> ('e machine, unit) cmd" where
  "add_padding_right this_region =
     bind (node this_region) (\<lambda>this.
     if mr_next this = 0 then ret ()
     else
       let limit_right = region_limit this in
       bind (node (mr_next this)) (\<lambda>next.
       if mr_type this = mr_type next then
         bind (update_node this_region (\<lambda>n. n\<lparr>mr_size := mr_base_addr next + mr_size next - mr_base_addr this\<rparr>)) (\<lambda>_.
         bind (node (mr_next this)) (\<lambda>next.
         update_node this_region (\<lambda>n. n\<lparr>mr_next := mr_next next\<rparr>)))
       else if mr_type next = SYSINFO_MT_RESERVED then
         bind (update_node (mr_next this) (\<lambda>n. n\<lparr>mr_size := mr_size n + (mr_base_addr n - limit_right)\<rparr>)) (\<lambda>_.
         bind (node this_region) (\<lambda>this.
         update_node (mr_next this) (\<lambda>n. n\<lparr>mr_base_addr := limit_right\<rparr>)))
       else if limit_right < mr_base_addr next then
         bind (static_alloc SIZEOF_MEMREGION) (\<lambda>padding.
         bind (node this_region) (\<lambda>this.
         bind (node (mr_next this)) (\<lambda>next.
         bind (write_node padding \<lparr>mr_next = mr_next this, mr_base_addr = limit_right,
                 mr_size = mr_base_addr next - limit_right, mr_type = SYSINFO_MT_RESERVED,
                 mr_is_volatile = False\<rparr>) (\<lambda>_.
         update_node this_region (\<lambda>n. n\<lparr>mr_next := padding\<rparr>)))))
       else ret ()))"

text \<open>One round of the loop of \<open>fix_right\<close>; \<open>limit_right\<close> is computed once, before it.\<close>

definition fix_round :: "u64 \<Rightarrow> u32 \<Rightarrow> ('e machine, u32 + u32) cmd" where
  "fix_round limit_right this_region =
     bind (node this_region) (\<lambda>this.
     if mr_next this = 0 then ret (Inr this_region)
     else
       bind (node (mr_next this)) (\<lambda>next.
       if \<not> limit_right > mr_base_addr next then ret (Inr this_region)
       else if \<not> is_left_more_restrictive (mr_type next) (mr_type this) then
         if region_limit next \<le> limit_right then
           bind (update_node this_region (\<lambda>n. n\<lparr>mr_next := mr_next next\<rparr>)) (\<lambda>_. ret (Inl this_region))
         else
           bind (update_node (mr_next this) (\<lambda>n. n\<lparr>mr_size := mr_size n - (limit_right - mr_base_addr n)\<rparr>)) (\<lambda>_.
           bind (node this_region) (\<lambda>this.
           bind (update_node (mr_next this) (\<lambda>n. n\<lparr>mr_base_addr := limit_right\<rparr>)) (\<lambda>_.
           ret (Inl this_region))))
       else
         bind (update_node this_region (\<lambda>n. n\<lparr>mr_size := mr_base_addr next - mr_base_addr n\<rparr>)) (\<lambda>_.
         bind (node this_region) (\<lambda>this.
         bind (node (mr_next this)) (\<lambda>next.
         if limit_right > region_limit next then
           bind (static_alloc SIZEOF_MEMREGION) (\<lambda>split_region.
           bind (node this_region) (\<lambda>this.
           bind (write_node split_region this) (\<lambda>_.
           bind (node (mr_next this)) (\<lambda>next.
           bind (update_node split_region (\<lambda>n. n\<lparr>mr_base_addr := region_limit next\<rparr>)) (\<lambda>_.
           bind (update_node split_region (\<lambda>n. n\<lparr>mr_size := limit_right - mr_base_addr n\<rparr>)) (\<lambda>_.
           bind (node (mr_next this)) (\<lambda>next.
           bind (update_node split_region (\<lambda>n. n\<lparr>mr_next := mr_next next\<rparr>)) (\<lambda>_.
           bind (update_node (mr_next this) (\<lambda>n. n\<lparr>mr_next := split_region\<rparr>)) (\<lambda>_.
           ret (Inl split_region))))))))))
         else ret (Inl this_region))))))"

definition fix_right :: "u32 \<Rightarrow> ('e machine, unit) cmd" where
  "fix_right this_region =
     (if this_region = 0 then ret ()
      else
        bind (node this_region) (\<lambda>this.
        bind (iterate (fix_round (region_limit this)) this_region) (\<lambda>this_region.
        add_padding_right this_region)))"

text \<open>
  The search for the place: \<open>prev2\<close>, \<open>prev\<close>, \<open>current\<close>. \<open>*mem_regions\<close> is passed and its new
  value returned.
\<close>

definition find_place :: "u64 \<Rightarrow> u32 \<Rightarrow> ('e machine, u32 \<times> u32 \<times> u32) cmd" where
  "find_place base mem_regions =
     iterate (\<lambda>(prev2, prev, current).
       if current = 0 then ret (Inr (prev2, prev, current))
       else
         bind (node current) (\<lambda>c.
         if mr_base_addr c < base then ret (Inl (prev, current, mr_next c))
         else ret (Inr (prev2, prev, current))))
     (0, 0, mem_regions)"

definition insert_sorted :: "u32 \<Rightarrow> u32 \<Rightarrow> ('e machine, u32) cmd" where
  "insert_sorted mem_regions this_region =
     (if this_region = 0 then ret mem_regions
      else
        bind (node this_region) (\<lambda>this.
        if mr_size this = 0 then ret mem_regions
        else
          bind (find_place (mr_base_addr this) mem_regions) (\<lambda>(prev2, prev, current).
          if prev = 0 then
            if mem_regions = 0 then
              bind (update_node this_region (\<lambda>n. n\<lparr>mr_next := 0\<rparr>)) (\<lambda>_. ret this_region)
            else
              bind (update_node this_region (\<lambda>n. n\<lparr>mr_next := mem_regions\<rparr>)) (\<lambda>_.
              bind (fix_right this_region) (\<lambda>_. ret this_region))
          else
            bind (update_node this_region (\<lambda>n. n\<lparr>mr_next := current\<rparr>)) (\<lambda>_.
            bind (update_node prev (\<lambda>n. n\<lparr>mr_next := this_region\<rparr>)) (\<lambda>_.
            bind (fix_right prev2) (\<lambda>_.
            bind (fix_right prev) (\<lambda>_. ret mem_regions)))))))"

section \<open>The list in the heap\<close>

text \<open>A region without its link, and the list of regions with their addresses between two pointers.\<close>

record region =
  base :: u64
  extent :: u64
  kind :: sysinfo_mem_type_t
  volatile :: bool

definition limit :: "region \<Rightarrow> u64" where
  "limit r = base r + extent r"

definition as_node :: "u32 \<Rightarrow> region \<Rightarrow> sysinfo_memregion_t" where
  "as_node q r = \<lparr>mr_next = q, mr_base_addr = base r, mr_size = extent r, mr_type = kind r, mr_is_volatile = volatile r\<rparr>"

type_synonym region_store = "u32 \<Rightarrow> sysinfo_memregion_t option"

primrec lseg :: "region_store \<Rightarrow> u32 \<Rightarrow> (u32 \<times> region) list \<Rightarrow> u32 \<Rightarrow> bool" where
  "lseg h p [] q \<longleftrightarrow> p = q"
| "lseg h p (x # xs) q \<longleftrightarrow> p = fst x \<and> p \<noteq> 0 \<and> (\<exists>r. h p = Some (as_node r (snd x)) \<and> lseg h r xs q)"

abbreviation addrs :: "(u32 \<times> region) list \<Rightarrow> u32 set" where
  "addrs xs \<equiv> fst ` set xs"

lemma as_node_sel [simp]:
  "mr_next (as_node q r) = q" "mr_base_addr (as_node q r) = base r" "mr_size (as_node q r) = extent r"
  "mr_type (as_node q r) = kind r" "mr_is_volatile (as_node q r) = volatile r"
  by (simp_all add: as_node_def)

lemma as_node_inject [simp]: "as_node q x = as_node q' y \<longleftrightarrow> q = q' \<and> x = y"
  by (auto simp: as_node_def)

lemma as_node_upd [simp]:
  "(as_node q r)\<lparr>mr_next := q'\<rparr> = as_node q' r"
  "(as_node q r)\<lparr>mr_size := sz\<rparr> = as_node q (r\<lparr>extent := sz\<rparr>)"
  "(as_node q r)\<lparr>mr_base_addr := a\<rparr> = as_node q (r\<lparr>base := a\<rparr>)"
  by (simp_all add: as_node_def)

lemma region_limit_as_node [simp]: "region_limit (as_node q r) = limit r"
  by (simp add: region_limit_def limit_def)

lemma lseg_append: "lseg h p (xs @ ys) q \<longleftrightarrow> (\<exists>r. lseg h p xs r \<and> lseg h r ys q)"
  by (induction xs arbitrary: p) auto

lemma lseg_frame: "a \<notin> addrs xs \<Longrightarrow> lseg (h(a := v)) p xs q = lseg h p xs q"
  by (induction xs arbitrary: p) auto

lemma lseg_Nil_0: "lseg h 0 xs q \<Longrightarrow> xs = [] \<and> q = 0"
  by (cases xs) auto

section \<open>Running the operations\<close>

text \<open>Only the node heap and the static stack change; \<open>heaped h a s\<close> is \<open>s\<close> with these two set.\<close>

definition heaped :: "region_store \<Rightarrow> u32 \<Rightarrow> 'e machine \<Rightarrow> 'e machine" where
  "heaped h a s = s\<lparr>region_heap := h, static_stack_top := a\<rparr>"

lemma heaped_simps [simp]:
  "region_heap (heaped h a s) = h" "static_stack_top (heaped h a s) = a"
  "heaped h' a' (heaped h a s) = heaped h' a' s"
  "mem (heaped h a s) = mem s" "ext_stack_top (heaped h a s) = ext_stack_top s"
  "bios_env (heaped h a s) = bios_env s" "int10_log (heaped h a s) = int10_log s"
  by (simp_all add: heaped_def)

lemma heaped_id: "heaped (region_heap s) (static_stack_top s) s = s"
  by (simp add: heaped_def)

lemma node_run: "h p = Some n \<Longrightarrow> node p (heaped h a s) = Some (Inr n, heaped h a s)"
  by (simp add: node_def exec_bind exec)

lemma write_node_run: "write_node p n (heaped h a s) = Some (Inr (), heaped (h(p \<mapsto> n)) a s)"
  by (simp add: write_node_def exec heaped_def)

lemma update_node_run:
  "h p = Some n \<Longrightarrow> update_node p f (heaped h a s) = Some (Inr (), heaped (h(p \<mapsto> f n)) a s)"
  by (simp add: update_node_def exec_bind node_run write_node_run)

lemma alloc_run:
  assumes "0x10000 + 28 \<le> unat a"
  shows "static_alloc SIZEOF_MEMREGION (heaped h a s) = Some (Inr (a - 28), heaped h (a - 28) s)"
proof -
  have "static_room 28 (heaped h a s)"
    using assms by (simp add: static_room_def memory_map word_le_nat_alt unat_sub)
  then show ?thesis
    by (subst SIZEOF_MEMREGION_def, subst static_alloc_run) (simp_all add: heaped_def)
qed

named_theorems runs "running node operations on a known heap"
lemmas [runs] = node_run update_node_run write_node_run alloc_run bind_return exec_basic

section \<open>The insertion on lists of regions\<close>

text \<open>
  The same steps on plain lists. \<open>fix_list\<close> gives \<open>None\<close> where the loop of \<open>fix_right\<close> goes
  round for ever: the right neighbour is the more restrictive one and the left one does not
  reach beyond it.
\<close>

definition reserved_gap :: "u64 \<Rightarrow> u64 \<Rightarrow> region" where
  "reserved_gap b e = \<lparr>base = b, extent = e - b, kind = SYSINFO_MT_RESERVED, volatile = False\<rparr>"

lemma gap_node:
  "\<lparr>mr_next = q, mr_base_addr = b, mr_size = e - b, mr_type = SYSINFO_MT_RESERVED, mr_is_volatile = False\<rparr>
    = as_node q (reserved_gap b e)"
  by (simp add: as_node_def reserved_gap_def)

fun pad :: "region \<Rightarrow> region list \<Rightarrow> region list" where
  "pad x [] = [x]"
| "pad x (y # ys) =
     (if kind x = kind y then x\<lparr>extent := limit y - base x\<rparr> # ys
      else if kind y = SYSINFO_MT_RESERVED then
        x # y\<lparr>extent := extent y + (base y - limit x), base := limit x\<rparr> # ys
      else if limit x < base y then x # reserved_gap (limit x) (base y) # y # ys
      else x # y # ys)"

fun fix_list :: "u64 \<Rightarrow> region \<Rightarrow> region list \<Rightarrow> region list option" where
  "fix_list lim x [] = Some [x]"
| "fix_list lim x (y # ys) =
     (if lim \<le> base y then Some (pad x (y # ys))
      else if kind y \<le> kind x then
        if limit y \<le> lim then fix_list lim x ys
        else Some (pad x (y\<lparr>extent := extent y - (lim - base y), base := lim\<rparr> # ys))
      else if limit y < lim then
        map_option (\<lambda>zs. x\<lparr>extent := base y - base x\<rparr> # y # zs)
          (fix_list lim (x\<lparr>base := limit y, extent := lim - limit y\<rparr>) ys)
      else None)"

definition insert_list :: "region \<Rightarrow> region list \<Rightarrow> region list option" where
  "insert_list r xs =
     (if extent r = 0 then Some xs
      else
        let post = dropWhile (\<lambda>x. base x < base r) xs in
        case rev (takeWhile (\<lambda>x. base x < base r) xs) of
          [] \<Rightarrow> fix_list (limit r) r xs
        | p # ps \<Rightarrow> map_option (append (rev ps)) (fix_list (limit p) p (r # post)))"

section \<open>The operations implement them\<close>

definition segment :: "region_store \<Rightarrow> u32 \<Rightarrow> u32 \<Rightarrow> (u32 \<times> region) list \<Rightarrow> bool" where
  "segment h a p xs \<longleftrightarrow> lseg h p xs 0 \<and> distinct (map fst xs) \<and> (\<forall>q\<in>addrs xs. unat a \<le> unat q)"

text \<open>
  From \<open>xs\<close> in \<open>h\<close> to \<open>zs\<close> in \<open>h'\<close>: the nodes are those of \<open>xs\<close> and fresh ones, no other
  node changed.
\<close>

definition keeps :: "region_store \<Rightarrow> u32 \<Rightarrow> u32 set \<Rightarrow> region_store \<Rightarrow> u32 \<Rightarrow> u32 set \<Rightarrow> bool" where
  "keeps h a xs h' a' zs \<longleftrightarrow>
     unat a' \<le> unat a \<and> (\<forall>q\<in>zs. unat a \<le> unat q \<longrightarrow> q \<in> xs) \<and>
     (\<forall>w. unat a \<le> unat w \<longrightarrow> w \<notin> xs \<longrightarrow> h' w = h w)"

definition room :: "u32 \<Rightarrow> nat \<Rightarrow> bool" where
  "room a k \<longleftrightarrow> 0x10000 + 28 * k \<le> unat a"

lemma room_mono: "room a k \<Longrightarrow> j \<le> k \<Longrightarrow> room a j"
  by (simp add: room_def)

lemma unat_minus_28: "room a (Suc k) \<Longrightarrow> unat (a - 28) = unat a - 28"
  by (subst unat_sub) (simp_all add: room_def word_le_nat_alt)

lemma room_Suc: "room a (Suc k) \<Longrightarrow> room (a - 28) k"
  using unat_minus_28 [of a k] by (simp add: room_def)

lemma room_nonzero: "room a (Suc k) \<Longrightarrow> a - 28 \<noteq> 0"
  using unat_minus_28 [of a k] by (auto simp: room_def)

lemma segment_Cons:
  "segment h a p ((p', x) # xs) \<longleftrightarrow>
     p' = p \<and> p \<noteq> 0 \<and> p \<notin> addrs xs \<and> unat a \<le> unat p \<and> (\<exists>r. h p = Some (as_node r x) \<and> segment h a r xs)"
  by (auto simp: segment_def)

lemma segment_Nil: "segment h a p [] \<longleftrightarrow> p = 0"
  by (simp add: segment_def)

lemma segment_frame: "w \<notin> addrs xs \<Longrightarrow> segment (h(w := v)) a p xs = segment h a p xs"
  by (simp add: segment_def lseg_frame)

lemma lseg_cong: "(\<And>w. w \<in> addrs xs \<Longrightarrow> h' w = h w) \<Longrightarrow> lseg h' p xs q = lseg h p xs q"
  by (induction xs arbitrary: p) auto

lemma segment_low: "segment h a p xs \<Longrightarrow> unat a' \<le> unat a \<Longrightarrow> segment h a' p xs"
  by (auto simp: segment_def)

lemma segment_fresh: "segment h a p xs \<Longrightarrow> room a (Suc k) \<Longrightarrow> a - 28 \<notin> addrs xs"
  by (auto simp: segment_def unat_minus_28) (auto simp: room_def unat_minus_28 Ball_def image_iff)

text \<open>
  \<open>m\<close> turns the nodes \<open>ns\<close> into a list from \<open>p\<close> of the regions \<open>rs\<close>, with at most \<open>k\<close>
  nodes allocated.
\<close>

definition yields ::
  "('e machine, unit) cmd \<Rightarrow> region_store \<Rightarrow> u32 \<Rightarrow> 'e machine \<Rightarrow> u32 \<Rightarrow> u32 set \<Rightarrow> nat \<Rightarrow> region list \<Rightarrow> bool"
where
  "yields m h a s p ns k rs \<longleftrightarrow> (\<exists>h' a' zs. m (heaped h a s) = Some (Inr (), heaped h' a' s)
     \<and> segment h' a' p zs \<and> map snd zs = rs
     \<and> keeps h a ns h' a' (addrs zs) \<and> unat a \<le> unat a' + 28 * k)"

lemma yieldsI:
  assumes "m (heaped h a s) = Some (Inr (), heaped h' a' s)" and "segment h' a' p zs"
    and "map snd zs = rs" and "keeps h a ns h' a' (addrs zs)" and "unat a \<le> unat a' + 28 * k"
  shows "yields m h a s p ns k rs"
  using assms unfolding yields_def by blast

lemma pad_run:
  assumes seg: "segment h a p ((p, x) # ys)" and rm: "room a 1"
  shows "yields (add_padding_right p) h a s p (insert p (addrs ys)) 1 (pad x (map snd ys))"
proof (cases ys)
  case Nil
  with seg have "h p = Some (as_node 0 x)" by (simp add: segment_Cons segment_Nil)
  then have "add_padding_right p (heaped h a s) = Some (Inr (), heaped h a s)"
    by (simp add: add_padding_right_def runs exec_bind)
  with Nil seg show ?thesis
    by (intro yieldsI [where h' = "h" and a' = "a" and zs = "[(p, x)]"]) (simp_all add: keeps_def segment_Cons segment_Nil)
next
  case (Cons qy ys')
  obtain q y where qy: "qy = (q, y)" by (cases qy)
  note Cons = Cons [unfolded qy]
  from seg obtain r where hp: "h p = Some (as_node q x)" and hq: "h q = Some (as_node r y)"
    and ne: "p \<noteq> q" "p \<noteq> 0" "q \<noteq> 0" and fr: "p \<notin> addrs ys'" "q \<notin> addrs ys'"
    and le: "unat a \<le> unat p" "unat a \<le> unat q" and rest: "segment h a r ys'"
    by (auto simp: Cons segment_Cons)
  have fresh: "a - 28 \<noteq> p" "a - 28 \<noteq> q" "a - 28 \<notin> addrs ys'" "a - 28 \<noteq> 0"
    using segment_fresh [OF seg, of 0] rm room_nonzero [of a 0] by (auto simp: Cons)
  have sz: "unat (a - 28) = unat a - 28" "28 \<le> unat a"
    using unat_minus_28 [of a 0] rm by (auto simp: room_def)
  have low: "unat a - 28 \<le> unat p" "unat a - 28 \<le> unat q" using le by simp_all
  consider (merge) "kind x = kind y" | (extend) "kind x \<noteq> kind y" "kind y = SYSINFO_MT_RESERVED"
    | (gap) "kind x \<noteq> kind y" "kind y \<noteq> SYSINFO_MT_RESERVED" "limit x < base y"
    | (none) "kind x \<noteq> kind y" "kind y \<noteq> SYSINFO_MT_RESERVED" "\<not> limit x < base y" by blast
  then show ?thesis
  proof cases
    case merge
    let ?x = "x\<lparr>extent := limit y - base x\<rparr>"
    have "add_padding_right p (heaped h a s) = Some (Inr (), heaped (h(p := Some (as_node r ?x))) a s)"
      using hp hq ne merge by (simp add: add_padding_right_def Let_def exec_bind runs limit_def)
    moreover have "segment (h(p := Some (as_node r ?x))) a p ((p, ?x) # ys')"
      using fr ne le rest by (simp add: segment_Cons segment_frame)
    ultimately show ?thesis using merge Cons
      by (intro yieldsI [where h' = "h(p := Some (as_node r ?x))" and a' = "a" and zs = "(p, ?x) # ys'"]) (auto simp: keeps_def)
  next
    case extend
    let ?y = "y\<lparr>extent := extent y + (base y - limit x), base := limit x\<rparr>"
    let ?h = "h(q := Some (as_node r ?y))"
    have "add_padding_right p (heaped h a s) = Some (Inr (), heaped ?h a s)"
      using hp hq ne extend by (simp add: add_padding_right_def Let_def exec_bind runs)
    moreover have "segment ?h a p ((p, x) # (q, ?y) # ys')"
      using fr ne le rest hp by (simp add: segment_Cons segment_frame)
    ultimately show ?thesis using extend Cons
      by (intro yieldsI [where h' = "?h" and a' = "a" and zs = "(p, x) # (q, ?y) # ys'"]) (auto simp: keeps_def)
  next
    case gap
    let ?g = "reserved_gap (limit x) (base y)"
    let ?h = "h(a - 28 := Some (as_node q ?g), p := Some (as_node (a - 28) x))"
    have "add_padding_right p (heaped h a s) = Some (Inr (), heaped ?h (a - 28) s)"
      using hp hq ne gap fresh rm
      by (simp add: add_padding_right_def Let_def exec_bind runs room_def gap_node)
    moreover have "segment ?h (a - 28) p ((p, x) # (a - 28, ?g) # (q, y) # ys')"
      using fr ne le low rest fresh sz hq segment_low [OF rest, of "a - 28"]
      by (simp add: segment_Cons segment_frame)
    ultimately show ?thesis using gap Cons sz
      by (intro yieldsI [where h' = "?h" and a' = "a - 28" and zs = "(p, x) # (a - 28, ?g) # (q, y) # ys'"]) (auto simp: keeps_def)
  next
    case none
    have "add_padding_right p (heaped h a s) = Some (Inr (), heaped h a s)"
      using hp hq ne none by (simp add: add_padding_right_def Let_def exec_bind runs)
    with none Cons seg show ?thesis
      by (intro yieldsI [where h' = "h" and a' = "a" and zs = "(p, x) # ys"]) (simp_all add: keeps_def)
  qed
qed

text \<open>Composing two steps, the second of them on a part of what the first left.\<close>

lemma keeps_trans:
  assumes "keeps h a xs h' a' zs" and "keeps h' a' ys h'' a'' us"
    and "\<forall>q\<in>ys. unat a \<le> unat q \<longrightarrow> q \<in> xs"
  shows "keeps h a xs h'' a'' us"
proof -
  have le: "unat a' \<le> unat a" "unat a'' \<le> unat a'" using assms by (simp_all add: keeps_def)
  have "q \<in> xs" if "q \<in> us" "unat a \<le> unat q" for q
    using that le assms by (simp add: keeps_def)
  moreover have "h'' w = h w" if w: "unat a \<le> unat w" "w \<notin> xs" for w
  proof -
    have "w \<notin> ys" using w assms(3) by blast
    with w le assms(1,2) show ?thesis by (simp add: keeps_def)
  qed
  ultimately show ?thesis using le by (simp add: keeps_def)
qed

definition fix_from :: "u64 \<Rightarrow> u32 \<Rightarrow> ('e machine, unit) cmd" where
  "fix_from lim p = bind (iterate (fix_round lim) p) add_padding_right"

lemma fix_right_from: "p \<noteq> 0 \<Longrightarrow> fix_right p = bind (node p) (\<lambda>this. fix_from (region_limit this) p)"
  by (simp add: fix_right_def fix_from_def)

lemma fix_from_again:
  "fix_round lim p s = Some (Inr (Inl q), t) \<Longrightarrow> fix_from lim p s = fix_from lim q t"
  by (subst fix_from_def, subst iterate_unfold) (simp add: bind_assoc exec_bind fix_from_def)

lemma fix_from_done:
  "fix_round lim p s = Some (Inr (Inr q), t) \<Longrightarrow> fix_from lim p s = add_padding_right q t"
  by (subst fix_from_def, subst iterate_unfold) (simp add: bind_assoc exec_bind exec_basic)

lemma yields_trans:
  assumes "yields m' h1 a1 s p ms k rs" and "m (heaped h a s) = m' (heaped h1 a1 s)"
    and "keeps h a ns h1 a1 {}" and "\<forall>q\<in>ms. unat a \<le> unat q \<longrightarrow> q \<in> ns"
    and "unat a \<le> unat a1 + 28 * j" and "j + k \<le> l"
  shows "yields m h a s p ns l rs"
proof -
  from assms(1) obtain h' a' zs where run: "m' (heaped h1 a1 s) = Some (Inr (), heaped h' a' s)"
    and zs: "segment h' a' p zs" "map snd zs = rs" and kp: "keeps h1 a1 ms h' a' (addrs zs)"
    and le: "unat a1 \<le> unat a' + 28 * k" by (auto simp: yields_def)
  have "unat a \<le> unat a' + 28 * l" using le assms(5,6) by simp
  with run zs assms(2) keeps_trans [OF assms(3) kp assms(4)] show ?thesis by (intro yieldsI) simp_all
qed

lemma keeps_same: "(\<forall>w. unat a \<le> unat w \<longrightarrow> w \<notin> ns \<longrightarrow> h' w = h w) \<Longrightarrow> keeps h a ns h' a {}"
  by (simp add: keeps_def)

text \<open>The fresh node of a split hangs the rest of the list behind the region in the middle.\<close>

lemma yields_split:
  assumes "yields m' h1 a1 s n ms k rs" and "m (heaped h a s) = m' (heaped h1 a1 s)"
    and h1: "h1 p = Some (as_node q x)" "h1 q = Some (as_node n y)"
    and kp: "keeps h a ns h1 a1 {}" and ms: "\<forall>w\<in>ms. unat a \<le> unat w \<longrightarrow> w \<in> ns - {p, q}" and ns: "p \<in> ns" "q \<in> ns"
    and le: "unat a1 + 28 = unat a" "unat a \<le> unat p" "unat a \<le> unat q" "p \<noteq> q" "p \<noteq> 0" "q \<noteq> 0"
  shows "yields m h a s p ns (Suc k) (x # y # rs)"
proof -
  from assms(1) obtain h' a' zs where run: "m' (heaped h1 a1 s) = Some (Inr (), heaped h' a' s)"
    and zs: "segment h' a' n zs" "map snd zs = rs" and kp': "keeps h1 a1 ms h' a' (addrs zs)"
    and k: "unat a1 \<le> unat a' + 28 * k" by (auto simp: yields_def)
  have out: "p \<notin> ms" "q \<notin> ms" using ms le by auto
  then have "p \<notin> addrs zs" "q \<notin> addrs zs" "h' p = h1 p" "h' q = h1 q"
    using kp' le by (auto simp: keeps_def)
  moreover have a': "unat a' \<le> unat a1" using kp' by (simp add: keeps_def)
  ultimately have "segment h' a' p ((p, x) # (q, y) # zs)"
    using zs h1 le by (simp add: segment_Cons)
  moreover have "keeps h a ns h' a' (addrs ((p, x) # (q, y) # zs))"
    using keeps_trans [OF kp kp', of] ms ns by (auto simp: keeps_def)
  ultimately show ?thesis using run zs assms(2) k le(1)
    by (intro yieldsI [where h' = h' and a' = a' and zs = "(p, x) # (q, y) # zs"]) simp_all
qed

text \<open>What \<open>fix_from\<close> does from \<open>p\<close>, by the result of \<open>fix_list\<close>, and its rounds one by one.\<close>

definition fixes_to ::
  "u64 \<Rightarrow> region_store \<Rightarrow> u32 \<Rightarrow> 'e machine \<Rightarrow> u32 \<Rightarrow> u32 set \<Rightarrow> nat \<Rightarrow> region list option \<Rightarrow> bool"
where
  "fixes_to lim h a s p ns k res \<longleftrightarrow> (case res of
      None \<Rightarrow> fix_from lim p (heaped h a s) = None
    | Some rs \<Rightarrow> yields (fix_from lim p) h a s p ns k rs)"

lemma fix_last:
  assumes "h p = Some (as_node 0 x)" and "p \<noteq> 0"
  shows "fix_from lim p (heaped h a s) = add_padding_right p (heaped h a s)"
  using assms by (intro fix_from_done) (simp add: fix_round_def exec_bind runs)

lemma fix_apart:
  assumes "h p = Some (as_node q x)" "h q = Some (as_node r y)" "p \<noteq> 0" "q \<noteq> 0" and "lim \<le> base y"
  shows "fix_from lim p (heaped h a s) = add_padding_right p (heaped h a s)"
  using assms by (intro fix_from_done) (simp add: fix_round_def exec_bind runs not_less)

lemma fix_covered:
  assumes "h p = Some (as_node q x)" "h q = Some (as_node r y)" "p \<noteq> 0" "q \<noteq> 0"
    and "\<not> lim \<le> base y" "kind y \<le> kind x" "limit y \<le> lim"
    and "fixes_to lim (h(p := Some (as_node r x))) a s p (insert p ns) k res"
  shows "fixes_to lim h a s p (insert p (insert q ns)) (Suc k) res"
proof -
  let ?h = "h(p := Some (as_node r x))"
  have 1: "fix_round lim p (heaped h a s) = Some (Inr (Inl p), heaped ?h a s)"
    using assms(1-7) by (simp add: fix_round_def exec_bind runs is_left_more_restrictive_def not_less)
  have "yields (fix_from lim p) ?h a s p (insert p ns) k rs \<Longrightarrow>
      yields (fix_from lim p) h a s p (insert p (insert q ns)) (Suc k) rs" for rs
    by (rule yields_trans [where m = "fix_from lim p" and m' = "fix_from lim p", OF _ fix_from_again [OF 1] keeps_same, where j = 0]) auto
  then show ?thesis
    using assms(8) fix_from_again [OF 1] by (simp add: fixes_to_def split: option.splits del: fun_upd_apply)
qed

lemma fix_trim:
  assumes "h p = Some (as_node q x)" "h q = Some (as_node r y)" "p \<noteq> 0" "q \<noteq> 0" "p \<noteq> q"
    and "\<not> lim \<le> base y" "kind y \<le> kind x" "\<not> limit y \<le> lim"
  shows "fix_from lim p (heaped h a s) = add_padding_right p
    (heaped (h(q := Some (as_node r (y\<lparr>extent := extent y - (lim - base y), base := lim\<rparr>)))) a s)"
proof -
  let ?h = "h(q := Some (as_node r (y\<lparr>extent := extent y - (lim - base y), base := lim\<rparr>)))"
  have 1: "fix_round lim p (heaped h a s) = Some (Inr (Inl p), heaped ?h a s)"
    using assms by (simp add: fix_round_def exec_bind runs is_left_more_restrictive_def not_less)
  have 2: "fix_round lim p (heaped ?h a s) = Some (Inr (Inr p), heaped ?h a s)"
    using assms by (simp add: fix_round_def exec_bind runs)
  show ?thesis by (simp add: fix_from_again [OF 1] fix_from_done [OF 2])
qed

lemma fix_split:
  assumes p: "h p = Some (as_node q x)" "h q = Some (as_node r y)" "p \<noteq> 0" "q \<noteq> 0" "p \<noteq> q" "unat a \<le> unat p" "unat a \<le> unat q"
    and "\<not> lim \<le> base y" "\<not> kind y \<le> kind x" "limit y < lim"
    and rm: "room a (Suc j)" and fresh: "a - 28 \<noteq> p" "a - 28 \<noteq> q" and ns: "p \<notin> ns" "q \<notin> ns"
    and rest: "fixes_to lim (h(p := Some (as_node q (x\<lparr>extent := base y - base x\<rparr>)), q := Some (as_node (a - 28) y),
        a - 28 := Some (as_node r (x\<lparr>base := limit y, extent := lim - limit y\<rparr>)))) (a - 28) s (a - 28) (insert (a - 28) ns) k res"
  shows "fixes_to lim h a s p (insert p (insert q ns)) (Suc k) (map_option (\<lambda>zs. x\<lparr>extent := base y - base x\<rparr> # y # zs) res)"
proof -
  let ?x = "x\<lparr>extent := base y - base x\<rparr>" and ?z = "x\<lparr>base := limit y, extent := lim - limit y\<rparr>"
  let ?h = "h(p := Some (as_node q ?x), q := Some (as_node (a - 28) y), a - 28 := Some (as_node r ?z))"
  let ?ns = "insert p (insert q ns)"
  have sz: "unat (a - 28) = unat a - 28" "unat (a - 28) + 28 = unat a"
    using unat_minus_28 [OF rm] rm by (auto simp: room_def)
  have 1: "fix_round lim p (heaped h a s) = Some (Inr (Inl (a - 28)), heaped ?h (a - 28) s)"
    using assms(1-10) fresh rm
    by (simp add: fix_round_def exec_bind runs is_left_more_restrictive_def not_le room_def fun_upd_twist)
  have kp: "keeps h a ?ns ?h (a - 28) {}" using sz fresh p by (auto simp: keeps_def)
  have ms: "\<forall>w\<in>insert (a - 28) ns. unat a \<le> unat w \<longrightarrow> w \<in> ?ns - {p, q}" using sz ns by auto
  have at: "?h p = Some (as_node q ?x)" "?h q = Some (as_node (a - 28) y)" using p fresh by auto
  have in_ns: "p \<in> ?ns" "q \<in> ?ns" by simp_all
  note step = yields_split [where m = "fix_from lim p" and m' = "fix_from lim (a - 28)",
      OF _ fix_from_again [OF 1] at kp ms in_ns sz(2) p(6,7,5,3,4)]
  show ?thesis
    using rest step fix_from_again [OF 1] by (cases res) (simp_all add: fixes_to_def del: fun_upd_apply)
qed

lemma fix_stuck:
  fixes s :: "'e machine"
  assumes "h p = Some (as_node q x)" "h q = Some (as_node r y)" "p \<noteq> 0" "q \<noteq> 0" "p \<noteq> q"
    and "\<not> lim \<le> base y" "\<not> kind y \<le> kind x" "\<not> limit y < lim"
  shows "fix_from lim p (heaped h a s) = None"
proof -
  let ?t = "\<lambda>n. heaped (h(p := Some (as_node q (x\<lparr>extent := n\<rparr>)))) a s"
  have "iterate (fix_round lim) p (heaped h a s) = None"
  proof (rule iterate_diverges [where I = "\<lambda>p' t. p' = p \<and> (\<exists>n. t = ?t n)"])
    have "h = h(p := Some (as_node q (x\<lparr>extent := extent x\<rparr>)))" using assms(1) by (simp add: fun_upd_idem)
    then show "p = p \<and> (\<exists>n. heaped h a s = ?t n)" by metis
  next
    fix p' :: u32 and t :: "'e machine"
    assume "p' = p \<and> (\<exists>n. t = ?t n)"
    then obtain n where "p' = p" and t: "t = ?t n" by blast
    then have "fix_round lim p' t = Some (Inr (Inl p), ?t (base y - base x))"
      using assms by (simp add: fix_round_def exec_bind runs is_left_more_restrictive_def not_le)
    then show "\<exists>x' t'. fix_round lim p' t = Some (Inr (Inl x'), t') \<and> x' = p \<and> (\<exists>n. t' = ?t n)" by blast
  qed
  then show ?thesis by (simp add: fix_from_def exec_bind)
qed

text \<open>A round after which only the padding is left.\<close>

lemma fixes_to_padding:
  assumes "fix_from lim p (heaped h a s) = add_padding_right p (heaped h1 a s)" and "segment h1 a p ((p, x) # ys)" and "room a 1"
    and "\<forall>w. unat a \<le> unat w \<longrightarrow> w \<notin> ns \<longrightarrow> h1 w = h w" and "insert p (addrs ys) \<subseteq> ns" and "0 < k"
  shows "fixes_to lim h a s p ns k (Some (pad x (map snd ys)))"
  unfolding fixes_to_def option.case
  by (rule yields_trans [where m = "fix_from lim p" and m' = "add_padding_right p" and j = 0, OF pad_run [OF assms(2,3)] assms(1) keeps_same [OF assms(4)]])
    (use assms(5,6) in auto)

lemma fix_from_run:
  assumes "segment h a p ((p, x) # ys)" and "room a (length ys + 1)"
  shows "fixes_to lim h a s p (insert p (addrs ys)) (length ys + 1) (fix_list lim x (map snd ys))"
  using assms
proof (induction ys arbitrary: p x h a)
  case Nil
  then have "h p = Some (as_node 0 x)" "p \<noteq> 0" by (simp_all add: segment_Cons segment_Nil)
  from fixes_to_padding [where ns = "{p}" and k = 1, OF fix_last [where h = h and p = p and x = x, OF this] Nil.prems(1)] Nil.prems(2)
  show ?case by simp
next
  case (Cons qy ys)
  obtain q y where qy [simp]: "qy = (q, y)" by (cases qy)
  from Cons.prems(1) obtain r where h: "h p = Some (as_node q x)" "h q = Some (as_node r y)" "p \<noteq> 0" "q \<noteq> 0" "p \<noteq> q"
    "unat a \<le> unat p" "unat a \<le> unat q" and fr: "p \<notin> addrs ys" "q \<notin> addrs ys" and rest: "segment h a r ys"
    by (auto simp: segment_Cons)
  have rm: "room a (length ys + 1)" "room a (Suc (length ys + 1))" "room a 1"
    using Cons.prems(2) by (auto intro: room_mono)
  consider (apart) "lim \<le> base y"
    | (covered) "\<not> lim \<le> base y" "kind y \<le> kind x" "limit y \<le> lim"
    | (trim) "\<not> lim \<le> base y" "kind y \<le> kind x" "\<not> limit y \<le> lim"
    | (split) "\<not> lim \<le> base y" "\<not> kind y \<le> kind x" "limit y < lim"
    | (stuck) "\<not> lim \<le> base y" "\<not> kind y \<le> kind x" "\<not> limit y < lim" by blast
  then show ?case
  proof cases
    case apart
    from fixes_to_padding [where ns = "insert p (addrs (qy # ys))" and k = "length (qy # ys) + 1",
      OF fix_apart [where h = h and p = p and q = q and x = x and r = r and y = y, OF h(1-4) this] Cons.prems(1) rm(3)] apart show ?thesis by (simp del: pad.simps)
  next
    case covered
    have "segment (h(p := Some (as_node r x))) a p ((p, x) # ys)" using fr h rest by (simp add: segment_Cons segment_frame)
    from fix_covered [where h = h and p = p and q = q and x = x and r = r and y = y, OF h(1-4) covered Cons.IH [OF this rm(1)]] covered show ?thesis by simp
  next
    case trim
    have "segment (h(q := Some (as_node r (y\<lparr>extent := extent y - (lim - base y), base := lim\<rparr>)))) a p
        ((p, x) # (q, y\<lparr>extent := extent y - (lim - base y), base := lim\<rparr>) # ys)"
      using fr h rest by (simp add: segment_Cons segment_frame)
    from fixes_to_padding [where ns = "insert p (addrs (qy # ys))" and k = "length (qy # ys) + 1",
      OF fix_trim [where h = h and p = p and q = q and x = x and r = r and y = y, OF h(1-5) trim] this rm(3)] trim show ?thesis by (simp del: pad.simps)
  next
    case split
    have fresh: "a - 28 \<noteq> p" "a - 28 \<noteq> q" "p \<noteq> a - 28" "q \<noteq> a - 28" "a - 28 \<notin> addrs ys" "a - 28 \<noteq> 0"
      using segment_fresh [OF Cons.prems(1) rm(2)] room_nonzero [OF rm(2)] by auto
    have "segment (h(p := Some (as_node q (x\<lparr>extent := base y - base x\<rparr>)), q := Some (as_node (a - 28) y),
        a - 28 := Some (as_node r (x\<lparr>base := limit y, extent := lim - limit y\<rparr>)))) (a - 28) (a - 28)
        ((a - 28, x\<lparr>base := limit y, extent := lim - limit y\<rparr>) # ys)"
      using fr h fresh segment_low [OF rest, of "a - 28"] unat_minus_28 [OF rm(2)] by (simp add: segment_Cons segment_frame)
    from fix_split [where h = h and p = p and q = q and x = x and r = r and y = y, OF h split rm(2) fresh(1,2) fr Cons.IH [OF this room_Suc [OF rm(2)]]] split show ?thesis by simp
  next
    case stuck
    from fix_stuck [where h = h and p = p and q = q and x = x and r = r and y = y, OF h(1-5) this] stuck show ?thesis by (simp add: fixes_to_def)
  qed
qed

lemma fix_right_run:
  assumes seg: "segment h a p ((p, x) # ys)" and "room a (length ys + 1)"
  shows "case fix_list (limit x) x (map snd ys) of
      None \<Rightarrow> fix_right p (heaped h a s) = None
    | Some rs \<Rightarrow> yields (fix_right p) h a s p (insert p (addrs ys)) (length ys + 1) rs"
proof -
  from seg obtain r where "h p = Some (as_node r x)" "p \<noteq> 0" by (auto simp: segment_Cons)
  then have "fix_right p (heaped h a s) = fix_from (limit x) p (heaped h a s)"
    by (simp add: fix_right_from exec_bind node_run)
  then show ?thesis
    using fix_from_run [OF assms, of "limit x" s] by (simp add: fixes_to_def yields_def split: option.splits)
qed

text \<open>Two neighbours that touch and differ in kind are left as they are.\<close>

lemma fix_right_settled:
  assumes "h p = Some (as_node q x)" and "h q = Some (as_node r y)" and "p \<noteq> 0" "q \<noteq> 0" "p \<noteq> q"
    and "limit x = base y" and "kind x \<noteq> kind y"
  shows "fix_right p (heaped h a s) = Some (Inr (), heaped h a s)"
proof -
  have 1: "fix_round (limit x) p (heaped h a s) = Some (Inr (Inr p), heaped h a s)"
    using assms by (simp add: fix_round_def exec_bind runs)
  have "h(q \<mapsto> as_node r y) = h" using assms(2) by (simp add: fun_upd_idem)
  then have "add_padding_right p (heaped h a s) = Some (Inr (), heaped h a s)"
    using assms by (simp add: add_padding_right_def Let_def exec_bind runs fun_upd_idem)
  with fix_from_done [OF 1] assms show ?thesis
    by (simp add: fix_right_from exec_bind node_run)
qed

text \<open>The place: the last two nodes before it and the first one behind it.\<close>

definition last_addr :: "(u32 \<times> region) list \<Rightarrow> u32 \<Rightarrow> u32" where
  "last_addr xs d = (if xs = [] then d else fst (last xs))"

definition first_addr :: "(u32 \<times> region) list \<Rightarrow> u32" where
  "first_addr xs = (case xs of [] \<Rightarrow> 0 | x # _ \<Rightarrow> fst x)"

abbreviation before :: "u64 \<Rightarrow> u32 \<times> region \<Rightarrow> bool" where
  "before b \<equiv> \<lambda>x. base (snd x) < b"

lemma find_place_run:
  assumes "lseg h mem_regions xs 0"
  shows "find_place b mem_regions (heaped h a s) = Some (Inr
    (last_addr (butlast (takeWhile (before b) xs)) 0, last_addr (takeWhile (before b) xs) 0,
     first_addr (dropWhile (before b) xs)), heaped h a s)"
proof -
  let ?body = "\<lambda>(prev2, prev, current).
       if current = 0 then ret (Inr (prev2, prev, current))
       else
         bind (node current) (\<lambda>c.
         if mr_base_addr c < b then ret (Inl (prev, current, mr_next c))
         else ret (Inr (prev2, prev, current)))"
  have "iterate ?body (p2, p1, c) (heaped h a s) = Some (Inr
    (let pre = takeWhile (before b) xs in
     (if pre = [] then p2 else last_addr (butlast pre) p1, last_addr pre p1, first_addr (dropWhile (before b) xs))),
     heaped h a s)" if "lseg h c xs 0" for p2 p1 c
    using that
  proof (induction xs arbitrary: p2 p1 c)
    case Nil
    then show ?case by (subst iterate_unfold) (simp add: exec_bind exec_basic last_addr_def first_addr_def)
  next
    case (Cons x xs)
    then obtain r where c: "c = fst x" "c \<noteq> 0" "h c = Some (as_node r (snd x))" and r: "lseg h r xs 0" by auto
    show ?case
    proof (cases "base (snd x) < b")
      case True
      then have "iterate ?body (p2, p1, c) (heaped h a s) = iterate ?body (p1, c, r) (heaped h a s)"
        using c by (subst iterate_unfold) (simp add: exec_bind runs)
      with Cons.IH [OF r, of p1 c] True c show ?thesis
        by (auto simp: Let_def last_addr_def)
    next
      case False
      with c show ?thesis
        by (subst iterate_unfold) (simp add: exec_bind runs last_addr_def first_addr_def)
    qed
  qed
  from this [OF assms, of 0 0] show ?thesis
    by (simp add: find_place_def Let_def last_addr_def)
qed

lemma first_addr_lseg: "lseg h p xs 0 \<Longrightarrow> first_addr xs = p"
  by (cases xs) (auto simp: first_addr_def)

text \<open>
  The two regions before the place touch and differ in kind, so the repair of the first of
  them has nothing to do.
\<close>

fun settled_rev :: "region list \<Rightarrow> bool" where
  "settled_rev (p # p2 # ps) \<longleftrightarrow> limit p2 = base p \<and> kind p2 \<noteq> kind p"
| "settled_rev _ \<longleftrightarrow> True"

definition settled_at :: "u64 \<Rightarrow> region list \<Rightarrow> bool" where
  "settled_at b xs \<longleftrightarrow> settled_rev (rev (takeWhile (\<lambda>x. base x < b) xs))"

lemma segment_append:
  "segment h a p (xs @ ys) \<longleftrightarrow>
     (\<exists>r. lseg h p xs r \<and> segment h a r ys) \<and> distinct (map fst xs) \<and> addrs xs \<inter> addrs ys = {} \<and>
     (\<forall>q\<in>addrs xs. unat a \<le> unat q)"
  by (auto simp: segment_def lseg_append)

text \<open>
  \<open>delivers m h a s k rs\<close>: \<open>m\<close> returns the head of a list of the regions \<open>rs\<close>, with at most \<open>k\<close>
  nodes allocated.
\<close>

definition delivers :: "('e machine, u32) cmd \<Rightarrow> region_store \<Rightarrow> u32 \<Rightarrow> 'e machine \<Rightarrow> nat \<Rightarrow> region list \<Rightarrow> bool" where
  "delivers m h a s k rs \<longleftrightarrow> (\<exists>head h' a' zs. m (heaped h a s) = Some (Inr head, heaped h' a' s)
     \<and> segment h' a' head zs \<and> map snd zs = rs \<and> unat a' \<le> unat a \<and> unat a \<le> unat a' + 28 * k)"

lemma deliversI:
  assumes "m (heaped h a s) = Some (Inr head, heaped h' a' s)" and "segment h' a' head zs"
    and "map snd zs = rs" and "unat a' \<le> unat a" and "unat a \<le> unat a' + 28 * k"
  shows "delivers m h a s k rs"
  using assms unfolding delivers_def by blast

lemma insert_sorted_front:
  assumes seg: "segment h a mem_regions xs" and n: "h q = Some (as_node z r)" "q \<notin> addrs xs" "q \<noteq> 0" "unat a \<le> unat q"
    and r: "extent r \<noteq> 0" and pre: "takeWhile (before (base r)) xs = []" and rm: "room a (length xs + 1)"
  shows "case insert_list r (map snd xs) of
      None \<Rightarrow> insert_sorted mem_regions q (heaped h a s) = None
    | Some rs \<Rightarrow> delivers (insert_sorted mem_regions q) h a s (length xs + 1) rs"
proof -
  have pre': "takeWhile (\<lambda>x. base x < base r) (map snd xs) = []"
    using pre by (simp add: takeWhile_map o_def)
  have place: "find_place (base r) mem_regions (heaped h a s) = Some (Inr (0, 0, mem_regions), heaped h a s)"
    using seg find_place_run [of h mem_regions xs "base r" a s] pre
      takeWhile_dropWhile_id [of "before (base r)" xs]
    by (auto simp: segment_def last_addr_def first_addr_lseg)
  let ?h = "h(q := Some (as_node mem_regions r))"
  have seg': "segment ?h a q ((q, r) # xs)" using seg n by (simp add: segment_Cons segment_frame)
  show ?thesis
  proof (cases "mem_regions = 0")
    case True
    then have xs: "xs = []" using seg by (auto simp: segment_def dest: lseg_Nil_0)
    have "insert_sorted mem_regions q (heaped h a s) = Some (Inr q, heaped ?h a s)"
      using n r True place by (simp add: insert_sorted_def exec_bind runs)
    with seg' xs r show ?thesis
      by (auto simp: insert_list_def intro!: deliversI)
  next
    case False
    have run: "insert_sorted mem_regions q (heaped h a s) = bind (fix_right q) (\<lambda>_. ret q) (heaped ?h a s)"
      using n r False place by (simp add: insert_sorted_def exec_bind [of "node q"] exec_bind [of "find_place _ _"]
        exec_bind [of "update_node _ _"] runs)
    have list: "insert_list r (map snd xs) = fix_list (limit r) r (map snd xs)"
      using r pre' by (simp add: insert_list_def)
    show ?thesis
    proof (cases "fix_list (limit r) r (map snd xs)")
      case None
      with fix_right_run [OF seg' rm, of s] show ?thesis by (simp add: run list exec_bind)
    next
      case (Some rs)
      with fix_right_run [OF seg' rm, of s] obtain h' a' zs where
        "fix_right q (heaped ?h a s) = Some (Inr (), heaped h' a' s)" "segment h' a' q zs" "map snd zs = rs"
        "keeps ?h a (insert q (addrs xs)) h' a' (addrs zs)" "unat a \<le> unat a' + 28 * (length xs + 1)"
        by (auto simp: yields_def)
      then show ?thesis unfolding list Some
        by (auto simp: run exec_bind exec_basic keeps_def intro!: deliversI)
    qed
  qed
qed

text \<open>The region two before the place needs no repair, and what is in front of the repaired part stays.\<close>

lemma fix_right_before:
  assumes "lseg h mem_regions us p" and "h p = Some (as_node q x)" and "p \<noteq> 0" "p \<notin> addrs us"
    and "settled_rev (rev (map snd us @ [x]))"
  shows "fix_right (last_addr us 0) (heaped h a s) = Some (Inr (), heaped h a s)"
proof (cases us rule: rev_cases)
  case Nil
  then show ?thesis by (simp add: last_addr_def fix_right_def exec_basic)
next
  case (snoc vs py)
  obtain w y where py: "py = (w, y)" by (cases py)
  have "limit y = base x" "kind y \<noteq> kind x" using assms(5) by (simp_all add: snoc py)
  moreover have "h w = Some (as_node p y)" "w \<noteq> 0" using assms(1) by (simp_all add: snoc py lseg_append)
  moreover have "w \<noteq> p" using assms(4) by (auto simp: snoc py)
  ultimately show ?thesis
    using fix_right_settled [of h w p y q x a s] assms(2,3) by (simp add: snoc py last_addr_def)
qed

lemma segment_resume:
  assumes us: "lseg h mem_regions us p" "distinct (map fst us)" "\<forall>w\<in>addrs us. unat a \<le> unat w"
    and out: "\<And>w. w \<in> addrs us \<Longrightarrow> w \<notin> ns" and kp: "keeps h a ns h' a' (addrs zs)" and zs: "segment h' a' p zs"
  shows "segment h' a' mem_regions (us @ zs)"
proof -
  have "h' w = h w" if "w \<in> addrs us" for w
    using kp us(3) that out [OF that] unfolding keeps_def by blast
  then have "lseg h' mem_regions us p" using us(1) lseg_cong [of us h' h] by blast
  moreover have "addrs us \<inter> addrs zs = {}" using out kp us(3) unfolding keeps_def by blast
  ultimately show ?thesis using zs us(2,3) kp by (auto simp: segment_append keeps_def intro: le_trans)
qed

lemma insert_sorted_behind:
  assumes seg: "segment h a mem_regions xs" and n: "h q = Some (as_node z r)" "q \<notin> addrs xs" "q \<noteq> 0" "unat a \<le> unat q"
    and r: "extent r \<noteq> 0" and pre: "takeWhile (before (base r)) xs \<noteq> []" and rm: "room a (length (dropWhile (before (base r)) xs) + 2)"
    and settled: "settled_at (base r) (map snd xs)"
  shows "case insert_list r (map snd xs) of
      None \<Rightarrow> insert_sorted mem_regions q (heaped h a s) = None
    | Some rs \<Rightarrow> delivers (insert_sorted mem_regions q) h a s (length (dropWhile (before (base r)) xs) + 2) rs"
proof -
  define post where "post = dropWhile (before (base r)) xs"
  obtain us p x where us: "takeWhile (before (base r)) xs = us @ [(p, x)]"
    using pre by (metis rev_exhaust surj_pair)
  have xs: "xs = us @ (p, x) # post"
    using takeWhile_dropWhile_id [of "before (base r)" xs] us by (simp add: post_def)
  have us': "takeWhile (\<lambda>x. base x < base r) (map snd xs) = map snd us @ [x]"
    using us by (simp add: takeWhile_map o_def)
  have post': "dropWhile (\<lambda>x. base x < base r) (map snd xs) = map snd post"
    by (simp add: post_def dropWhile_map o_def)
  from seg obtain p' where p': "lseg h mem_regions us p'" and sp: "segment h a p' ((p, x) # post)"
    and dj: "distinct (map fst us)" "addrs us \<inter> addrs ((p, x) # post) = {}" "\<forall>q\<in>addrs us. unat a \<le> unat q"
    unfolding xs segment_append by blast
  from sp obtain c where hp: "h p = Some (as_node c x)" and sc: "segment h a c post" and p: "p' = p" "p \<noteq> 0"
    and np: "p \<notin> addrs post" "unat a \<le> unat p" unfolding segment_Cons by blast
  have c: "first_addr post = c" using sc first_addr_lseg [of h c post] by (simp add: segment_def)
  have pq: "p \<noteq> q" "q \<noteq> p" "q \<notin> addrs us" "q \<notin> addrs post" using n(2) by (auto simp: xs)
  have m: "mem_regions \<noteq> 0 \<or> us = []" using p' p by (cases us) auto
  let ?h = "h(q := Some (as_node c r), p := Some (as_node q x))"
  have us_h: "lseg ?h mem_regions us p"
    using p' p dj pq by (simp add: lseg_frame)
  have seg': "segment ?h a p ((p, x) # (q, r) # post)"
    using sc np pq n p by (simp add: segment_Cons segment_frame)
  have place: "find_place (base r) mem_regions (heaped h a s) = Some (Inr (last_addr us 0, p, c), heaped h a s)"
    using seg find_place_run [of h mem_regions xs "base r" a s]
    by (simp add: segment_def us last_addr_def c flip: post_def)
  have "settled_rev (rev (map snd us @ [x]))" using settled us' by (simp add: settled_at_def)
  then have settle: "fix_right (last_addr us 0) (heaped ?h a s) = Some (Inr (), heaped ?h a s)"
    using dj p by (intro fix_right_before [OF us_h, of q x]) auto
  have run: "insert_sorted mem_regions q (heaped h a s) = bind (fix_right p) (\<lambda>_. ret mem_regions) (heaped ?h a s)"
    using n r place p hp pq settle
    by (simp add: insert_sorted_def exec_bind [of "node q"] exec_bind [of "find_place _ _"]
      exec_bind [of "update_node _ _"] exec_bind [of "fix_right (last_addr _ _)"] runs)
  have list: "insert_list r (map snd xs) = map_option (append (map snd us)) (fix_list (limit x) x (map snd ((q, r) # post)))"
    using r us' post' by (simp add: insert_list_def rev_map)
  have rm': "room a (length ((q, r) # post) + 1)" using rm by (simp flip: post_def)
  show ?thesis
  proof (cases "fix_list (limit x) x (map snd ((q, r) # post))")
    case None
    with fix_right_run [OF seg' rm', of s] show ?thesis by (simp add: run list exec_bind del: fun_upd_apply)
  next
    case (Some rs)
    with fix_right_run [OF seg' rm', of s] obtain h' a' zs where
      res: "fix_right p (heaped ?h a s) = Some (Inr (), heaped h' a' s)" "segment h' a' p zs" "map snd zs = rs"
      and kp: "keeps ?h a (insert p (addrs ((q, r) # post))) h' a' (addrs zs)"
      and le: "unat a \<le> unat a' + 28 * (length ((q, r) # post) + 1)"
      by (auto simp: yields_def)
    have "segment h' a' mem_regions (us @ zs)"
      by (rule segment_resume [OF us_h dj(1,3) _ kp res(2)]) (use dj pq p in auto)
    moreover have "unat a \<le> unat a' + 28 * (length (dropWhile (before (base r)) xs) + 2)" using le by (simp flip: post_def)
    moreover have "unat a' \<le> unat a" using kp by (simp add: keeps_def)
    moreover have "insert_sorted mem_regions q (heaped h a s) = Some (Inr mem_regions, heaped h' a' s)"
      by (simp add: run exec_bind res(1) exec_basic)
    moreover have "map snd (us @ zs) = map snd us @ rs" using res(3) by simp
    ultimately show ?thesis unfolding list Some by (simp add: deliversI)
  qed
qed

lemma delivers_mono: "delivers m h a s k rs \<Longrightarrow> k \<le> l \<Longrightarrow> delivers m h a s l rs"
  unfolding delivers_def by (elim exE conjE, intro exI conjI) (assumption+, simp)

text \<open>Together: inserting into the linked list is inserting into the list of its regions.\<close>

lemma insert_sorted_run:
  assumes "segment h a mem_regions xs" and "h q = Some (as_node z r)" "q \<notin> addrs xs" "q \<noteq> 0" "unat a \<le> unat q"
    and "settled_at (base r) (map snd xs)" and "room a (length (dropWhile (before (base r)) xs) + 2)"
  shows "case insert_list r (map snd xs) of
      None \<Rightarrow> insert_sorted mem_regions q (heaped h a s) = None
    | Some rs \<Rightarrow> delivers (insert_sorted mem_regions q) h a s (length (dropWhile (before (base r)) xs) + 2) rs"
proof (cases "extent r = 0")
  case True
  then have "insert_sorted mem_regions q (heaped h a s) = Some (Inr mem_regions, heaped h a s)"
    using assms(2,4) by (simp add: insert_sorted_def exec_bind runs)
  with True assms(1) show ?thesis by (auto simp: insert_list_def intro!: deliversI)
next
  case False
  show ?thesis
  proof (cases "takeWhile (before (base r)) xs = []")
    case True
    then have post: "dropWhile (before (base r)) xs = xs"
      using takeWhile_dropWhile_id [of "before (base r)" xs] by simp
    have "room a (length xs + 1)" using assms(7) by (auto simp: post intro: room_mono)
    from insert_sorted_front [OF assms(1-5) False True this, of s] show ?thesis
      unfolding post by (auto simp: delivers_mono split: option.splits)
  next
    case pre: False
    from insert_sorted_behind [OF assms(1-5) False pre assms(7,6), of s] show ?thesis .
  qed
qed

section \<open>On machine states\<close>

definition regions_at :: "'e machine \<Rightarrow> u32 \<Rightarrow> region list \<Rightarrow> bool" where
  "regions_at s head rs \<longleftrightarrow>
     (\<exists>xs. segment (region_heap s) (static_stack_top s) head xs \<and> map snd xs = rs)"

definition node_room :: "'e machine \<Rightarrow> nat \<Rightarrow> bool" where
  "node_room s k \<longleftrightarrow> room (static_stack_top s) k"

text \<open>What insertions change of the state: the nodes and the static stack, by at most \<open>k\<close> nodes.\<close>

definition only_nodes :: "nat \<Rightarrow> 'e machine \<Rightarrow> 'e machine \<Rightarrow> bool" where
  "only_nodes k s t \<longleftrightarrow> t = heaped (region_heap t) (static_stack_top t) s
     \<and> unat (static_stack_top t) \<le> unat (static_stack_top s)
     \<and> unat (static_stack_top s) \<le> unat (static_stack_top t) + 28 * k"

lemma only_nodes_refl: "only_nodes k s s"
  by (simp add: only_nodes_def heaped_id)

lemma only_nodesD:
  assumes "only_nodes k s t"
  shows "unat (static_stack_top t) \<le> unat (static_stack_top s)"
    "unat (static_stack_top s) \<le> unat (static_stack_top t) + 28 * k"
    "t = heaped (region_heap t) (static_stack_top t) s"
  using assms by (simp_all add: only_nodes_def)

lemma only_nodes_heaped:
  "unat a \<le> unat (static_stack_top s) \<Longrightarrow> unat (static_stack_top s) \<le> unat a + 28 * k \<Longrightarrow> only_nodes k s (heaped h a s)"
  by (simp add: only_nodes_def)

lemma only_nodes_trans:
  assumes st: "only_nodes k s t" and tu: "only_nodes l t u"
  shows "only_nodes (k + l) s u"
proof -
  have "u = heaped (region_heap u) (static_stack_top u) (heaped (region_heap t) (static_stack_top t) s)"
    using only_nodesD(3) [OF st] only_nodesD(3) [OF tu] by (rule subst)
  then have "u = heaped (region_heap u) (static_stack_top u) s" by simp
  then show ?thesis
    using only_nodesD(1,2) [OF st] only_nodesD(1,2) [OF tu] unfolding only_nodes_def
    by (intro conjI) (assumption, simp_all)
qed

lemma only_nodes_mono: "only_nodes k s t \<Longrightarrow> k \<le> l \<Longrightarrow> only_nodes l s t"
  unfolding only_nodes_def by (elim conjE, intro conjI) (assumption, assumption, simp)

lemma only_nodes_room: "only_nodes k s t \<Longrightarrow> node_room s (k + l) \<Longrightarrow> node_room t l"
  using only_nodesD(2) [of k s t] by (simp add: node_room_def room_def)

lemma only_nodes_frame:
  assumes "only_nodes k s t"
  shows "mem t = mem s" "ext_stack_top t = ext_stack_top s" "int10_log t = int10_log s" "bios_env t = bios_env s"
  using only_nodesD(3) [OF assms] heaped_simps(4-7) by metis+

text \<open>The nodes one insertion may take: its own and one for every region from the place on.\<close>

definition nodes_needed :: "region \<Rightarrow> region list \<Rightarrow> nat" where
  "nodes_needed r xs = length (dropWhile (\<lambda>x. base x < base r) xs) + 3"

text \<open>The idiom of every caller: allocate a node, fill it in, insert it.\<close>

definition add_region :: "u32 \<Rightarrow> region \<Rightarrow> ('e machine, u32) cmd" where
  "add_region head r = bind (static_alloc SIZEOF_MEMREGION) (\<lambda>q. bind (write_node q (as_node 0 r)) (\<lambda>_. insert_sorted head q))"

lemma add_region_run:
  assumes "regions_at s head xs" and "node_room s (nodes_needed r xs)" and "settled_at (base r) xs"
  shows "case insert_list r xs of
      None \<Rightarrow> add_region head r s = None
    | Some rs \<Rightarrow> \<exists>head' t. add_region head r s
          = Some (Inr head', t) \<and> regions_at t head' rs \<and> only_nodes (nodes_needed r xs) s t"
proof -
  let ?a = "static_stack_top s" and ?h = "region_heap s"
  let ?h1 = "?h(?a - 28 := Some (as_node 0 r))"
  from assms(1) obtain us where us: "segment ?h ?a head us" "map snd us = xs" by (auto simp: regions_at_def)
  have need: "nodes_needed r xs = Suc (length (dropWhile (before (base r)) us) + 2)"
    using us(2) by (auto simp: nodes_needed_def dropWhile_map o_def)
  then have rm: "room ?a (Suc (length (dropWhile (before (base r)) us) + 2))"
    using assms(2) by (simp add: node_room_def)
  have fresh: "?a - 28 \<notin> addrs us" "?a - 28 \<noteq> 0"
    using segment_fresh [OF us(1) rm] room_nonzero [OF rm] by simp_all
  have sz: "unat (?a - 28) + 28 = unat ?a" "unat (?a - 28) \<le> unat ?a"
    using unat_minus_28 [OF rm] rm by (auto simp: room_def)
  have "static_alloc SIZEOF_MEMREGION (heaped ?h ?a s) = Some (Inr (?a - 28), heaped ?h (?a - 28) s)"
    using rm by (intro alloc_run) (simp add: room_def)
  then have run: "add_region head r s
      = insert_sorted head (?a - 28) (heaped ?h1 (?a - 28) s)"
    by (simp add: add_region_def heaped_id exec_bind write_node_run)
  have seg: "segment ?h1 (?a - 28) head us"
    using segment_low [OF us(1), of "?a - 28"] sz fresh by (simp add: segment_frame)
  have settled: "settled_at (base r) (map snd us)" using assms(3) us(2) by simp
  note ins = insert_sorted_run [OF seg _ fresh(1) fresh(2) le_refl settled room_Suc [OF rm], of 0 s]
  show ?thesis
  proof (cases "insert_list r xs")
    case None
    with ins us(2) show ?thesis by (simp add: run)
  next
    case (Some rs)
    with ins us(2) obtain head' h' a' zs where res: "insert_sorted head (?a - 28) (heaped ?h1 (?a - 28) s) = Some (Inr head', heaped h' a' s)"
      "segment h' a' head' zs" "map snd zs = rs" "unat a' \<le> unat (?a - 28)" "unat (?a - 28) \<le> unat a' + 28 * (length (dropWhile (before (base r)) us) + 2)"
      by (auto simp: delivers_def)
    have "regions_at (heaped h' a' s) head' rs" using res by (auto simp: regions_at_def)
    moreover have "only_nodes (nodes_needed r xs) s (heaped h' a' s)"
      using res(4,5) sz by (auto simp: only_nodes_def need)
    ultimately show ?thesis using Some by (auto simp: run res(1))
  qed
qed

end
