(* ===== verification/Region_Map.thy ===== *)
theory Region_Map
  imports Regions
begin

text \<open>
  What the insertion of \<^verbatim>\<open>stage1/sysinfo_impl.c\<close> makes of a memory map, on lists of regions:
  a tiled list (every region ends where the next one begins) stays tiled when a region is
  appended behind it, put under its low end or put strictly inside one of its regions, and
  \<open>kind_at\<close> says what becomes of every address. The two insertions the algorithm gets wrong
  are stated as well.
\<close>

section \<open>Regions as intervals\<close>

text \<open>Not empty and not wrapping around the end of the address space.\<close>

definition proper :: "region \<Rightarrow> bool" where
  "proper r \<longleftrightarrow> base r < limit r"

definition covers :: "u64 \<Rightarrow> region \<Rightarrow> bool" where
  "covers a r \<longleftrightarrow> base r \<le> a \<and> a < limit r"

definition kind_at :: "region list \<Rightarrow> u64 \<Rightarrow> sysinfo_mem_type_t option" where
  "kind_at rs a = map_option kind (find (covers a) rs)"

lemma kind_at_simps [simp]:
  "kind_at [] a = None"
  "kind_at (r # rs) a = (if covers a r then Some (kind r) else kind_at rs a)"
  by (simp_all add: kind_at_def)

lemma kind_at_append: "kind_at (xs @ ys) a = (case kind_at xs a of None \<Rightarrow> kind_at ys a | Some k \<Rightarrow> Some k)"
  by (induction xs) simp_all

lemma extent_eq: "extent r = limit r - base r"
  by (simp add: limit_def)

lemma proper_extent: "proper r \<Longrightarrow> extent r \<noteq> 0"
  by (auto simp: proper_def limit_def)

text \<open>The limits of the regions that the code computes.\<close>

lemma limit_simps [simp]:
  "limit (reserved_gap b e) = e"
  "limit (x\<lparr>extent := e - base x\<rparr>) = e"
  "limit (x\<lparr>base := b, extent := e - b\<rparr>) = e"
  "limit (y\<lparr>extent := extent y + (base y - b), base := b\<rparr>) = limit y"
  "limit (y\<lparr>extent := extent y - (b - base y), base := b\<rparr>) = limit y"
  by (simp_all add: limit_def reserved_gap_def)

lemma gap_simps [simp]:
  "base (reserved_gap b e) = b" "kind (reserved_gap b e) = SYSINFO_MT_RESERVED"
  by (simp_all add: reserved_gap_def)

section \<open>Tiled lists\<close>

text \<open>
  Each region ends where the next begins. Two reserved neighbours are possible, two
  neighbours of any other kind are not.
\<close>

fun tiled :: "region list \<Rightarrow> bool" where
  "tiled [] \<longleftrightarrow> True"
| "tiled [x] \<longleftrightarrow> proper x"
| "tiled (x # y # ys) \<longleftrightarrow> proper x \<and> limit x = base y \<and> tiled (y # ys)"

fun varied :: "region list \<Rightarrow> bool" where
  "varied (x # y # ys) \<longleftrightarrow> (kind x = kind y \<longrightarrow> kind x = SYSINFO_MT_RESERVED) \<and> varied (y # ys)"
| "varied _ \<longleftrightarrow> True"

definition memory_layout :: "region list \<Rightarrow> bool" where
  "memory_layout xs \<longleftrightarrow> tiled xs \<and> varied xs"

lemma tiled_Cons: "tiled (x # xs) \<longleftrightarrow> proper x \<and> tiled xs \<and> (xs \<noteq> [] \<longrightarrow> limit x = base (hd xs))"
  by (cases xs) auto

lemma varied_Cons:
  "varied (x # xs) \<longleftrightarrow> varied xs \<and> (xs \<noteq> [] \<longrightarrow> kind x = kind (hd xs) \<longrightarrow> kind x = SYSINFO_MT_RESERVED)"
  by (cases xs) auto

lemma tiled_append:
  "tiled (xs @ ys) \<longleftrightarrow> tiled xs \<and> tiled ys \<and> (xs \<noteq> [] \<longrightarrow> ys \<noteq> [] \<longrightarrow> limit (last xs) = base (hd ys))"
  by (induction xs) (auto simp: tiled_Cons)

lemma varied_append:
  "varied (xs @ ys) \<longleftrightarrow> varied xs \<and> varied ys \<and>
     (xs \<noteq> [] \<longrightarrow> ys \<noteq> [] \<longrightarrow> kind (last xs) = kind (hd ys) \<longrightarrow> kind (last xs) = SYSINFO_MT_RESERVED)"
  by (induction xs) (auto simp: varied_Cons)

lemma tiled_ends: "tiled xs \<Longrightarrow> xs \<noteq> [] \<Longrightarrow> base (hd xs) < limit (last xs)"
  by (induction xs) (auto simp: tiled_Cons proper_def dest: order_less_trans)

lemma tiled_bounds:
  "tiled xs \<Longrightarrow> x \<in> set xs \<Longrightarrow> base (hd xs) \<le> base x \<and> limit x \<le> limit (last xs) \<and> base x < limit x"
proof (induction xs)
  case (Cons y ys)
  then show ?case using tiled_ends [of "y # ys"] tiled_ends [of ys] by (fastforce simp: tiled_Cons proper_def)
qed simp

text \<open>A tiled list covers exactly the addresses from its first base to its last limit.\<close>

lemma tiled_kind_at:
  "tiled xs \<Longrightarrow> xs \<noteq> [] \<Longrightarrow> kind_at xs a \<noteq> None \<longleftrightarrow> base (hd xs) \<le> a \<and> a < limit (last xs)"
proof (induction xs)
  case (Cons x xs)
  show ?case
  proof (cases "xs = []")
    case True
    then show ?thesis by (simp add: covers_def)
  next
    case False
    then have "base (hd xs) < limit (last xs)"
      using tiled_ends [of xs] Cons.prems(1) by (simp add: tiled_Cons)
    with Cons False show ?thesis by (auto simp: tiled_Cons proper_def covers_def)
  qed
qed simp

lemma kind_at_below: "tiled xs \<Longrightarrow> xs \<noteq> [] \<Longrightarrow> a < base (hd xs) \<Longrightarrow> kind_at xs a = None"
  using tiled_kind_at [of xs a] by auto

lemma kind_at_beyond: "tiled xs \<Longrightarrow> xs \<noteq> [] \<Longrightarrow> limit (last xs) \<le> a \<Longrightarrow> kind_at xs a = None"
  using tiled_kind_at [of xs a] by auto

section \<open>Appending in ascending order\<close>

text \<open>
  What the ascending insertion keeps beside the layout: the last two regions differ in kind,
  which is what the next insertion needs of the place it goes to.
\<close>

definition growing :: "region list \<Rightarrow> bool" where
  "growing xs \<longleftrightarrow> memory_layout xs \<and> settled_rev (rev xs)"

lemma takeWhile_base_all:
  assumes "tiled xs" and "xs \<noteq> [] \<longrightarrow> limit (last xs) \<le> b"
  shows "takeWhile (\<lambda>x. base x < b) xs = xs" "dropWhile (\<lambda>x. base x < b) xs = []"
proof -
  have "base x < b" if "x \<in> set xs" for x
    using tiled_bounds [OF assms(1) that] assms(2) that by (cases xs) auto
  then show "takeWhile (\<lambda>x. base x < b) xs = xs" "dropWhile (\<lambda>x. base x < b) xs = []"
    by (simp_all add: takeWhile_eq_all_conv)
qed

lemma insert_behind:
  assumes "tiled (us @ [x])" and "limit x \<le> base r" and "proper r"
  shows "insert_list r (us @ [x]) = Some (us @ pad x [r])"
  using takeWhile_base_all [OF assms(1), of "base r"] assms(2) proper_extent [OF assms(3)]
  by (simp add: insert_list_def)

lemma insert_first: "proper r \<Longrightarrow> insert_list r [] = Some [r]"
  using proper_extent [of r] by (simp add: insert_list_def)

lemma growing_settled:
  assumes "growing xs" and "xs \<noteq> [] \<longrightarrow> limit (last xs) \<le> b"
  shows "settled_at b xs"
proof -
  have "takeWhile (\<lambda>x. base x < b) xs = xs"
    using assms by (intro takeWhile_base_all(1)) (simp_all add: growing_def memory_layout_def)
  with assms(1) show ?thesis by (simp only: settled_at_def growing_def)
qed

lemma settled_rev_snoc2: "settled_rev (rev (us @ [x, y])) \<longleftrightarrow> limit x = base y \<and> kind x \<noteq> kind y"
  by simp

lemma settled_rev_same:
  "base x' = base x \<Longrightarrow> kind x' = kind x \<Longrightarrow> settled_rev (rev (us @ [x'])) = settled_rev (rev (us @ [x]))"
  by (cases us rule: rev_cases) simp_all

lemma append_growing:
  assumes g: "growing (us @ [x])" and le: "limit x \<le> base r" and r: "proper r"
  shows "growing (us @ pad x [r])" and "limit (last (us @ pad x [r])) = limit r"
    and "kind (last (us @ pad x [r])) = kind r" and "base (hd (us @ pad x [r])) = base (hd (us @ [x]))"
proof -
  have x: "base x < limit x" and rr: "base r < limit r"
    using g r by (auto simp: growing_def memory_layout_def tiled_append proper_def)
  then have xr: "base x < limit r" "limit x < limit r" using le by simp_all
  have t: "tiled us" "varied us" "us \<noteq> [] \<longrightarrow> limit (last us) = base x"
    "us \<noteq> [] \<longrightarrow> kind (last us) = kind x \<longrightarrow> kind x = SYSINFO_MT_RESERVED"
    using g by (auto simp: growing_def memory_layout_def tiled_append varied_append)
  consider (merge) "kind x = kind r" | (extend) "kind x \<noteq> kind r" "kind r = SYSINFO_MT_RESERVED"
    | (gap) "kind x \<noteq> kind r" "kind r \<noteq> SYSINFO_MT_RESERVED" "limit x < base r"
    | (none) "kind x \<noteq> kind r" "kind r \<noteq> SYSINFO_MT_RESERVED" "limit x = base r"
    using le by fastforce
  then show "growing (us @ pad x [r])"
  proof cases
    case merge
    let ?x = "x\<lparr>extent := limit r - base x\<rparr>"
    have "settled_rev (rev (us @ [?x]))" using g by (subst settled_rev_same [of _ x]) (simp_all add: growing_def)
    with merge t xr show ?thesis
      by (simp add: growing_def memory_layout_def tiled_append varied_append proper_def)
  next
    case extend
    with t x xr show ?thesis
      by (simp add: growing_def memory_layout_def tiled_append varied_append proper_def)
  next
    case gap
    with t x rr show ?thesis
      by (simp add: growing_def memory_layout_def tiled_append varied_append proper_def)
  next
    case none
    with t x rr show ?thesis
      by (simp add: growing_def memory_layout_def tiled_append varied_append proper_def)
  qed
  show "limit (last (us @ pad x [r])) = limit r" "kind (last (us @ pad x [r])) = kind r"
    "base (hd (us @ pad x [r])) = base (hd (us @ [x]))"
    by (simp_all add: hd_append)
qed

text \<open>
  The gap before the new region takes the kind of its two sides when they agree and is
  reserved otherwise.
\<close>

lemma append_kind_at:
  assumes g: "growing (us @ [x])" and le: "limit x \<le> base r" and r: "proper r"
  shows "kind_at (us @ pad x [r]) a =
    (if a < limit x then kind_at (us @ [x]) a
     else if a < base r then Some (if kind x = kind r then kind x else SYSINFO_MT_RESERVED)
     else if a < limit r then Some (kind r) else None)"
proof -
  have x: "base x < limit x" and rr: "base r < limit r"
    using g r by (auto simp: growing_def memory_layout_def tiled_append proper_def)
  have us: "kind_at us a = None" if "base x \<le> a"
    using kind_at_beyond [of us a] g that
    by (cases us rule: rev_cases) (auto simp: growing_def memory_layout_def tiled_append)
  show ?thesis
    using x rr le us
    by (auto simp: kind_at_append covers_def split: option.splits)
qed

section \<open>Inserting a whole list\<close>

primrec insert_all :: "region list \<Rightarrow> region list \<Rightarrow> region list option" where
  "insert_all [] xs = Some xs"
| "insert_all (r # rs) xs = Option.bind (insert_list r xs) (insert_all rs)"

text \<open>Regions in ascending order that do not overlap, and what each address is by them.\<close>

fun ascending :: "region list \<Rightarrow> bool" where
  "ascending [] \<longleftrightarrow> True"
| "ascending [x] \<longleftrightarrow> proper x"
| "ascending (x # y # ys) \<longleftrightarrow> proper x \<and> limit x \<le> base y \<and> ascending (y # ys)"

fun map_of_regions :: "region list \<Rightarrow> u64 \<Rightarrow> sysinfo_mem_type_t option" where
  "map_of_regions [] a = None"
| "map_of_regions [x] a = (if covers a x then Some (kind x) else None)"
| "map_of_regions (x # y # ys) a =
     (if a < base x then None else if a < limit x then Some (kind x)
      else if a < base y then Some (if kind x = kind y then kind x else SYSINFO_MT_RESERVED)
      else map_of_regions (y # ys) a)"

lemma ascending_Cons: "ascending (x # xs) \<longleftrightarrow> proper x \<and> ascending xs \<and> (xs \<noteq> [] \<longrightarrow> limit x \<le> base (hd xs))"
  by (cases xs) auto

lemma map_of_regions_beyond:
  "kind x = kind x' \<Longrightarrow> limit x = limit x' \<Longrightarrow> limit x \<le> a \<Longrightarrow> proper x \<Longrightarrow> proper x' \<Longrightarrow>
   map_of_regions (x # xs) a = map_of_regions (x' # xs) a"
  by (cases xs) (auto simp: covers_def proper_def)

lemma length_pad: "length (pad x ys) \<le> length ys + 2"
  by (cases ys) simp_all

lemma pad_not_Nil [simp]: "pad x ys \<noteq> []"
  by (cases ys) simp_all

lemma growing_last_proper: "growing (us @ [x]) \<Longrightarrow> proper x"
  by (simp add: growing_def memory_layout_def tiled_append)

lemma insert_all_ascending:
  assumes "growing (us @ [x])" and "ascending (x # rs)"
  shows "\<exists>zs. insert_all rs (us @ [x]) = Some zs \<and> zs \<noteq> [] \<and> growing zs \<and> base (hd zs) = base (hd (us @ [x]))
    \<and> limit (last zs) = limit (last (x # rs)) \<and> length zs \<le> length (us @ [x]) + 2 * length rs
    \<and> (\<forall>a. kind_at zs a = (if a < limit x then kind_at (us @ [x]) a else map_of_regions (x # rs) a))"
  using assms
proof (induction rs arbitrary: us x)
  case Nil
  then have "kind_at (us @ [x]) a = None" if "limit x \<le> a" for a
    using kind_at_beyond [of "us @ [x]" a] that by (simp add: growing_def memory_layout_def)
  with Nil show ?case by (auto simp: covers_def not_less intro!: exI [of _ "us @ [x]"])
next
  case (Cons r rs)
  have le: "limit x \<le> base r" and r: "proper r" using Cons.prems(2) by (auto simp: ascending_Cons)
  obtain vs y where vy: "us @ pad x [r] = vs @ [y]" by (metis append_is_Nil_conv pad_not_Nil rev_exhaust)
  note app = append_growing [OF Cons.prems(1) le r, unfolded vy]
    and kat = append_kind_at [OF Cons.prems(1) le r, unfolded vy]
  have g: "growing (vs @ [y])" and y: "limit y = limit r" "kind y = kind r"
    and hd: "base (hd (vs @ [y])) = base (hd (us @ [x]))"
    using app by simp_all
  note py = growing_last_proper [OF g]
  have asc: "ascending (y # rs)" using Cons.prems(2) y py by (simp add: ascending_Cons)
  from Cons.IH [OF g asc] obtain zs where zs: "insert_all rs (vs @ [y]) = Some zs" "zs \<noteq> []" "growing zs"
    "base (hd zs) = base (hd (us @ [x]))" "limit (last zs) = limit (last (y # rs))"
    and len: "length zs \<le> length (vs @ [y]) + 2 * length rs"
    and kz: "\<And>a. kind_at zs a = (if a < limit y then kind_at (vs @ [y]) a else map_of_regions (y # rs) a)"
    using hd by auto
  have "insert_list r (us @ [x]) = Some (vs @ [y])"
    using insert_behind [of us x r, unfolded vy] Cons.prems(1) le r by (simp add: growing_def memory_layout_def)
  then have "insert_all (r # rs) (us @ [x]) = Some zs" using zs(1) by simp
  moreover have "limit (last zs) = limit (last (x # r # rs))" using zs(5) y by simp
  moreover have "length zs \<le> length (us @ [x]) + 2 * length (r # rs)"
    using len length_pad [of x "[r]"] arg_cong [OF vy, of length] by simp
  moreover have "kind_at zs a = (if a < limit x then kind_at (us @ [x]) a else map_of_regions (x # r # rs) a)" for a
  proof -
    have x: "base x < limit x" and rr: "base r < limit r"
      using growing_last_proper [OF Cons.prems(1)] r by (simp_all add: proper_def)
    have "map_of_regions (r # rs) a = Some (kind r)" if "base r \<le> a" "a < limit r"
      using that by (cases rs) (auto simp: covers_def)
    moreover have "map_of_regions (y # rs) a = map_of_regions (r # rs) a" if "limit r \<le> a"
      using that map_of_regions_beyond [of y r a rs] y py r by simp
    ultimately show ?thesis
      using kz [of a] kat [of a] x rr le y by (simp split: if_splits)
  qed
  ultimately show ?case using zs by auto
qed

text \<open>Starting from nothing: the map is the one the entries spell.\<close>

lemma insert_all_map:
  assumes "ascending rs" and "rs \<noteq> []"
  shows "\<exists>zs. insert_all rs [] = Some zs \<and> zs \<noteq> [] \<and> growing zs \<and> base (hd zs) = base (hd rs)
    \<and> limit (last zs) = limit (last rs) \<and> length zs \<le> 2 * length rs \<and> (\<forall>a. kind_at zs a = map_of_regions rs a)"
proof -
  obtain x xs where rs: "rs = x # xs" using assms(2) by (cases rs) auto
  have x: "proper x" using assms(1) by (simp add: rs ascending_Cons)
  then have "growing ([] @ [x])" by (simp add: growing_def memory_layout_def)
  from insert_all_ascending [OF this assms(1) [unfolded rs]] obtain zs where
    zs: "insert_all xs [x] = Some zs" "zs \<noteq> []" "growing zs" "base (hd zs) = base x"
      "limit (last zs) = limit (last rs)" "length zs \<le> 1 + 2 * length xs"
    and k: "\<And>a. kind_at zs a = (if a < limit x then kind_at [x] a else map_of_regions rs a)"
    by (auto simp: rs)
  have "map_of_regions rs a = kind_at [x] a" if "a < limit x" for a
    using that by (cases xs) (auto simp: rs covers_def)
  with k have "\<forall>a. kind_at zs a = map_of_regions rs a" by simp
  with zs x show ?thesis by (auto simp: rs insert_first)
qed

section \<open>Reserving the low end\<close>

definition low_region :: "u64 \<Rightarrow> region" where
  "low_region e = \<lparr>base = 0, extent = e, kind = SYSINFO_MT_RESERVED, volatile = False\<rparr>"

lemma low_region_simps [simp]:
  "base (low_region e) = 0" "limit (low_region e) = e" "kind (low_region e) = SYSINFO_MT_RESERVED" "extent (low_region e) = e"
  "(low_region e)\<lparr>extent := e'\<rparr> = low_region e'"
  by (simp_all add: low_region_def limit_def)

text \<open>Everything below \<open>e\<close>, and a gap between \<open>e\<close> and the first region, becomes reserved.\<close>

lemma fix_list_low:
  assumes "0 < e" and "memory_layout xs"
  shows "\<exists>zs. fix_list e (low_region e) xs = Some zs \<and> zs \<noteq> [] \<and> memory_layout zs \<and> base (hd zs) = 0
    \<and> kind (hd zs) = SYSINFO_MT_RESERVED \<and> length zs \<le> length xs + 2
    \<and> (\<forall>a. kind_at zs a = (if a < e \<or> (xs \<noteq> [] \<and> a < base (hd xs)) then Some SYSINFO_MT_RESERVED else kind_at xs a))"
  using assms(2)
proof (induction xs)
  case Nil
  with assms(1) show ?case by (auto simp: memory_layout_def proper_def covers_def)
next
  case (Cons y ys)
  have y: "base y < limit y" and ys: "memory_layout ys" "ys \<noteq> [] \<longrightarrow> limit y = base (hd ys)"
    and v: "ys \<noteq> [] \<longrightarrow> kind y = kind (hd ys) \<longrightarrow> kind y = SYSINFO_MT_RESERVED"
    using Cons.prems by (auto simp: memory_layout_def tiled_Cons varied_Cons proper_def)
  have below: "kind_at ys a = None" if "a < limit y" for a
    using that ys kind_at_below [of ys a] by (cases "ys = []") (auto simp: memory_layout_def)
  consider (merge) "e \<le> base y" "kind y = SYSINFO_MT_RESERVED"
    | (apart) "e \<le> base y" "kind y \<noteq> SYSINFO_MT_RESERVED"
    | (covered) "base y < e" "limit y \<le> e"
    | (extend) "base y < e" "e < limit y" "kind y = SYSINFO_MT_RESERVED"
    | (trim) "base y < e" "e < limit y" "kind y \<noteq> SYSINFO_MT_RESERVED" by fastforce
  then show ?case
  proof cases
    case merge
    then have "fix_list e (low_region e) (y # ys) = Some (low_region (limit y) # ys)" by simp
    with merge y ys v below assms(1) show ?thesis
      by (auto simp: memory_layout_def tiled_Cons varied_Cons proper_def covers_def not_less)
  next
    case apart
    let ?zs = "low_region e # (if e < base y then [reserved_gap e (base y)] else []) @ y # ys"
    have "fix_list e (low_region e) (y # ys) = Some ?zs" using apart by auto
    with apart y ys v below assms(1) show ?thesis
      by (auto simp: memory_layout_def tiled_Cons varied_Cons proper_def covers_def not_less)
  next
    case covered
    then have "\<not> e \<le> base y" by simp
    with covered have "fix_list e (low_region e) (y # ys) = fix_list e (low_region e) ys"
      by (simp add: RESERVED_max)
    with covered y ys Cons.IH [OF ys(1)] show ?thesis
      by (auto simp: covers_def not_less)
  next
    case extend
    then have "\<not> e \<le> base y" "\<not> limit y \<le> e" by simp_all
    with extend have "fix_list e (low_region e) (y # ys) = Some (low_region (limit y) # ys)"
      by (simp add: RESERVED_max)
    with extend y ys v below assms(1) show ?thesis
      by (auto simp: memory_layout_def tiled_Cons varied_Cons proper_def covers_def not_less)
  next
    case trim
    let ?y = "y\<lparr>extent := extent y - (e - base y), base := e\<rparr>"
    have "fix_list e (low_region e) (y # ys) = Some (low_region e # ?y # ys)"
    proof -
      have "\<not> e \<le> base y" "\<not> limit y \<le> e" using trim by simp_all
      with trim(3) show ?thesis by (simp add: RESERVED_max)
    qed
    with trim y ys v below assms(1) show ?thesis
      by (auto simp: memory_layout_def tiled_Cons varied_Cons proper_def covers_def not_less)
  qed
qed

lemma insert_low: "0 < e \<Longrightarrow> insert_list (low_region e) xs = fix_list e (low_region e) xs"
  by (cases xs) (simp_all add: insert_list_def word_gt_0)

lemma settled_at_0: "settled_at 0 xs"
  by (cases xs) (simp_all add: settled_at_def)

section \<open>Putting a region into another\<close>

lemma takeWhile_base_split:
  assumes "tiled (us @ p # vs)" and "base p < b" and "b < limit p"
  shows "takeWhile (\<lambda>x. base x < b) (us @ p # vs) = us @ [p]"
    and "dropWhile (\<lambda>x. base x < b) (us @ p # vs) = vs"
proof -
  have us: "base x < b" if "x \<in> set us" for x
  proof -
    have "us \<noteq> []" using that by auto
    then have "limit x \<le> base p" "base x < limit x"
      using tiled_bounds [of us x] assms(1) that by (auto simp: tiled_append)
    then show ?thesis using assms(2) by simp
  qed
  have vs: "vs = [] \<or> \<not> base (hd vs) < b"
    using assms by (cases vs) (auto simp: tiled_append not_less)
  have "takeWhile (\<lambda>x. base x < b) vs = []" "dropWhile (\<lambda>x. base x < b) vs = vs"
    using vs by (cases vs; simp)+
  with us assms(2) show "takeWhile (\<lambda>x. base x < b) (us @ p # vs) = us @ [p]"
    "dropWhile (\<lambda>x. base x < b) (us @ p # vs) = vs" by simp_all
qed

lemma settled_inside:
  assumes "memory_layout (us @ p # vs)" and "base p < b" and "b < limit p" and "kind p \<noteq> SYSINFO_MT_RESERVED"
  shows "settled_at b (us @ p # vs)"
proof -
  have "takeWhile (\<lambda>x. base x < b) (us @ p # vs) = us @ [p]"
    using assms by (intro takeWhile_base_split) (simp_all add: memory_layout_def)
  then show ?thesis
    using assms by (cases us rule: rev_cases)
      (auto simp: settled_at_def memory_layout_def tiled_append varied_append)
qed

lemma insert_within:
  assumes "memory_layout (us @ p # vs)" and "base p < base r" and "base r < limit p" and "extent r \<noteq> 0"
  shows "insert_list r (us @ p # vs) = map_option (append us) (fix_list (limit p) p (r # vs))"
proof -
  note split = takeWhile_base_split [of us p vs "base r"]
  show ?thesis
    using assms split by (simp add: insert_list_def memory_layout_def del: fix_list.simps)
qed

text \<open>A more restrictive region strictly inside splits the one it is put into.\<close>

lemma insert_inside:
  assumes lay: "memory_layout (us @ p # vs)" and r: "proper r" "base p < base r" "limit r < limit p"
    and k: "kind p < kind r"
  shows "insert_list r (us @ p # vs) =
    Some (us @ p\<lparr>extent := base r - base p\<rparr> # r # p\<lparr>base := limit r, extent := limit p - limit r\<rparr> # vs)"
proof -
  let ?p = "p\<lparr>base := limit r, extent := limit p - limit r\<rparr>"
  have b: "base r < limit p" using r by (auto simp: proper_def)
  have np: "kind p \<noteq> SYSINFO_MT_RESERVED" using k RESERVED_max(2) by auto
  have "fix_list (limit p) ?p vs = Some (?p # vs)"
  proof (cases vs)
    case (Cons y ys)
    with lay np have "limit p = base y" "kind p \<noteq> kind y"
      by (auto simp: memory_layout_def tiled_append varied_append)
    then show ?thesis by (simp add: Cons)
  qed simp
  then have "fix_list (limit p) p (r # vs) = Some (p\<lparr>extent := base r - base p\<rparr> # r # ?p # vs)"
  proof -
    have "\<not> limit p \<le> base r" "\<not> kind r \<le> kind p" "limit r < limit p" using b k r(3) by simp_all
    with \<open>fix_list (limit p) ?p vs = Some (?p # vs)\<close> show ?thesis by simp
  qed
  then show ?thesis
    using insert_within [OF lay r(2) b proper_extent [OF r(1)]] by (simp del: fix_list.simps)
qed

lemma inside_layout:
  assumes lay: "memory_layout (us @ p # vs)" and r: "proper r" "base p < base r" "limit r < limit p"
    and k: "kind p \<noteq> kind r"
  shows "memory_layout (us @ p\<lparr>extent := base r - base p\<rparr> # r # p\<lparr>base := limit r, extent := limit p - limit r\<rparr> # vs)"
  using assms by (cases vs) (auto simp: memory_layout_def tiled_append varied_append proper_def)

lemma inside_kind_at:
  assumes lay: "memory_layout (us @ p # vs)" and r: "proper r" "base p < base r" "limit r < limit p"
  shows "kind_at (us @ p\<lparr>extent := base r - base p\<rparr> # r # p\<lparr>base := limit r, extent := limit p - limit r\<rparr> # vs) a
    = (if covers a r then Some (kind r) else kind_at (us @ p # vs) a)"
proof -
  have "kind_at us a = None" if "covers a r"
  proof (cases "us = []")
    case False
    then show ?thesis
      using that r lay kind_at_beyond [of us a] by (auto simp: memory_layout_def tiled_append covers_def)
  qed simp
  then show ?thesis using r by (auto simp: kind_at_append covers_def proper_def split: option.splits)
qed

text \<open>The loop of \<open>fix_right\<close> never ends when the region does not end before the one it is put into.\<close>

lemma insert_diverges:
  assumes lay: "memory_layout (us @ p # vs)" and r: "base p < base r" "base r < limit p" "limit p \<le> limit r"
    and k: "kind p < kind r"
  shows "insert_list r (us @ p # vs) = None"
proof -
  have "extent r \<noteq> 0" using r by (auto simp: extent_eq)
  moreover have "fix_list (limit p) p (r # vs) = None"
  proof -
    have "\<not> limit p \<le> base r" "\<not> kind r \<le> kind p" "\<not> limit r < limit p" using r(2,3) k by simp_all
    then show ?thesis by simp
  qed
  ultimately show ?thesis using insert_within [OF lay r(1,2)] by (simp del: fix_list.simps)
qed

text \<open>A region that begins where another one does is put before it and not repaired.\<close>

lemma place_same_base:
  assumes lay: "memory_layout (us @ u # p # vs)" and r: "base r = base p"
  shows "takeWhile (\<lambda>x. base x < base r) (us @ u # p # vs) = us @ [u]"
    and "dropWhile (\<lambda>x. base x < base r) (us @ u # p # vs) = p # vs"
proof -
  have "limit u = base p"
    using lay by (auto simp: memory_layout_def tiled_append)
  then have "\<forall>x\<in>set (us @ [u]). base x < base r"
    using tiled_bounds [of "us @ [u]"] lay r
    by (fastforce simp: memory_layout_def tiled_append simp del: set_append)
  then show "takeWhile (\<lambda>x. base x < base r) (us @ u # p # vs) = us @ [u]"
    "dropWhile (\<lambda>x. base x < base r) (us @ u # p # vs) = p # vs"
    using r by simp_all
qed

lemma insert_same_base:
  assumes lay: "memory_layout (us @ u # p # vs)" and r: "base r = base p" "extent r \<noteq> 0"
    and k: "kind r \<noteq> SYSINFO_MT_RESERVED" "kind u \<noteq> kind r"
  shows "insert_list r (us @ u # p # vs) = Some (us @ u # r # p # vs)"
proof -
  have "limit u = base p" using lay by (auto simp: memory_layout_def tiled_append)
  then show ?thesis
    using r k place_same_base [OF lay r(1)] by (simp add: insert_list_def)
qed

section \<open>The interface of the region list\<close>

text \<open>
  What the builders of the map rely on: adding a region to a list that is settled at its place
  leaves the list that \<open>insert_list\<close> computes, and never returns where that has no result.
\<close>

locale region_store =
  fixes add :: "u32 \<Rightarrow> region \<Rightarrow> ('s, u32) cmd"
    and holds :: "'s \<Rightarrow> u32 \<Rightarrow> region list \<Rightarrow> bool"
    and enough :: "'s \<Rightarrow> nat \<Rightarrow> bool"
    and evolves :: "nat \<Rightarrow> 's \<Rightarrow> 's \<Rightarrow> bool"
  assumes add_some: "holds s head xs \<Longrightarrow> enough s (nodes_needed r xs) \<Longrightarrow> settled_at (base r) xs \<Longrightarrow>
      insert_list r xs = Some ys \<Longrightarrow>
      \<exists>head' t. add head r s = Some (Inr head', t) \<and> holds t head' ys \<and> evolves (nodes_needed r xs) s t"
    and add_none: "holds s head xs \<Longrightarrow> enough s (nodes_needed r xs) \<Longrightarrow> settled_at (base r) xs \<Longrightarrow>
      insert_list r xs = None \<Longrightarrow> add head r s = None"
begin

lemma add_inside:
  assumes "holds s head (us @ p # vs)" and "memory_layout (us @ p # vs)" and "enough s (length vs + 3)"
    and r: "proper r" "base p < base r" "limit r < limit p" and k: "kind p < kind r"
  shows "\<exists>head' t zs. add head r s = Some (Inr head', t) \<and> holds t head' zs \<and> evolves (length vs + 3) s t
    \<and> zs = us @ p\<lparr>extent := base r - base p\<rparr> # r # p\<lparr>base := limit r, extent := limit p - limit r\<rparr> # vs
    \<and> memory_layout zs \<and> (\<forall>a. kind_at zs a = (if covers a r then Some (kind r) else kind_at (us @ p # vs) a))"
proof -
  have b: "base r < limit p" and np: "kind p \<noteq> SYSINFO_MT_RESERVED" and ne: "kind p \<noteq> kind r"
    using r k RESERVED_max(2) by (auto simp: proper_def)
  have need: "nodes_needed r (us @ p # vs) = length vs + 3"
    using takeWhile_base_split(2) [OF _ r(2) b, of us vs] assms(2) by (simp add: nodes_needed_def memory_layout_def)
  from add_some [OF assms(1) _ settled_inside [OF assms(2) r(2) b np] insert_inside [OF assms(2) r k]]
    assms(3) inside_layout [OF assms(2) r ne] inside_kind_at [OF assms(2) r]
  show ?thesis by (auto simp: need)
qed

lemma add_stuck:
  assumes "holds s head (us @ p # vs)" and "memory_layout (us @ p # vs)" and "enough s (length vs + 3)"
    and r: "base p < base r" "base r < limit p" "limit p \<le> limit r" and k: "kind p < kind r"
  shows "add head r s = None"
proof -
  have np: "kind p \<noteq> SYSINFO_MT_RESERVED" using k RESERVED_max(2) by auto
  have need: "nodes_needed r (us @ p # vs) = length vs + 3"
    using takeWhile_base_split(2) [OF _ r(1,2), of us vs] assms(2) by (simp add: nodes_needed_def memory_layout_def)
  from add_none [OF assms(1) _ settled_inside [OF assms(2) r(1,2) np] insert_diverges [OF assms(2) r k]] assms(3)
  show ?thesis by (simp add: need)
qed

lemma add_same_base:
  assumes "holds s head (us @ u # p # vs)" and "memory_layout (us @ u # p # vs)"
    and "enough s (length vs + 4)" and "settled_at (base p) (us @ u # p # vs)"
    and r: "base r = base p" "extent r \<noteq> 0" and k: "kind r \<noteq> SYSINFO_MT_RESERVED" "kind u \<noteq> kind r"
  shows "\<exists>head' t. add head r s = Some (Inr head', t) \<and> holds t head' (us @ u # r # p # vs)"
proof -
  have need: "nodes_needed r (us @ u # p # vs) = length vs + 4"
    using place_same_base(2) [OF assms(2) r(1)] by (simp add: nodes_needed_def)
  have st: "settled_at (base r) (us @ u # p # vs)" using assms(4) r(1) by simp
  from add_some [OF assms(1) _ st insert_same_base [OF assms(2) r k]] assms(3)
  show ?thesis by (auto simp: need)
qed

end

interpretation node_list: region_store add_region regions_at node_room only_nodes
proof
  fix s :: "'a machine" and head xs r ys
  assume "regions_at s head xs" "node_room s (nodes_needed r xs)" "settled_at (base r) xs"
  note run = add_region_run [OF this]
  show "insert_list r xs = Some ys \<Longrightarrow> \<exists>head' t. add_region head r s = Some (Inr head', t) \<and>
      regions_at t head' ys \<and> only_nodes (nodes_needed r xs) s t" using run by simp
  show "insert_list r xs = None \<Longrightarrow> add_region head r s = None" using run by simp
qed

section \<open>Properties\<close>

text \<open>A small map in memory, for witnesses: the low end reserved, one usable region behind it.\<close>

definition usable_region :: "u64 \<Rightarrow> u64 \<Rightarrow> region" where
  "usable_region b n = \<lparr>base = b, extent = n, kind = SYSINFO_MT_USABLE, volatile = False\<rparr>"

definition program_region :: "u64 \<Rightarrow> u64 \<Rightarrow> region" where
  "program_region b n = \<lparr>base = b, extent = n, kind = SYSINFO_MT_ELF_EXECUTABLE, volatile = False\<rparr>"

definition two_regions :: "region list" where
  "two_regions = [low_region 0x110000, usable_region 0x110000 0xEF0000]"

definition two_region_state :: "unit machine" where
  "two_region_state = heaped [0x3FFE4 \<mapsto> as_node 0x3FFC8 (low_region 0x110000),
     0x3FFC8 \<mapsto> as_node 0 (usable_region 0x110000 0xEF0000)] 0x3FFC8 (boot_state (\<lambda>_. 0) ())"

lemma example_region_simps [simp]:
  "base (usable_region b n) = b" "limit (usable_region b n) = b + n" "kind (usable_region b n) = SYSINFO_MT_USABLE"
  "extent (usable_region b n) = n"
  "base (program_region b n) = b" "limit (program_region b n) = b + n"
  "kind (program_region b n) = SYSINFO_MT_ELF_EXECUTABLE" "extent (program_region b n) = n"
  by (simp_all add: usable_region_def program_region_def limit_def)

lemma usable_below_program: "SYSINFO_MT_USABLE < SYSINFO_MT_ELF_EXECUTABLE"
  by (simp add: less_sysinfo_mem_type_t_def)

lemma two_regions_ok:
  "regions_at two_region_state 0x3FFE4 two_regions" "memory_layout two_regions"
  by (auto simp: regions_at_def two_region_state_def two_regions_def memory_layout_def proper_def
      segment_Cons segment_Nil
      intro!: exI [of _ "[(0x3FFE4, low_region 0x110000), (0x3FFC8, usable_region 0x110000 0xEF0000)]"])

lemma two_regions_room: "node_room two_region_state 3" "node_room two_region_state 4"
  by (simp_all add: two_region_state_def node_room_def room_def)

lemma program_in_usable:
  "proper (program_region 0x200000 0x3000)" "base (usable_region 0x110000 0xEF0000) < base (program_region 0x200000 0x3000)"
  "limit (program_region 0x200000 0x3000) < limit (usable_region 0x110000 0xEF0000)"
  "kind (usable_region 0x110000 0xEF0000) < kind (program_region 0x200000 0x3000)"
  by (simp_all add: proper_def usable_below_program)

text \<open>
  C8. Inserting into the linked list of nodes is the insertion \<open>insert_list\<close> on the list of its
  regions: for a list whose two regions before the place touch and differ in kind, allocating
  a node, filling it in and calling \<open>insert_sorted\<close> never follows a dangling or null pointer;
  it leaves a well-formed list of exactly the regions that \<open>insert_list\<close> computes, changing
  nothing but nodes and the static stack, and it runs for ever exactly when \<open>insert_list\<close> has no
  result.
\<close>

theorem insert_sorted_refines_list:
  assumes "regions_at s head xs" and "node_room s (nodes_needed r xs)" and "settled_at (base r) xs"
  shows "case insert_list r xs of
      None \<Rightarrow> bind (static_alloc SIZEOF_MEMREGION) (\<lambda>q. bind (write_node q (as_node 0 r)) (\<lambda>_. insert_sorted head q)) s = None
    | Some rs \<Rightarrow> \<exists>head' t. bind (static_alloc SIZEOF_MEMREGION) (\<lambda>q. bind (write_node q (as_node 0 r)) (\<lambda>_. insert_sorted head q)) s
          = Some (Inr head', t) \<and> regions_at t head' rs \<and> only_nodes (nodes_needed r xs) s t"
  by (rule add_region_run [OF assms, unfolded add_region_def])

theorem insert_sorted_refines_list_witness:
  "\<exists>head' t. bind (static_alloc SIZEOF_MEMREGION) (\<lambda>q. bind (write_node q (as_node 0 (program_region 0x200000 0x3000)))
      (\<lambda>_. insert_sorted 0x3FFE4 q)) two_region_state = Some (Inr head', t)
    \<and> regions_at t head' [low_region 0x110000, usable_region 0x110000 0xF0000, program_region 0x200000 0x3000,
        usable_region 0x203000 0xDFD000]"
proof -
  let ?r = "program_region 0x200000 0x3000"
  have "insert_list ?r ([low_region 0x110000] @ usable_region 0x110000 0xEF0000 # []) = Some [low_region 0x110000, usable_region 0x110000 0xF0000, ?r,
      usable_region 0x203000 0xDFD000]"
    by (subst insert_inside) (use two_regions_ok(2) program_in_usable in \<open>simp_all add: two_regions_def\<close>, simp add: usable_region_def)
  then have list: "insert_list ?r two_regions = Some [low_region 0x110000, usable_region 0x110000 0xF0000, ?r,
      usable_region 0x203000 0xDFD000]" by (simp only: two_regions_def append.simps)
  have "nodes_needed ?r two_regions = 3" "settled_at (base ?r) two_regions"
    by (simp_all add: nodes_needed_def two_regions_def settled_at_def)
  with insert_sorted_refines_list [OF two_regions_ok(1), of ?r] two_regions_room list show ?thesis by auto
qed

text \<open>
  C9. A region put strictly inside a less restrictive one, as a program segment is into usable
  memory, splits it in three: the list stays tiled, the addresses of the new region get its
  kind and every other address keeps its own. Termination included.
\<close>

theorem insert_inside_splits:
  assumes "regions_at s head (us @ p # vs)" and "memory_layout (us @ p # vs)" and "node_room s (length vs + 3)"
    and "proper r" "base p < base r" "limit r < limit p" and "kind p < kind r"
  shows "\<exists>head' t zs. bind (static_alloc SIZEOF_MEMREGION) (\<lambda>q. bind (write_node q (as_node 0 r)) (\<lambda>_. insert_sorted head q)) s
      = Some (Inr head', t) \<and> regions_at t head' zs \<and> memory_layout zs
    \<and> (\<forall>a. kind_at zs a = (if covers a r then Some (kind r) else kind_at (us @ p # vs) a))"
  using node_list.add_inside [OF assms] unfolding add_region_def by blast

theorem insert_inside_splits_witness:
  "\<exists>head' t zs. bind (static_alloc SIZEOF_MEMREGION) (\<lambda>q. bind (write_node q (as_node 0 (program_region 0x200000 0x3000)))
      (\<lambda>_. insert_sorted 0x3FFE4 q)) two_region_state = Some (Inr head', t) \<and> regions_at t head' zs
    \<and> kind_at zs 0x1FFFFF = Some SYSINFO_MT_USABLE \<and> kind_at zs 0x202FFF = Some SYSINFO_MT_ELF_EXECUTABLE
    \<and> kind_at zs 0x203000 = Some SYSINFO_MT_USABLE"
proof -
  let ?p = "usable_region 0x110000 0xEF0000" and ?r = "program_region 0x200000 0x3000"
  have at: "regions_at two_region_state 0x3FFE4 ([low_region 0x110000] @ ?p # [])"
    "memory_layout ([low_region 0x110000] @ ?p # [])" "node_room two_region_state (length ([] :: region list) + 3)"
    using two_regions_ok two_regions_room by (simp_all add: two_regions_def)
  obtain head' t zs where res: "bind (static_alloc SIZEOF_MEMREGION) (\<lambda>q. bind (write_node q (as_node 0 ?r))
      (\<lambda>_. insert_sorted 0x3FFE4 q)) two_region_state = Some (Inr head', t)" "regions_at t head' zs"
    and k: "\<And>a. kind_at zs a = (if covers a ?r then Some (kind ?r) else kind_at ([low_region 0x110000] @ ?p # []) a)"
    using insert_inside_splits [OF at program_in_usable] by blast
  have "kind_at zs 0x1FFFFF = Some SYSINFO_MT_USABLE" "kind_at zs 0x202FFF = Some SYSINFO_MT_ELF_EXECUTABLE"
    "kind_at zs 0x203000 = Some SYSINFO_MT_USABLE" by (simp_all add: k covers_def)
  with res show ?thesis by blast
qed

text \<open>
  C35. The repair after an insertion can run for ever: when the new region begins inside a less
  restrictive one and reaches its limit or beyond, \<open>fix_right\<close> shortens the left region but goes
  on comparing with the old limit, so its loop condition stays true and \<open>insert_sorted\<close> never
  returns.
\<close>

theorem insert_to_limit_never_returns:
  assumes "regions_at s head (us @ p # vs)" and "memory_layout (us @ p # vs)" and "node_room s (length vs + 3)"
    and "base p < base r" "base r < limit p" "limit p \<le> limit r" and "kind p < kind r"
  shows "bind (static_alloc SIZEOF_MEMREGION) (\<lambda>q. bind (write_node q (as_node 0 r)) (\<lambda>_. insert_sorted head q)) s = None"
  using node_list.add_stuck [OF assms] unfolding add_region_def .

theorem insert_to_limit_never_returns_witness:
  "bind (static_alloc SIZEOF_MEMREGION) (\<lambda>q. bind (write_node q (as_node 0 (program_region 0x200000 0xE00000)))
      (\<lambda>_. insert_sorted 0x3FFE4 q)) two_region_state = None"
proof (rule insert_to_limit_never_returns)
  show "regions_at two_region_state 0x3FFE4 ([low_region 0x110000] @ usable_region 0x110000 0xEF0000 # [])"
    "memory_layout ([low_region 0x110000] @ usable_region 0x110000 0xEF0000 # [])"
    "node_room two_region_state (length ([] :: region list) + 3)"
    using two_regions_ok two_regions_room by (simp_all add: two_regions_def)
qed (simp_all add: usable_below_program)

text \<open>
  C36. A region that begins exactly where another one does is put before it and never compared
  with it: the other region stays in the list as it was, so its type is still claimed for
  memory that is now taken, and the list is no longer tiled.
\<close>

theorem insert_same_base_overlaps:
  assumes "regions_at s head (us @ u # p # vs)" and "memory_layout (us @ u # p # vs)"
    and "node_room s (length vs + 4)" and "settled_at (base p) (us @ u # p # vs)"
    and "base r = base p" "proper r" and "kind r \<noteq> SYSINFO_MT_RESERVED" "kind u \<noteq> kind r"
  shows "\<exists>head' t zs. bind (static_alloc SIZEOF_MEMREGION) (\<lambda>q. bind (write_node q (as_node 0 r)) (\<lambda>_. insert_sorted head q)) s
      = Some (Inr head', t) \<and> regions_at t head' zs
    \<and> p \<in> set zs \<and> r \<in> set zs \<and> covers (base r) p \<and> covers (base r) r \<and> \<not> tiled zs"
proof -
  have "proper p" using assms(2) by (auto simp: memory_layout_def tiled_append tiled_Cons)
  then have "covers (base r) p" "covers (base r) r" "\<not> tiled (us @ u # r # p # vs)"
    using assms(5,6) by (auto simp: covers_def proper_def tiled_append)
  moreover obtain head' t where "add_region head r s = Some (Inr head', t)" "regions_at t head' (us @ u # r # p # vs)"
    using node_list.add_same_base [OF assms(1-5) proper_extent [OF assms(6)] assms(7,8)] by blast
  ultimately show ?thesis
    unfolding add_region_def
    by (intro exI [of _ head'] exI [of _ t] exI [of _ "us @ u # r # p # vs"]) simp
qed

theorem insert_same_base_overlaps_witness:
  "\<exists>head' t zs. bind (static_alloc SIZEOF_MEMREGION) (\<lambda>q. bind (write_node q (as_node 0 (program_region 0x110000 0x3000)))
      (\<lambda>_. insert_sorted 0x3FFE4 q)) two_region_state = Some (Inr head', t) \<and> regions_at t head' zs
    \<and> usable_region 0x110000 0xEF0000 \<in> set zs \<and> program_region 0x110000 0x3000 \<in> set zs"
proof -
  let ?p = "usable_region 0x110000 0xEF0000" and ?r = "program_region 0x110000 0x3000"
  have at: "regions_at two_region_state 0x3FFE4 ([] @ low_region 0x110000 # ?p # [])"
    "memory_layout ([] @ low_region 0x110000 # ?p # [])" "node_room two_region_state (length ([] :: region list) + 4)"
    "settled_at (base ?p) ([] @ low_region 0x110000 # ?p # [])"
    using two_regions_ok two_regions_room by (simp_all add: two_regions_def settled_at_def)
  have r: "base ?r = base ?p" "proper ?r" "kind ?r \<noteq> SYSINFO_MT_RESERVED" "kind (low_region 0x110000) \<noteq> kind ?r"
    by (simp_all add: proper_def)
  from insert_same_base_overlaps [OF at r] show ?thesis by blast
qed

end
