(* ===== verification/Sysinfo.thy ===== *)
theory Sysinfo
  imports Region_Map
begin

text \<open>
  The rest of \<^verbatim>\<open>stage1/sysinfo_impl.c\<close>: the memory map of the BIOS (\<open>int 0x15\<close>, function
  \<open>E820\<close>) turned into the list of regions, the search for the root pointer of ACPI, and
  \<open>get_sysinfo\<close>, which runs both. The BIOS is a parameter: from its input registers, the buffer
  and its own state to the carry flag, \<open>eax\<close>, \<open>ebx\<close>, the buffer and the new state.
\<close>

section \<open>Results\<close>

datatype sysinfo_result_t = SYSINFO_SUCCESS | SYSINFO_EMPTY_MEMORY_LAYOUT | SYSINFO_RSDP_NOT_FOUND

fun sysinfo_result_to_str :: "sysinfo_result_t \<Rightarrow> string" where
  "sysinfo_result_to_str SYSINFO_SUCCESS = ''Success''"
| "sysinfo_result_to_str SYSINFO_EMPTY_MEMORY_LAYOUT = ''Memory layout reported by BIOS is empty''"
| "sysinfo_result_to_str SYSINFO_RSDP_NOT_FOUND = ''Could not find a valid RSDP''"

section \<open>The memory map of the BIOS\<close>

definition MREGION_MAGIC :: u32 where "MREGION_MAGIC = 0x534D4150"

record mregion_t =
  mreg_base_addr :: u64
  mreg_size :: u64
  mreg_type :: u32
  mreg_ext_attr :: u32

text \<open>Inputs: \<open>eax\<close>, \<open>ebx\<close>, \<open>ecx\<close>, \<open>edx\<close>, the buffer at \<open>es:di\<close>.\<close>

type_synonym 'e int15 =
  "u32 \<Rightarrow> u32 \<Rightarrow> u32 \<Rightarrow> u32 \<Rightarrow> mregion_t \<Rightarrow> 'e \<Rightarrow> (bool \<times> u32 \<times> u32 \<times> mregion_t) \<times> 'e"

definition get_next_mregion ::
  "'e int15 \<Rightarrow> mregion_t \<Rightarrow> u32 \<Rightarrow> ('e machine, bool \<times> mregion_t \<times> u32) cmd"
where
  "get_next_mregion int15 region index =
     bind (gets (\<lambda>s. int15 0xE820 index 24 MREGION_MAGIC region (bios_env s)))
       (\<lambda>((has_error, function1, index, region), env).
     bind (modify (\<lambda>s. s\<lparr>bios_env := env\<rparr>)) (\<lambda>_.
     ret (\<not> has_error \<and> index \<noteq> 0 \<and> function1 = MREGION_MAGIC, region, index)))"

definition mregion_kind :: "u32 \<Rightarrow> sysinfo_mem_type_t" where
  "mregion_kind t =
     (if t = 1 then SYSINFO_MT_USABLE
      else if t = 2 then SYSINFO_MT_RESERVED
      else if t = 3 then SYSINFO_MT_RECLAIMABLE
      else if t = 4 then SYSINFO_MT_ACPI_NVS
      else if t = 5 then SYSINFO_MT_BAD
      else SYSINFO_MT_RESERVED)"

definition convert_region :: "mregion_t \<Rightarrow> sysinfo_memregion_t" where
  "convert_region region =
     \<lparr>mr_next = 0, mr_base_addr = mreg_base_addr region, mr_size = mreg_size region,
      mr_type = mregion_kind (mreg_type region),
      mr_is_volatile = (drop_bit 1 (mreg_ext_attr region) AND 1 \<noteq> 0)\<rparr>"

text \<open>The loop variables are \<open>*mem_regions\<close>, \<open>count\<close>, \<open>index\<close> and the buffer \<open>mregion\<close>.\<close>

definition mregion_round ::
  "'e int15 \<Rightarrow> u32 \<times> u32 \<times> u32 \<times> mregion_t \<Rightarrow>
   ('e machine, (u32 \<times> u32 \<times> u32 \<times> mregion_t) + u32 \<times> u32) cmd"
where
  "mregion_round int15 = (\<lambda>(mem_regions, count, index, mregion).
     bind (get_next_mregion int15 mregion index) (\<lambda>(more, mregion, index).
     if \<not> more then ret (Inr (mem_regions, count))
     else
       bind (static_alloc SIZEOF_MEMREGION) (\<lambda>this_region.
       bind (write_node this_region (convert_region mregion)) (\<lambda>_.
       bind (insert_sorted mem_regions this_region) (\<lambda>mem_regions.
       ret (Inl (mem_regions, count + 1, index, mregion)))))))"

definition get_mem_regions :: "'e int15 \<Rightarrow> u32 \<Rightarrow> ('e machine, sysinfo_result_t \<times> u32) cmd" where
  "get_mem_regions int15 mem_regions =
     bind (iterate (mregion_round int15)
        (mem_regions, 0, 0, \<lparr>mreg_base_addr = 0, mreg_size = 0, mreg_type = 0, mreg_ext_attr = 0\<rparr>))
       (\<lambda>(mem_regions, count).
     if count = 0 then ret (SYSINFO_EMPTY_MEMORY_LAYOUT, mem_regions)
     else
       bind (static_alloc SIZEOF_MEMREGION) (\<lambda>reserved.
       bind (write_node reserved \<lparr>mr_next = 0, mr_base_addr = 0x0, mr_size = ucast REAL_MODE_LIMIT,
               mr_type = SYSINFO_MT_RESERVED, mr_is_volatile = False\<rparr>) (\<lambda>_.
       bind (insert_sorted mem_regions reserved) (\<lambda>mem_regions.
       ret (SYSINFO_SUCCESS, mem_regions)))))"

section \<open>The root pointer of ACPI\<close>

definition RSDP_SIGNATURE :: string where "RSDP_SIGNATURE = ''RSD PTR ''"
definition EBDA_SEGMENT_FIELD :: u32 where "EBDA_SEGMENT_FIELD = 0x40E"
definition EBDA_RSDP_SEARCH_SIZE :: u32 where "EBDA_RSDP_SEARCH_SIZE = 1024"
definition BIOS_READ_ONLY_REGION_START :: u32 where "BIOS_READ_ONLY_REGION_START = 0xE0000"
definition BIOS_READ_ONLY_REGION_END :: u32 where "BIOS_READ_ONLY_REGION_END = 0xFFFFF"

text \<open>\<open>sum_from m p i n acc\<close>: the loop \<open>for (; i < n; i++) acc += p[i]\<close>.\<close>

function sum_from :: "memory \<Rightarrow> u32 \<Rightarrow> u32 \<Rightarrow> u32 \<Rightarrow> u8 \<Rightarrow> u8" where
  "sum_from m p i n acc = (if i < n then sum_from m p (i + 1) n (acc + m (p + i)) else acc)"
  by pat_completeness auto
termination
proof (relation "measure (\<lambda>(m, p, i, n, acc). unat n - unat i)", simp, clarsimp)
  fix i n :: u32 assume "i < n"
  then have "unat i < unat n" "unat (i + 1) = unat i + 1"
    using u32_bound [of n] by (auto simp: word_less_nat_alt unat_word_ariths)
  then show "unat n - unat (i + 1) < unat n - unat i" by simp
qed

declare sum_from.simps [simp del]

text \<open>\<open>rsdp_t\<close> has 20 bytes with the revision at 15; \<open>xsdp_t\<close> goes on with its length at 20.\<close>

definition is_rsdp_valid :: "memory \<Rightarrow> u32 \<Rightarrow> bool" where
  "is_rsdp_valid m p =
     (let acc = sum_from m p 0 20 0
      in if acc \<noteq> 0 then False
         else if m (p + 15) > 0 then
           (let acc = sum_from m p 20 (load32 m (p + 20)) acc
            in if acc \<noteq> 0 then False else True)
         else True)"

text \<open>
  One of the two search loops, from \<open>p\<close> up to \<open>e\<close>. \<open>sig\<close> is the address the linker gave the
  literal \<^verbatim>\<open>RSDP_SIGNATURE\<close>.
\<close>

definition rsdp_scan :: "u32 \<Rightarrow> u32 \<Rightarrow> u32 \<Rightarrow> ('e machine, u32 option) cmd" where
  "rsdp_scan sig p e =
     iterate (\<lambda>p.
       if p < e then
         bind (gets (\<lambda>s. memeq (mem s) sig p 8 \<and> is_rsdp_valid (mem s) p)) (\<lambda>found.
         ret (if found then Inr (Some p) else Inl (p + 16)))
       else ret (Inr None)) p"

definition get_rsdp :: "u32 \<Rightarrow> ('e machine, sysinfo_result_t \<times> u32) cmd" where
  "get_rsdp sig =
     bind (gets (\<lambda>s. ucast (load16 (mem s) EBDA_SEGMENT_FIELD) * 16)) (\<lambda>ebda_base.
     bind (rsdp_scan sig ebda_base (ebda_base + EBDA_RSDP_SEARCH_SIZE)) (\<lambda>r.
     case r of Some p \<Rightarrow> ret (SYSINFO_SUCCESS, p)
     | None \<Rightarrow>
         bind (rsdp_scan sig BIOS_READ_ONLY_REGION_START BIOS_READ_ONLY_REGION_END) (\<lambda>r.
         case r of Some p \<Rightarrow> ret (SYSINFO_SUCCESS, p) | None \<Rightarrow> ret (SYSINFO_RSDP_NOT_FOUND, 0))))"

text \<open>\<open>info\<close> is set on success only.\<close>

definition get_sysinfo :: "'e int15 \<Rightarrow> u32 \<Rightarrow> u8 \<Rightarrow> ('e machine, sysinfo_result_t \<times> sysinfo_t option) cmd" where
  "get_sysinfo int15 sig boot_drive =
     bind (get_mem_regions int15 0) (\<lambda>(result, mem_regions).
     if result \<noteq> SYSINFO_SUCCESS then ret (result, None)
     else
       bind (get_rsdp sig) (\<lambda>(result, rsdp).
       if result \<noteq> SYSINFO_SUCCESS then ret (result, None)
       else ret (SYSINFO_SUCCESS,
         Some \<lparr>si_boot_drive = boot_drive, si_mem_regions = mem_regions, si_rsdp = rsdp\<rparr>)))"

section \<open>What the BIOS promises about the memory map\<close>

text \<open>
  The entries \<open>es\<close>, one per call: the call with the \<open>k\<close>-th continuation token delivers entry
  \<open>k\<close> and the token of the next one, and zero with the last entry.
\<close>

definition serves_e820 :: "'e int15 \<Rightarrow> (nat \<Rightarrow> u32) \<Rightarrow> mregion_t list \<Rightarrow> bool" where
  "serves_e820 int15 token es \<longleftrightarrow> token 0 = 0 \<and> (\<forall>k. 0 < k \<and> k < length es \<longrightarrow> token k \<noteq> 0) \<and>
     (\<forall>k e buf. k < length es \<longrightarrow> (\<exists>e'. int15 0xE820 (token k) 24 MREGION_MAGIC buf e =
        ((False, MREGION_MAGIC, if Suc k = length es then 0 else token (Suc k), es ! k), e')))"

text \<open>A BIOS that numbers its entries.\<close>

definition listed_int15 :: "mregion_t list \<Rightarrow> 'e int15" where
  "listed_int15 es eax ebx ecx edx buf e =
     (if unat ebx < length es
      then ((False, edx, if Suc (unat ebx) = length es then 0 else ebx + 1, es ! unat ebx), e)
      else ((True, eax, 0, buf), e))"

lemma listed_int15_ok:
  assumes "length es < 2 ^ 32"
  shows "serves_e820 (listed_int15 es) of_nat es"
proof -
  have "unat (of_nat k :: u32) = k" if "k < length es" for k
    using assms that by (simp add: unat_of_nat)
  moreover from this have "(of_nat k :: u32) \<noteq> 0" if "0 < k" "k < length es" for k
    using that by (metis less_numeral_extra(3) unat_0)
  ultimately show ?thesis by (simp add: serves_e820_def listed_int15_def add.commute)
qed

definition region_of :: "mregion_t \<Rightarrow> region" where
  "region_of r = \<lparr>base = mreg_base_addr r, extent = mreg_size r, kind = mregion_kind (mreg_type r),
     volatile = (drop_bit 1 (mreg_ext_attr r) AND 1 \<noteq> 0)\<rparr>"

lemma convert_region_node: "convert_region r = as_node 0 (region_of r)"
  by (simp add: convert_region_def as_node_def region_of_def)

section \<open>Building the map\<close>

text \<open>Only the nodes, the static stack and the BIOS's own state change.\<close>

definition only_map :: "nat \<Rightarrow> 'e machine \<Rightarrow> 'e machine \<Rightarrow> bool" where
  "only_map k s t \<longleftrightarrow> t = heaped (region_heap t) (static_stack_top t) (s\<lparr>bios_env := bios_env t\<rparr>)
     \<and> unat (static_stack_top t) \<le> unat (static_stack_top s)
     \<and> unat (static_stack_top s) \<le> unat (static_stack_top t) + 28 * k"

lemma heaped_env: "(heaped h a s)\<lparr>bios_env := e\<rparr> = heaped h a (s\<lparr>bios_env := e\<rparr>)"
  by (simp add: heaped_def)

lemma only_mapD:
  assumes "only_map k s t"
  shows "unat (static_stack_top t) \<le> unat (static_stack_top s)"
    "unat (static_stack_top s) \<le> unat (static_stack_top t) + 28 * k"
    "t = heaped (region_heap t) (static_stack_top t) (s\<lparr>bios_env := bios_env t\<rparr>)"
  using assms by (simp_all add: only_map_def)

lemma only_map_nodes: "only_nodes k s t \<Longrightarrow> only_map k s t"
proof -
  assume n: "only_nodes k s t"
  have "s\<lparr>bios_env := bios_env t\<rparr> = s" using only_nodes_frame(4) [OF n] by simp
  with only_nodesD [OF n] show ?thesis unfolding only_map_def by simp
qed

lemma only_map_env: "only_map 0 s (s\<lparr>bios_env := e\<rparr>)"
  by (simp add: only_map_def heaped_def)

lemma only_map_trans:
  assumes st: "only_map k s t" and tu: "only_map l t u"
  shows "only_map (k + l) s u"
proof -
  have "t\<lparr>bios_env := bios_env u\<rparr>
      = (heaped (region_heap t) (static_stack_top t) (s\<lparr>bios_env := bios_env t\<rparr>))\<lparr>bios_env := bios_env u\<rparr>"
    using only_mapD(3) [OF st] by (rule arg_cong)
  then have "t\<lparr>bios_env := bios_env u\<rparr> = heaped (region_heap t) (static_stack_top t) (s\<lparr>bios_env := bios_env u\<rparr>)"
    by (simp add: heaped_env)
  then have "u = heaped (region_heap u) (static_stack_top u) (s\<lparr>bios_env := bios_env u\<rparr>)"
    using only_mapD(3) [OF tu] by (metis heaped_simps(3))
  then show ?thesis
    using only_mapD(1,2) [OF st] only_mapD(1,2) [OF tu] unfolding only_map_def
    by (intro conjI) (assumption, simp_all)
qed

lemma only_map_room: "only_map k s t \<Longrightarrow> node_room s (k + l) \<Longrightarrow> node_room t l"
  using only_mapD(2) [of k s t] by (simp add: node_room_def room_def)

lemma only_map_frame:
  assumes "only_map k s t"
  shows "mem t = mem s" "ext_stack_top t = ext_stack_top s" "int10_log t = int10_log s"
  using arg_cong [OF only_mapD(3) [OF assms], of mem] arg_cong [OF only_mapD(3) [OF assms], of ext_stack_top]
    arg_cong [OF only_mapD(3) [OF assms], of int10_log] by simp_all

lemma regions_at_env: "regions_at (s\<lparr>bios_env := e\<rparr>) head xs = regions_at s head xs"
  by (simp add: regions_at_def)

text \<open>The regions to come fit behind the ones there are.\<close>

definition fits :: "region list \<Rightarrow> region list \<Rightarrow> bool" where
  "fits xs rs \<longleftrightarrow> (if xs = [] then ascending rs else growing xs \<and> ascending (last xs # rs))"

lemma fits_step:
  assumes "fits xs (r # rs)"
  shows "\<exists>ys. insert_list r xs = Some ys \<and> fits ys rs" and "settled_at (base r) xs" and "nodes_needed r xs = 3"
proof -
  have r: "proper r" using assms by (auto simp: fits_def ascending_Cons split: if_splits)
  have le: "xs \<noteq> [] \<longrightarrow> limit (last xs) \<le> base r" using assms by (auto simp: fits_def ascending_Cons)
  have t: "tiled xs" using assms by (auto simp: fits_def growing_def memory_layout_def split: if_splits)
  show "nodes_needed r xs = 3" using takeWhile_base_all(2) [OF t le] by (simp add: nodes_needed_def)
  show "settled_at (base r) xs"
    using growing_settled [of xs "base r"] le assms by (cases "xs = []") (auto simp: fits_def settled_at_def)
  show "\<exists>ys. insert_list r xs = Some ys \<and> fits ys rs"
  proof (cases xs rule: rev_cases)
    case Nil
    with r assms show ?thesis
      by (auto simp: insert_first fits_def growing_def memory_layout_def)
  next
    case (snoc us x)
    with assms have g: "growing (us @ [x])" by (simp add: fits_def)
    have le': "limit x \<le> base r" using le snoc by simp
    note app = append_growing [OF g le' r]
    have "proper (last (us @ pad x [r]))"
      using growing_last_proper [of "butlast (us @ pad x [r])" "last (us @ pad x [r])"] app(1)
      by (simp only: append_butlast_last_id append_is_Nil_conv pad_not_Nil simp_thms)
    then have "fits (us @ pad x [r]) rs"
      using app assms snoc unfolding fits_def by (simp add: ascending_Cons)
    then show ?thesis
      using insert_behind [of us x r] g le' r snoc by (auto simp: growing_def memory_layout_def)
  qed
qed

lemma call_run:
  assumes "serves_e820 int15 token es" and "k < length es"
  shows "\<exists>e. get_next_mregion int15 buf (token k) s = Some (Inr (Suc k \<noteq> length es, es ! k,
      if Suc k = length es then 0 else token (Suc k)), s\<lparr>bios_env := e\<rparr>)"
proof -
  obtain e' where "int15 0xE820 (token k) 24 MREGION_MAGIC buf (bios_env s) =
        ((False, MREGION_MAGIC, if Suc k = length es then 0 else token (Suc k), es ! k), e')"
    using assms unfolding serves_e820_def by blast
  moreover have "Suc k \<noteq> length es \<Longrightarrow> token (Suc k) \<noteq> 0" using assms by (auto simp: serves_e820_def)
  ultimately show ?thesis by (auto simp: get_next_mregion_def exec_bind exec_basic)
qed

lemma mregion_loop:
  fixes count :: u32
  assumes bios: "serves_e820 int15 token (ps @ ms @ [z])"
    and "regions_at s head xs" and "fits xs (map region_of ms)" and "node_room s (3 * length ms)"
  shows "\<exists>zs head' t. iterate (mregion_round int15) (head, count, token (length ps), buf) s
      = Some (Inr (head', count + of_nat (length ms)), t)
    \<and> insert_all (map region_of ms) xs = Some zs \<and> regions_at t head' zs \<and> only_map (3 * length ms) s t"
  using assms
proof (induction ms arbitrary: ps s head xs count buf)
  case Nil
  from call_run [OF Nil.prems(1), of "length ps" buf s] obtain e where
    "get_next_mregion int15 buf (token (length ps)) s = Some (Inr (False, z, 0), s\<lparr>bios_env := e\<rparr>)" by auto
  with Nil.prems(2) show ?case
    by (subst iterate_unfold) (auto simp: mregion_round_def exec_bind exec_basic regions_at_env only_map_env)
next
  case (Cons m ms)
  let ?r = "region_of m"
  from call_run [OF Cons.prems(1), of "length ps" buf s] obtain e where call:
    "get_next_mregion int15 buf (token (length ps)) s
      = Some (Inr (True, m, token (Suc (length ps))), s\<lparr>bios_env := e\<rparr>)" by (auto simp: nth_append)
  note step = fits_step [OF Cons.prems(3) [simplified]]
  from step(1) obtain ys where ys: "insert_list ?r xs = Some ys" "fits ys (map region_of ms)" by blast
  have reg: "regions_at (s\<lparr>bios_env := e\<rparr>) head xs" using Cons.prems(2) by (simp add: regions_at_env)
  have "node_room (s\<lparr>bios_env := e\<rparr>) (nodes_needed ?r xs)"
    using Cons.prems(4) by (simp add: step(3) node_room_def room_def)
  from add_region_run [OF reg this step(2)] ys(1) step(3) obtain head1 t where
    add: "add_region head ?r (s\<lparr>bios_env := e\<rparr>) = Some (Inr head1, t)" and t: "regions_at t head1 ys" "only_nodes 3 (s\<lparr>bios_env := e\<rparr>) t"
    by auto
  have st: "only_map 3 s t" using only_map_trans [OF only_map_env only_map_nodes [OF t(2)]] by simp
  have "mregion_round int15 (head, count, token (length ps), buf) s
      = bind (add_region head ?r)
          (\<lambda>mem_regions. ret (Inl (mem_regions, count + 1, token (Suc (length ps)), m))) (s\<lparr>bios_env := e\<rparr>)"
    unfolding mregion_round_def prod.case
    by (rule bind_run, rule call) (simp add: add_region_def bind_assoc convert_region_node)
  also have "\<dots> = Some (Inr (Inl (head1, count + 1, token (Suc (length ps)), m)), t)"
    by (rule bind_run, rule add) (simp add: exec_basic)
  finally have round: "mregion_round int15 (head, count, token (length ps), buf) s
      = Some (Inr (Inl (head1, count + 1, token (Suc (length ps)), m)), t)" .
  have bios: "serves_e820 int15 token ((ps @ [m]) @ ms @ [z])" using Cons.prems(1) by simp
  have rm: "node_room t (3 * length ms)" using only_map_room [OF st] Cons.prems(4) by simp
  from Cons.IH [OF bios t(1) ys(2) rm, of "count + 1" m] obtain zs head' u where
    "iterate (mregion_round int15) (head1, count + 1, token (Suc (length ps)), m) t
      = Some (Inr (head', count + 1 + of_nat (length ms)), u)"
    "insert_all (map region_of ms) ys = Some zs" "regions_at u head' zs" "only_map (3 * length ms) t u" by auto
  moreover from this have "only_map (3 * length (m # ms)) s u" using only_map_trans [OF st] by fastforce
  ultimately show ?case
    using round ys(1) by (subst iterate_unfold) (auto simp: exec_bind add.assoc)
qed

text \<open>The map that the entries spell, with everything below the real-mode limit reserved.\<close>

definition boot_map :: "region list \<Rightarrow> u64 \<Rightarrow> sysinfo_mem_type_t option" where
  "boot_map rs a =
     (if a < ucast REAL_MODE_LIMIT \<or> a < base (hd rs) then Some SYSINFO_MT_RESERVED else map_of_regions rs a)"

lemma low_node:
  "\<lparr>mr_next = 0, mr_base_addr = 0x0, mr_size = ucast REAL_MODE_LIMIT, mr_type = SYSINFO_MT_RESERVED,
    mr_is_volatile = False\<rparr> = as_node 0 (low_region (ucast REAL_MODE_LIMIT))"
  by (simp add: as_node_def low_region_def)

lemma low_limit_pos: "(0 :: u64) < ucast REAL_MODE_LIMIT"
  by (simp add: REAL_MODE_LIMIT_val)

definition usable_map :: "region list \<Rightarrow> bool" where
  "usable_map zs \<longleftrightarrow> memory_layout zs \<and> zs \<noteq> [] \<and> base (hd zs) = 0 \<and> kind (hd zs) = SYSINFO_MT_RESERVED"

lemma get_mem_regions_run:
  assumes bios: "serves_e820 int15 token (ms @ [z])" and ms: "ms \<noteq> []" "ascending (map region_of ms)"
    and rm: "node_room s (5 * length ms + 3)"
  shows "\<exists>zs head t. get_mem_regions int15 0 s = Some (Inr (SYSINFO_SUCCESS, head), t)
    \<and> regions_at t head zs \<and> usable_map zs \<and> length zs \<le> 2 * length ms + 2
    \<and> only_map (5 * length ms + 3) s t \<and> (\<forall>a. kind_at zs a = boot_map (map region_of ms) a)"
proof -
  let ?rs = "map region_of ms" and ?e = "ucast REAL_MODE_LIMIT :: u64"
  have init: "regions_at s 0 []" by (auto simp: regions_at_def segment_Nil)
  have fit: "fits [] ?rs" using ms by (simp add: fits_def)
  have "node_room s (3 * length ms)" using rm by (simp add: node_room_def room_def)
  note loop = mregion_loop [where ps = "[]" and count = 0, simplified, OF bios init fit this]
  obtain xs head t where
    loop: "iterate (mregion_round int15) (0, 0, token 0, \<lparr>mreg_base_addr = 0, mreg_size = 0, mreg_type = 0, mreg_ext_attr = 0\<rparr>) s
      = Some (Inr (head, of_nat (length ms)), t)"
    and all: "insert_all ?rs [] = Some xs" and t: "regions_at t head xs" "only_map (3 * length ms) s t"
    using loop [of "\<lparr>mreg_base_addr = 0, mreg_size = 0, mreg_type = 0, mreg_ext_attr = 0\<rparr>"] by blast
  from insert_all_map [of ?rs] ms all have xs: "xs \<noteq> []" "growing xs" "base (hd xs) = base (hd ?rs)"
    "length xs \<le> 2 * length ms" "\<forall>a. kind_at xs a = map_of_regions ?rs a" by auto
  from fix_list_low [OF low_limit_pos, of xs] xs(1,2) obtain zs where
    low: "fix_list ?e (low_region ?e) xs = Some zs" and zs: "usable_map zs" "length zs \<le> length xs + 2"
    and k: "\<forall>a. kind_at zs a = (if a < ?e \<or> (xs \<noteq> [] \<and> a < base (hd xs)) then Some SYSINFO_MT_RESERVED else kind_at xs a)"
    by (auto simp: usable_map_def growing_def)
  have need: "nodes_needed (low_region ?e) xs \<le> 2 * length ms + 3"
    using xs(4) length_dropWhile_le [of "\<lambda>x. base x < base (low_region ?e)" xs] unfolding nodes_needed_def by linarith
  have rt: "node_room t (2 * length ms + 3)" using only_map_room [OF t(2)] rm by simp
  have "node_room t (nodes_needed (low_region ?e) xs)" using rt need unfolding node_room_def by (rule room_mono)
  with add_region_run [OF t(1), of "low_region ?e"] settled_at_0 [of xs] low
    insert_low [OF low_limit_pos, of xs] obtain head' u where
    add: "add_region head (low_region ?e) t = Some (Inr head', u)" and u: "regions_at u head' zs" "only_nodes (nodes_needed (low_region ?e) xs) t u"
    by auto
  have "length ms < 2 ^ 32" using rm u32_bound [of "static_stack_top s"] by (simp add: node_room_def room_def)
  then have count: "(of_nat (length ms) :: u32) \<noteq> 0"
    using ms(1) by (simp add: word_of_nat_eq_0_iff) (auto dest: dvd_imp_le)
  have tok: "token 0 = 0" using bios by (simp add: serves_e820_def)
  have "get_mem_regions int15 0 s = bind (add_region head (low_region ?e))
      (\<lambda>mem_regions. ret (SYSINFO_SUCCESS, mem_regions)) t"
    unfolding get_mem_regions_def
    by (rule bind_run, rule loop [unfolded tok]) (simp add: count add_region_def bind_assoc low_node)
  also have "\<dots> = Some (Inr (SYSINFO_SUCCESS, head'), u)"
    by (rule bind_run, rule add) (simp add: exec_basic)
  finally have run: "get_mem_regions int15 0 s = Some (Inr (SYSINFO_SUCCESS, head'), u)" .
  have "only_map (5 * length ms + 3) s u"
    using only_map_trans [OF t(2) only_map_nodes [OF only_nodes_mono [OF u(2) need]]] by (simp add: algebra_simps)
  moreover have "\<forall>a. kind_at zs a = boot_map ?rs a" using k xs by (auto simp: boot_map_def)
  moreover have "length zs \<le> 2 * length ms + 2" using zs(2) xs(4) by simp
  ultimately show ?thesis using run u(1) zs(1) by blast
qed

text \<open>With no entry before the last one there is no map.\<close>

lemma get_mem_regions_empty:
  assumes "serves_e820 int15 token [z]"
  shows "\<exists>e. get_mem_regions int15 0 s = Some (Inr (SYSINFO_EMPTY_MEMORY_LAYOUT, 0), s\<lparr>bios_env := e\<rparr>)"
proof -
  let ?b = "\<lparr>mreg_base_addr = 0, mreg_size = 0, mreg_type = 0, mreg_ext_attr = 0\<rparr>"
  have tok: "token 0 = 0" using assms by (simp add: serves_e820_def)
  from call_run [OF assms, of 0 ?b s] obtain e where
    "get_next_mregion int15 ?b 0 s = Some (Inr (False, z, 0), s\<lparr>bios_env := e\<rparr>)" by (auto simp: tok)
  then show ?thesis
    by (subst get_mem_regions_def, subst iterate_unfold) (auto simp: mregion_round_def exec_bind exec_basic)
qed

section \<open>Finding the root pointer\<close>

text \<open>The bytes \<open>i, \<dots>, n - 1\<close> from \<open>p\<close> on add up to a multiple of 256.\<close>

definition sums_to_zero :: "memory \<Rightarrow> u32 \<Rightarrow> nat \<Rightarrow> nat \<Rightarrow> bool" where
  "sums_to_zero m p i n \<longleftrightarrow> 256 dvd (\<Sum>j = i..<n. unat (m (p + of_nat j)))"

definition rsdp_at :: "memory \<Rightarrow> u32 \<Rightarrow> bool" where
  "rsdp_at m p \<longleftrightarrow> (\<forall>i < 8. m (p + of_nat i) = of_char (RSDP_SIGNATURE ! i)) \<and> sums_to_zero m p 0 20
     \<and> (m (p + 15) = 0 \<or> sums_to_zero m p 20 (unat (load32 m (p + 20))))"

text \<open>Every 16 bytes of the first kilobyte of the EBDA, then of the BIOS area.\<close>

definition rsdp_candidates :: "memory \<Rightarrow> u32 list" where
  "rsdp_candidates m =
     map (\<lambda>i. ucast (load16 m 0x40E) * 16 + 16 * of_nat i) [0..<64] @ map (\<lambda>i. 0xE0000 + 16 * of_nat i) [0..<8192]"

lemma sum_from_eq: "sum_from m p i n acc = acc + of_nat (\<Sum>j = unat i..<unat n. unat (m (p + of_nat j)))"
proof (induction m p i n acc rule: sum_from.induct)
  case (1 m p i n acc)
  show ?case
  proof (cases "i < n")
    case True
    then have lt: "unat i < unat n" and suc: "unat (i + 1) = Suc (unat i)"
      using u32_bound [of n] by (auto simp: word_less_nat_alt unat_word_ariths)
    have "(\<Sum>j = unat i..<unat n. unat (m (p + of_nat j)))
        = unat (m (p + i)) + (\<Sum>j = unat (i + 1)..<unat n. unat (m (p + of_nat j)))"
      using lt by (simp add: suc sum.atLeast_Suc_lessThan)
    with 1 [OF True] True show ?thesis by (subst sum_from.simps) (simp add: add.assoc)
  next
    case False
    then have "unat n \<le> unat i" by (simp add: word_less_nat_alt)
    with False show ?thesis by (subst sum_from.simps) simp
  qed
qed

lemma of_nat_u8_0: "(of_nat k :: u8) = 0 \<longleftrightarrow> 256 dvd k"
  by (simp add: word_of_nat_eq_0_iff)

lemma is_rsdp_valid_iff:
  "is_rsdp_valid m p \<longleftrightarrow> sums_to_zero m p 0 20 \<and> (m (p + 15) = 0 \<or> sums_to_zero m p 20 (unat (load32 m (p + 20))))"
proof -
  let ?a = "\<Sum>j = 0..<20. unat (m (p + of_nat j))"
    and ?b = "\<Sum>j = 20..<unat (load32 m (p + 20)). unat (m (p + of_nat j))"
  have "is_rsdp_valid m p \<longleftrightarrow> (of_nat ?a :: u8) = 0 \<and> (m (p + 15) = 0 \<or> (of_nat ?a :: u8) + of_nat ?b = 0)"
    by (simp add: is_rsdp_valid_def sum_from_eq word_gt_0 Let_def del: of_nat_sum)
  also have "\<dots> \<longleftrightarrow> (of_nat ?a :: u8) = 0 \<and> (m (p + 15) = 0 \<or> (of_nat ?b :: u8) = 0)" by auto
  finally show ?thesis by (simp only: of_nat_u8_0 sums_to_zero_def)
qed

lemma find_map_upt_Suc: "find P (map f [0..<Suc n]) = (if P (f 0) then Some (f 0) else find P (map (\<lambda>i. f (Suc i)) [0..<n]))"
proof -
  have "map f [0..<Suc n] = f 0 # map (\<lambda>i. f (Suc i)) [0..<n]"
    by (simp add: upt_conv_Cons map_Suc_upt [symmetric] comp_def del: upt_Suc)
  then show ?thesis by (simp only: find.simps)
qed

lemma rsdp_scan_run:
  assumes "\<forall>i < n. unat p + 16 * i < unat e" and "unat e \<le> unat p + 16 * n" and "unat p + 16 * n < 2 ^ 32"
  shows "rsdp_scan sig p e s = Some (Inr (find (\<lambda>p. memeq (mem s) sig p 8 \<and> is_rsdp_valid (mem s) p)
    (map (\<lambda>i. p + 16 * of_nat i) [0..<n])), s)"
  using assms
proof (induction n arbitrary: p)
  case 0
  then have "\<not> p < e" by (simp add: word_less_nat_alt)
  then show ?case by (simp add: rsdp_scan_def) (subst iterate_unfold, simp add: exec_bind exec_basic)
next
  case (Suc n)
  let ?P = "\<lambda>p. memeq (mem s) sig p 8 \<and> is_rsdp_valid (mem s) p"
  have lt: "p < e" using spec [OF Suc.prems(1), of 0] by (simp add: word_less_nat_alt)
  have u: "unat (p + 16) = unat p + 16" using Suc.prems(3) by (simp add: unat_word_ariths)
  have IH: "rsdp_scan sig (p + 16) e s = Some (Inr (find ?P (map (\<lambda>i. p + 16 + 16 * of_nat i) [0..<n])), s)"
    using Suc.prems by (intro Suc.IH) (auto simp: u dest: spec [where x = "Suc _"])
  have "find ?P (map (\<lambda>i. p + 16 * of_nat i) [0..<Suc n])
      = (if ?P p then Some p else find ?P (map (\<lambda>i. p + 16 + 16 * of_nat i) [0..<n]))"
    by (subst find_map_upt_Suc) (simp add: algebra_simps)
  moreover have "rsdp_scan sig p e s = (if ?P p then Some (Inr (Some p), s) else rsdp_scan sig (p + 16) e s)"
    using lt unfolding rsdp_scan_def by (subst iterate_unfold) (simp add: exec_bind exec_basic)
  ultimately show ?case using IH by simp
qed

text \<open>The literal of the signature is in memory at \<open>sig\<close>.\<close>

definition signature_at :: "memory \<Rightarrow> u32 \<Rightarrow> bool" where
  "signature_at m sig \<longleftrightarrow> (\<forall>i < 8. m (sig + of_nat i) = of_char (RSDP_SIGNATURE ! i))"

text \<open>The first candidate outside the EBDA, when the EBDA has none.\<close>

lemma find_append: "find Q xs = None \<Longrightarrow> find Q (xs @ ys) = find Q ys"
  by (induction xs) (auto split: if_splits)

lemma first_candidate:
  assumes at: "rsdp_at m 0xE0000" and none: "\<And>i. i < 64 \<Longrightarrow> \<not> rsdp_at m (16 * of_nat i)" and seg: "load16 m 0x40E = 0"
  shows "find (rsdp_at m) (rsdp_candidates m) = Some 0xE0000"
proof -
  have "find (rsdp_at m) (map (\<lambda>i. 16 * of_nat i) [0..<64]) = None"
    using none by (auto simp: find_None_iff)
  note app = find_append [OF this]
  have "find (rsdp_at m) (map (\<lambda>i. 0xE0000 + 16 * of_nat i) [0..<Suc 8191]) = Some 0xE0000"
    by (subst find_map_upt_Suc) (simp add: at)
  moreover have "rsdp_candidates m
      = map (\<lambda>i. 16 * of_nat i) [0..<64] @ map (\<lambda>i. 0xE0000 + 16 * of_nat i) [0..<Suc 8191]"
  proof -
    have "ucast (0 :: u16) * 16 + x = (x :: u32)" for x by simp
    moreover have "(8192 :: nat) = Suc 8191" by simp
    ultimately show ?thesis by (simp only: rsdp_candidates_def seg)
  qed
  ultimately show ?thesis by (simp only: app)
qed

lemma get_rsdp_run:
  assumes "signature_at (mem s) sig"
  shows "get_rsdp sig s = Some (Inr (case find (rsdp_at (mem s)) (rsdp_candidates (mem s)) of
      Some p \<Rightarrow> (SYSINFO_SUCCESS, p) | None \<Rightarrow> (SYSINFO_RSDP_NOT_FOUND, 0)), s)"
proof -
  have P: "(\<lambda>p. memeq (mem s) sig p 8 \<and> is_rsdp_valid (mem s) p) = rsdp_at (mem s)"
    using assms by (auto simp: fun_eq_iff memeq_iff is_rsdp_valid_iff rsdp_at_def signature_at_def)
  let ?b = "ucast (load16 (mem s) 0x40E) * 16 :: u32"
  have ub: "unat ?b = unat (load16 (mem s) 0x40E) * 16" "unat (load16 (mem s) 0x40E) < 65536"
    using u16_bound [of "load16 (mem s) 0x40E"] by (simp_all add: unat_word_ariths)
  have ue: "unat (?b + 1024) = unat ?b + 1024" using ub by (simp add: unat_word_ariths)
  have 1: "rsdp_scan sig ?b (?b + 1024) s = Some (Inr (find (rsdp_at (mem s)) (map (\<lambda>i. ?b + 16 * of_nat i) [0..<64])), s)"
    using rsdp_scan_run [of 64 ?b "?b + 1024" sig s] ub by (simp add: ue P)
  have 2: "rsdp_scan sig 0xE0000 0xFFFFF s = Some (Inr (find (rsdp_at (mem s)) (map (\<lambda>i. 0xE0000 + 16 * of_nat i) [0..<8192])), s)"
    using rsdp_scan_run [of 8192 "0xE0000" "0xFFFFF" sig s] by (simp add: P del: upt_rec_numeral)
  have app: "find Q (xs @ ys) = (case find Q xs of None \<Rightarrow> find Q ys | Some x \<Rightarrow> Some x)" for Q :: "u32 \<Rightarrow> bool" and xs ys
    by (induction xs) auto
  show ?thesis
    by (simp add: get_rsdp_def EBDA_SEGMENT_FIELD_def EBDA_RSDP_SEARCH_SIZE_def BIOS_READ_ONLY_REGION_START_def
        BIOS_READ_ONLY_REGION_END_def exec_bind exec_basic 1 2 rsdp_candidates_def app del: upt_rec_numeral split: option.splits)
qed

lemma get_sysinfo_run:
  assumes "serves_e820 int15 token (ms @ [z])" and "ms \<noteq> []" "ascending (map region_of ms)"
    and "node_room s (5 * length ms + 3)" and sig: "signature_at (mem s) sig"
  shows "\<exists>zs head t. get_sysinfo int15 sig drive s = Some (Inr (case find (rsdp_at (mem s)) (rsdp_candidates (mem s)) of
        Some p \<Rightarrow> (SYSINFO_SUCCESS, Some \<lparr>si_boot_drive = drive, si_mem_regions = head, si_rsdp = p\<rparr>)
      | None \<Rightarrow> (SYSINFO_RSDP_NOT_FOUND, None)), t)
    \<and> regions_at t head zs \<and> usable_map zs \<and> length zs \<le> 2 * length ms + 2
    \<and> only_map (5 * length ms + 3) s t \<and> (\<forall>a. kind_at zs a = boot_map (map region_of ms) a)"
proof -
  from get_mem_regions_run [OF assms(1-4)] obtain zs head t where
    run: "get_mem_regions int15 0 s = Some (Inr (SYSINFO_SUCCESS, head), t)" and zs: "regions_at t head zs" "usable_map zs"
    "length zs \<le> 2 * length ms + 2" and t: "only_map (5 * length ms + 3) s t"
    and k: "\<forall>a. kind_at zs a = boot_map (map region_of ms) a" by blast
  have m: "mem t = mem s" by (rule only_map_frame(1) [OF t])
  with sig have "signature_at (mem t) sig" by simp
  note rsdp = get_rsdp_run [OF this]
  have "get_sysinfo int15 sig drive s = Some (Inr (case find (rsdp_at (mem s)) (rsdp_candidates (mem s)) of
        Some p \<Rightarrow> (SYSINFO_SUCCESS, Some \<lparr>si_boot_drive = drive, si_mem_regions = head, si_rsdp = p\<rparr>)
      | None \<Rightarrow> (SYSINFO_RSDP_NOT_FOUND, None)), t)"
    by (simp add: get_sysinfo_def exec_bind [of "get_mem_regions _ _"] run exec_bind [of "get_rsdp _"] rsdp m exec_basic
        split: option.splits)
  with zs t k show ?thesis by blast
qed

section \<open>Properties\<close>

text \<open>A machine with two ranges of memory above the low one, a hole between them, and a last entry.\<close>

definition example_e820 :: "mregion_t list" where
  "example_e820 =
    [\<lparr>mreg_base_addr = 0, mreg_size = 0x9F000, mreg_type = 1, mreg_ext_attr = 1\<rparr>,
     \<lparr>mreg_base_addr = 0x100000, mreg_size = 0xF00000, mreg_type = 1, mreg_ext_attr = 1\<rparr>,
     \<lparr>mreg_base_addr = 0x2000000, mreg_size = 0x1000000, mreg_type = 1, mreg_ext_attr = 1\<rparr>]"

definition example_last :: mregion_t where
  "example_last = \<lparr>mreg_base_addr = 0xFFFC0000, mreg_size = 0x40000, mreg_type = 2, mreg_ext_attr = 1\<rparr>"

lemma example_e820_ok:
  "serves_e820 (listed_int15 (example_e820 @ [example_last])) of_nat (example_e820 @ [example_last])"
  "example_e820 \<noteq> []" "ascending (map region_of example_e820)" "length example_e820 = 3"
  by (rule listed_int15_ok) (simp_all add: example_e820_def region_of_def proper_def limit_def)

lemma boot_state_room: "k \<le> 7021 \<Longrightarrow> node_room (boot_state m e) k"
  by (simp add: node_room_def room_def boot_state_def memory_map)

text \<open>
  C5. \<open>get_mem_regions\<close> terminates and builds the memory map of the BIOS: for entries in
  ascending order the list is tiled from address 0 on; everything below the real-mode limit
  is reserved, an address of an entry has the entry's type, and a hole between two entries
  is reserved, except that it takes their type when they agree. The entry that comes with the
  continuation value 0, the last one, never gets into the map, and a BIOS with that entry only
  is reported as an empty layout.
\<close>

theorem get_mem_regions_builds_map:
  assumes "serves_e820 int15 token (ms @ [z])" and "ascending (map region_of ms)"
    and "node_room s (5 * length ms + 3)"
  shows "if ms = [] then \<exists>e. get_mem_regions int15 0 s = Some (Inr (SYSINFO_EMPTY_MEMORY_LAYOUT, 0), s\<lparr>bios_env := e\<rparr>)
    else \<exists>zs head t. get_mem_regions int15 0 s = Some (Inr (SYSINFO_SUCCESS, head), t)
      \<and> regions_at t head zs \<and> usable_map zs \<and> only_map (5 * length ms + 3) s t
      \<and> (\<forall>a. kind_at zs a = boot_map (map region_of ms) a)"
proof (cases "ms = []")
  case True
  with get_mem_regions_empty [of int15 token z s] assms(1) show ?thesis by simp
next
  case False
  with get_mem_regions_run [OF assms(1) False assms(2,3)] show ?thesis by auto
qed

theorem get_mem_regions_builds_map_witness:
  "\<exists>zs head t. get_mem_regions (listed_int15 (example_e820 @ [example_last])) 0 (boot_state (\<lambda>_. 0) ())
      = Some (Inr (SYSINFO_SUCCESS, head), t) \<and> regions_at t head zs
    \<and> kind_at zs 0x1000 = Some SYSINFO_MT_RESERVED \<and> kind_at zs 0x200000 = Some SYSINFO_MT_USABLE
    \<and> kind_at zs 0x1800000 = Some SYSINFO_MT_USABLE \<and> kind_at zs 0xFFFC0000 = None"
proof -
  have room: "node_room (boot_state (\<lambda>_. 0) ()) (5 * length example_e820 + 3)"
    by (rule boot_state_room) (simp add: example_e820_ok(4))
  obtain zs head t where res: "get_mem_regions (listed_int15 (example_e820 @ [example_last])) 0 (boot_state (\<lambda>_. 0) ())
      = Some (Inr (SYSINFO_SUCCESS, head), t)" "regions_at t head zs"
    and k: "\<And>a. kind_at zs a = boot_map (map region_of example_e820) a"
    using get_mem_regions_builds_map [OF example_e820_ok(1,3) room] example_e820_ok(2) by auto
  show ?thesis
    by (intro exI conjI, rule res(1), rule res(2))
      (simp_all add: k boot_map_def example_e820_def region_of_def mregion_kind_def limit_def covers_def REAL_MODE_LIMIT_val)
qed

text \<open>
  C13. The root pointer of ACPI: \<open>get_rsdp\<close> terminates and gives the first address that carries
  the signature and valid checksums (the 20 bytes of the first version, and for later revisions
  the bytes up to the length field), of the addresses every 16 bytes in the first kilobyte of
  the extended BIOS data area and then in the BIOS area up to 1 MiB; it reports when there is
  none, and changes nothing.
\<close>

theorem get_rsdp_finds_first:
  assumes "signature_at (mem s) sig"
  shows "get_rsdp sig s = Some (Inr (case find (rsdp_at (mem s)) (rsdp_candidates (mem s)) of
      Some p \<Rightarrow> (SYSINFO_SUCCESS, p) | None \<Rightarrow> (SYSINFO_RSDP_NOT_FOUND, 0)), s)"
  by (rule get_rsdp_run [OF assms])

text \<open>A memory with the signature at 0x9000 and a root pointer of revision 0 at 0xE0000.\<close>

definition rsdp_memory :: memory where
  "rsdp_memory = blit 0x9000 8 (\<lambda>i. of_char (RSDP_SIGNATURE ! i))
     (blit 0xE0000 9 (\<lambda>i. of_char ((RSDP_SIGNATURE @ [CHR 0xE1]) ! i)) (\<lambda>_. 0))"

lemma rsdp_memory_ok: "signature_at rsdp_memory 0x9000" "rsdp_at rsdp_memory 0xE0000"
proof -
  have "rsdp_memory (0x9000 + of_nat i) = of_char (RSDP_SIGNATURE ! i)
      \<and> rsdp_memory (0xE0000 + of_nat i) = of_char (RSDP_SIGNATURE ! i)" if "i < 8" for i
  proof -
    have "i \<in> {0, 1, 2, 3, 4, 5, 6, 7}" using that by auto
    then show ?thesis
      by (elim insertE emptyE) (simp_all add: rsdp_memory_def blit_def RSDP_SIGNATURE_def)
  qed
  moreover have "sums_to_zero rsdp_memory 0xE0000 0 20"
  proof -
    have "[0..<20] = [0, 1, 2, 3, 4, 5, 6, 7, 8, 9, 10, 11, 12, 13, 14, 15, 16, 17, 18, 19 :: nat]"
      by (simp add: upt_conv_Cons)
    moreover have "(\<Sum>j = 0..<20. f j) = sum_list (map f [0..<20])" for f :: "nat \<Rightarrow> nat"
      by (simp add: interv_sum_list_conv_sum_set_nat)
    ultimately show ?thesis
      by (simp only: sums_to_zero_def list.map sum_list.Cons sum_list.Nil)
        (simp add: rsdp_memory_def blit_def RSDP_SIGNATURE_def)
  qed
  moreover have "rsdp_memory (0xE0000 + 15) = 0" by (simp add: rsdp_memory_def blit_def)
  ultimately show "signature_at rsdp_memory 0x9000" "rsdp_at rsdp_memory 0xE0000"
    by (auto simp: signature_at_def rsdp_at_def)
qed

lemma rsdp_memory_low: "unat x < 0x9000 \<Longrightarrow> rsdp_memory x = 0"
proof -
  assume x: "unat x < 0x9000"
  have "unat (x - 0x9000) \<ge> 8" "unat (x - 0xE0000) \<ge> 9"
    using x by (simp_all add: unat_sub_if_size word_size word_le_nat_alt)
  then show ?thesis by (simp add: rsdp_memory_def blit_def)
qed

lemma rsdp_memory_find: "find (rsdp_at rsdp_memory) (rsdp_candidates rsdp_memory) = Some 0xE0000"
proof -
  have seg: "load16 rsdp_memory 0x40E = 0" by (simp add: load16_def rsdp_memory_low)
  have none: "\<not> rsdp_at rsdp_memory (16 * of_nat i)" if "i < 64" for i
  proof -
    have "unat (16 * of_nat i :: u32) = 16 * i" using that by (simp add: unat_word_ariths unat_of_nat)
    then have "rsdp_memory (16 * of_nat i + of_nat 0) = 0" using that by (simp add: rsdp_memory_low)
    moreover have "(of_char (RSDP_SIGNATURE ! 0) :: u8) \<noteq> 0" by (simp add: RSDP_SIGNATURE_def)
    ultimately show ?thesis unfolding rsdp_at_def by (metis zero_less_numeral)
  qed
  show ?thesis
    by (rule first_candidate [OF rsdp_memory_ok(2) _ seg]) (rule none)
qed

theorem get_rsdp_finds_first_witness:
  "get_rsdp 0x9000 (boot_state rsdp_memory ()) = Some (Inr (SYSINFO_SUCCESS, 0xE0000), boot_state rsdp_memory ())"
  using get_rsdp_finds_first [of "boot_state rsdp_memory ()" "0x9000"] rsdp_memory_ok(1) rsdp_memory_find
  by (simp add: boot_state_def)

text \<open>
  C12. \<open>get_sysinfo\<close> terminates and, with a sound memory map, either hands out the boot drive,
  the list of regions and the first root pointer, or reports that there is no root pointer and
  sets nothing. The machine's memory, the extended stack and the output are untouched.
\<close>

theorem get_sysinfo_reports:
  assumes "serves_e820 int15 token (ms @ [z])" and "ms \<noteq> []" "ascending (map region_of ms)"
    and "node_room s (5 * length ms + 3)" and "signature_at (mem s) sig"
  shows "\<exists>zs head t. get_sysinfo int15 sig drive s = Some (Inr (case find (rsdp_at (mem s)) (rsdp_candidates (mem s)) of
        Some p \<Rightarrow> (SYSINFO_SUCCESS, Some \<lparr>si_boot_drive = drive, si_mem_regions = head, si_rsdp = p\<rparr>)
      | None \<Rightarrow> (SYSINFO_RSDP_NOT_FOUND, None)), t)
    \<and> regions_at t head zs \<and> usable_map zs \<and> (\<forall>a. kind_at zs a = boot_map (map region_of ms) a)
    \<and> mem t = mem s \<and> ext_stack_top t = ext_stack_top s \<and> int10_log t = int10_log s"
  using get_sysinfo_run [OF assms, of drive] only_map_frame by blast

theorem get_sysinfo_reports_witness:
  "\<exists>head t. get_sysinfo (listed_int15 (example_e820 @ [example_last])) 0x9000 0x80 (boot_state rsdp_memory ())
    = Some (Inr (SYSINFO_SUCCESS, Some \<lparr>si_boot_drive = 0x80, si_mem_regions = head, si_rsdp = 0xE0000\<rparr>), t)"
proof -
  have room: "node_room (boot_state rsdp_memory ()) (5 * length example_e820 + 3)"
    by (rule boot_state_room) (simp add: example_e820_ok(4))
  have sig: "signature_at (mem (boot_state rsdp_memory ())) 0x9000" by (simp add: boot_state_def rsdp_memory_ok)
  have m: "mem (boot_state rsdp_memory ()) = rsdp_memory" by (simp add: boot_state_def)
  from get_sysinfo_reports [OF example_e820_ok(1-3) room sig, of "0x80"] show ?thesis
    unfolding m rsdp_memory_find option.case by blast
qed

end
