(* ===== verification/Disk.thy ===== *)
theory Disk
  imports Mem Cstring
begin

text \<open>
  \<^verbatim>\<open>stage1/disk.c\<close>: reading sectors through the BIOS. The BIOS service behind \<open>int 0x13\<close> is a
  parameter of everything that reads: a function of the drive, the disk address packet, the
  BIOS's own state and the memory, giving the carry flag, \<open>ax\<close>, the BIOS's next state and the
  memory. What the code relies on is stated here as predicates on that function; the locale
  \<open>sector_reader\<close> is the interface the file system uses.
\<close>

section \<open>Status codes\<close>

text \<open>
  The named statuses, the one the code adds, and the bytes no enumerator names: the code
  casts the BIOS's status byte to the enumeration as it is.
\<close>

datatype disk_status_t =
    DISK_SUCCESS
  | DISK_INVALID_COMMAND
  | DISK_ADDR_MARK_NOT_FOUND
  | DISK_WRITE_ON_PROT_DISK
  | DISK_SECTOR_NOT_FOUND
  | DISK_RESET_FAILED
  | DISK_CHANGE_LINE_ACTIVE
  | DISK_PARAM_ACTIVITY_FAILED
  | DISK_DMA_OVERRUN
  | DISK_DMA_OVER_BOUNDARY
  | DISK_BAD_SECTOR
  | DISK_BAD_CYLINDER
  | DISK_MEDIA_TYPE_NOT_FOUND
  | DISK_INVALID_NUM_SECTORS
  | DISK_CTRL_DATA_ADDR_MARK
  | DISK_DMA_OUT_OF_RANGE
  | DISK_CRC_ECC_DATA_ERR
  | DISK_ECC_CORRECTED_DATA_ERR
  | DISK_CONTROLLER_FAILURE
  | DISK_SEEK_FAILURE
  | DISK_DRIVE_TIMED_OUT
  | DISK_DRIVE_NOT_READY
  | DISK_UNDEFINED_ERR
  | DISK_WRITE_FAULT
  | DISK_STATUS_ERR
  | DISK_SENSE_OPERATION_FAILED
  | DISK_ADDR_OVER_REAL_BOUNDARY
  | DISK_UNNAMED u8

text \<open>The value of each enumerator.\<close>

fun disk_status_value :: "disk_status_t \<Rightarrow> u32" where
  "disk_status_value DISK_SUCCESS = 0x00"
| "disk_status_value DISK_INVALID_COMMAND = 0x01"
| "disk_status_value DISK_ADDR_MARK_NOT_FOUND = 0x02"
| "disk_status_value DISK_WRITE_ON_PROT_DISK = 0x03"
| "disk_status_value DISK_SECTOR_NOT_FOUND = 0x04"
| "disk_status_value DISK_RESET_FAILED = 0x05"
| "disk_status_value DISK_CHANGE_LINE_ACTIVE = 0x06"
| "disk_status_value DISK_PARAM_ACTIVITY_FAILED = 0x07"
| "disk_status_value DISK_DMA_OVERRUN = 0x08"
| "disk_status_value DISK_DMA_OVER_BOUNDARY = 0x09"
| "disk_status_value DISK_BAD_SECTOR = 0x0a"
| "disk_status_value DISK_BAD_CYLINDER = 0x0b"
| "disk_status_value DISK_MEDIA_TYPE_NOT_FOUND = 0x0c"
| "disk_status_value DISK_INVALID_NUM_SECTORS = 0x0d"
| "disk_status_value DISK_CTRL_DATA_ADDR_MARK = 0x0e"
| "disk_status_value DISK_DMA_OUT_OF_RANGE = 0x0f"
| "disk_status_value DISK_CRC_ECC_DATA_ERR = 0x10"
| "disk_status_value DISK_ECC_CORRECTED_DATA_ERR = 0x11"
| "disk_status_value DISK_CONTROLLER_FAILURE = 0x20"
| "disk_status_value DISK_SEEK_FAILURE = 0x40"
| "disk_status_value DISK_DRIVE_TIMED_OUT = 0x80"
| "disk_status_value DISK_DRIVE_NOT_READY = 0xaa"
| "disk_status_value DISK_UNDEFINED_ERR = 0xbb"
| "disk_status_value DISK_WRITE_FAULT = 0xcc"
| "disk_status_value DISK_STATUS_ERR = 0xe0"
| "disk_status_value DISK_SENSE_OPERATION_FAILED = 0xff"
| "disk_status_value DISK_ADDR_OVER_REAL_BOUNDARY = 0x100"
| "disk_status_value (DISK_UNNAMED b) = ucast b"

definition named_statuses :: "disk_status_t list" where
  "named_statuses = [DISK_SUCCESS, DISK_INVALID_COMMAND, DISK_ADDR_MARK_NOT_FOUND,
     DISK_WRITE_ON_PROT_DISK, DISK_SECTOR_NOT_FOUND, DISK_RESET_FAILED, DISK_CHANGE_LINE_ACTIVE,
     DISK_PARAM_ACTIVITY_FAILED, DISK_DMA_OVERRUN, DISK_DMA_OVER_BOUNDARY, DISK_BAD_SECTOR,
     DISK_BAD_CYLINDER, DISK_MEDIA_TYPE_NOT_FOUND, DISK_INVALID_NUM_SECTORS,
     DISK_CTRL_DATA_ADDR_MARK, DISK_DMA_OUT_OF_RANGE, DISK_CRC_ECC_DATA_ERR,
     DISK_ECC_CORRECTED_DATA_ERR, DISK_CONTROLLER_FAILURE, DISK_SEEK_FAILURE,
     DISK_DRIVE_TIMED_OUT, DISK_DRIVE_NOT_READY, DISK_UNDEFINED_ERR, DISK_WRITE_FAULT,
     DISK_STATUS_ERR, DISK_SENSE_OPERATION_FAILED, DISK_ADDR_OVER_REAL_BOUNDARY]"

text \<open>The cast \<^verbatim>\<open>(disk_status_t)\<close> of a status byte.\<close>

definition disk_status_of_byte :: "u8 \<Rightarrow> disk_status_t" where
  "disk_status_of_byte b =
     (case find (\<lambda>st. disk_status_value st = ucast b) named_statuses of
       Some st \<Rightarrow> st | None \<Rightarrow> DISK_UNNAMED b)"

fun disk_status_to_str :: "disk_status_t \<Rightarrow> string" where
  "disk_status_to_str DISK_SUCCESS = ''Success''"
| "disk_status_to_str DISK_INVALID_COMMAND = ''Invalid command''"
| "disk_status_to_str DISK_ADDR_MARK_NOT_FOUND = ''Address mark not found''"
| "disk_status_to_str DISK_WRITE_ON_PROT_DISK = ''Write on protected disk''"
| "disk_status_to_str DISK_SECTOR_NOT_FOUND = ''Sector not found''"
| "disk_status_to_str DISK_RESET_FAILED = ''Reset failed''"
| "disk_status_to_str DISK_CHANGE_LINE_ACTIVE = ''Change line active''"
| "disk_status_to_str DISK_PARAM_ACTIVITY_FAILED = ''Parameter activity failed''"
| "disk_status_to_str DISK_DMA_OVERRUN = ''DMA overrun''"
| "disk_status_to_str DISK_DMA_OVER_BOUNDARY = ''DMA over 64K boundary''"
| "disk_status_to_str DISK_BAD_SECTOR = ''Bad sector''"
| "disk_status_to_str DISK_BAD_CYLINDER = ''Bad cylinder''"
| "disk_status_to_str DISK_MEDIA_TYPE_NOT_FOUND = ''Media type not found''"
| "disk_status_to_str DISK_INVALID_NUM_SECTORS = ''Invalid number of sectors''"
| "disk_status_to_str DISK_CTRL_DATA_ADDR_MARK = ''Control data address mark detected''"
| "disk_status_to_str DISK_DMA_OUT_OF_RANGE = ''DMA out of range''"
| "disk_status_to_str DISK_CRC_ECC_DATA_ERR = ''CRC/ECC data error''"
| "disk_status_to_str DISK_ECC_CORRECTED_DATA_ERR = ''ECC corrected data error''"
| "disk_status_to_str DISK_CONTROLLER_FAILURE = ''Controller failure''"
| "disk_status_to_str DISK_SEEK_FAILURE = ''Seek failure''"
| "disk_status_to_str DISK_DRIVE_TIMED_OUT = ''Drive timed out''"
| "disk_status_to_str DISK_DRIVE_NOT_READY = ''Drive not ready''"
| "disk_status_to_str DISK_UNDEFINED_ERR = ''Undefined error''"
| "disk_status_to_str DISK_WRITE_FAULT = ''Write fault''"
| "disk_status_to_str DISK_STATUS_ERR = ''Status error''"
| "disk_status_to_str DISK_SENSE_OPERATION_FAILED = ''Sense operation failed''"
| "disk_status_to_str _ = ''Unknown disk status''"

section \<open>Reading sectors\<close>

text \<open>The disk address packet.\<close>

record dap_t =
  dap_size :: u8
  dap_zero :: u8
  dap_num_sect :: u16
  dap_buf_offset :: u16
  dap_buf_segment :: u16
  dap_lba :: u64

type_synonym 'e int13 = "u8 \<Rightarrow> dap_t \<Rightarrow> 'e \<Rightarrow> memory \<Rightarrow> bool \<times> u16 \<times> 'e \<times> memory"

definition dap_of :: "u32 \<Rightarrow> u64 \<Rightarrow> u16 \<Rightarrow> dap_t" where
  "dap_of addr lba sector_count =
     (let segment = ucast (min_u32 (drop_bit 4 addr) 0xffff) :: u16;
          offset = ucast (addr - ucast segment * 16) :: u16
      in \<lparr>dap_size = 0x10, dap_zero = 0, dap_num_sect = sector_count,
          dap_buf_offset = offset, dap_buf_segment = segment, dap_lba = lba\<rparr>)"

definition disk_read ::
  "'e int13 \<Rightarrow> u8 \<Rightarrow> u64 \<Rightarrow> u32 \<Rightarrow> u16 \<Rightarrow> ('e machine, disk_status_t) cmd"
where
  "disk_read int13 drive_number lba buffer sector_count =
     (if buffer > REAL_MODE_LIMIT then ret DISK_ADDR_OVER_REAL_BOUNDARY
      else bind (gets (\<lambda>s. int13 drive_number (dap_of buffer lba sector_count) (bios_env s) (mem s)))
        (\<lambda>(has_error, return_code, env, m).
          bind (modify (\<lambda>s. s\<lparr>bios_env := env, mem := m\<rparr>)) (\<lambda>_.
          ret (if has_error then disk_status_of_byte (ucast (drop_bit 8 return_code))
               else DISK_SUCCESS))))"

section \<open>What the BIOS promises\<close>

text \<open>The linear address of a packet's buffer.\<close>

definition dap_addr :: "dap_t \<Rightarrow> u32" where
  "dap_addr d = 16 * ucast (dap_buf_segment d) + ucast (dap_buf_offset d)"

type_synonym disk = "u64 \<Rightarrow> nat \<Rightarrow> u8"

text \<open>The bytes of the disk from sector \<open>lba\<close> on, in sectors of \<open>ssz\<close> bytes.\<close>

definition disk_bytes :: "disk \<Rightarrow> nat \<Rightarrow> u64 \<Rightarrow> nat \<Rightarrow> u8" where
  "disk_bytes d ssz lba i = d (lba + of_nat (i div ssz)) (i mod ssz)"

text \<open>
  An extended read without carry has put the sectors at the buffer and changed no other byte;
  with carry it has changed at most the buffer. (\<open>AH=42h\<close> of the Enhanced Disk Drive
  specification.)
\<close>

definition edd_read :: "'e int13 \<Rightarrow> u8 \<Rightarrow> disk \<Rightarrow> nat \<Rightarrow> bool" where
  "edd_read int13 drv d ssz \<longleftrightarrow> (\<forall>dap e m.
     case int13 drv dap e m of (cf, ax, e', m') \<Rightarrow>
       (\<not> cf \<longrightarrow> m' = blit (dap_addr dap) (unat (dap_num_sect dap) * ssz) (disk_bytes d ssz (dap_lba dap)) m)
       \<and> (cf \<longrightarrow> (\<forall>x. \<not> in_range (dap_addr dap) (unat (dap_num_sect dap) * ssz) x \<longrightarrow> m' x = m x)))"

lemma edd_readD:
  assumes "edd_read int13 drv d ssz" and "int13 drv dap e m = (cf, ax, e', m')"
  shows "\<not> cf \<Longrightarrow> m' = blit (dap_addr dap) (unat (dap_num_sect dap) * ssz) (disk_bytes d ssz (dap_lba dap)) m"
    and "cf \<Longrightarrow> \<not> in_range (dap_addr dap) (unat (dap_num_sect dap) * ssz) x \<Longrightarrow> m' x = m x"
proof -
  note assms(1) [unfolded edd_read_def, THEN spec [of _ dap], THEN spec [of _ e], THEN spec [of _ m],
      unfolded assms(2) prod.case]
  then show "\<not> cf \<Longrightarrow> m' = blit (dap_addr dap) (unat (dap_num_sect dap) * ssz) (disk_bytes d ssz (dap_lba dap)) m"
    and "cf \<Longrightarrow> \<not> in_range (dap_addr dap) (unat (dap_num_sect dap) * ssz) x \<Longrightarrow> m' x = m x"
    by simp_all
qed

text \<open>A drive on which no read fails.\<close>

definition no_read_errors :: "'e int13 \<Rightarrow> u8 \<Rightarrow> bool" where
  "no_read_errors int13 drv \<longleftrightarrow> (\<forall>dap e m. \<not> fst (int13 drv dap e m))"

text \<open>A BIOS that keeps both promises, for witnesses.\<close>

definition perfect_int13 :: "disk \<Rightarrow> nat \<Rightarrow> 'e int13" where
  "perfect_int13 d ssz drv dap e m =
     (False, 0, e, blit (dap_addr dap) (unat (dap_num_sect dap) * ssz) (disk_bytes d ssz (dap_lba dap)) m)"

lemma perfect_int13_ok: "edd_read (perfect_int13 d ssz) drv d ssz" "no_read_errors (perfect_int13 d ssz) drv"
  by (simp_all add: edd_read_def no_read_errors_def perfect_int13_def)

section \<open>The packet names the buffer\<close>

lemma dap_addr_dap_of:
  assumes "\<not> buffer > REAL_MODE_LIMIT"
  shows "dap_addr (dap_of buffer lba n) = buffer"
proof -
  have le: "unat buffer \<le> 1114095"
    using assms by (simp add: REAL_MODE_LIMIT_val word_le_nat_alt not_less)
  have d4: "unat (drop_bit 4 buffer) = unat buffer div 16"
    by (simp add: unat_drop_bit_eq drop_bit_eq_div [of _ "unat _"])
  define seg :: u16 where "seg = ucast (min_u32 (drop_bit 4 buffer) 0xffff)"
  define off :: u16 where "off = ucast (buffer - ucast seg * 16)"
  have useg: "unat seg = min (unat buffer div 16) 65535"
    by (simp add: seg_def unsigned_ucast_eq take_bit_nat_eq_self d4)
  have pseg: "unat (ucast seg * 16 :: u32) = 16 * min (unat buffer div 16) 65535"
    by (simp add: unat_word_ariths unsigned_ucast_eq take_bit_nat_eq_self useg)
  have le2: "ucast seg * 16 \<le> buffer"
    unfolding word_le_nat_alt pseg by simp
  have uoff: "unat off = unat buffer - 16 * min (unat buffer div 16) 65535"
  proof -
    have "unat buffer - 16 * min (unat buffer div 16) 65535 < 65536"
      using le by (auto simp: min_def)
    then show ?thesis
      by (simp add: off_def unsigned_ucast_eq unat_sub [OF le2] pseg take_bit_nat_eq_self)
  qed
  have "unat (dap_addr (dap_of buffer lba n)) = unat buffer"
    using le
    by (simp add: dap_addr_def dap_of_def Let_def unat_word_ariths unsigned_ucast_eq
        take_bit_nat_eq_self useg uoff flip: seg_def off_def)
  then show ?thesis by (simp only: word_unat_eq_iff)
qed

lemma dap_of_fields [simp]:
  "dap_num_sect (dap_of b lba n) = n"
  "dap_lba (dap_of b lba n) = lba"
  by (simp_all add: dap_of_def Let_def)

lemma disk_status_of_byte_value: "disk_status_value (disk_status_of_byte b) = ucast b"
  by (auto simp: disk_status_of_byte_def find_Some_iff split: option.splits)

section \<open>What disk_read does\<close>

lemma disk_read_high:
  "buffer > REAL_MODE_LIMIT \<Longrightarrow>
   disk_read int13 drv lba buffer n s = Some (Inr DISK_ADDR_OVER_REAL_BOUNDARY, s)"
  by (simp add: disk_read_def exec)

lemma disk_read_low:
  fixes int13 :: "'e int13"
  assumes "\<not> buffer > REAL_MODE_LIMIT"
    and "int13 drv (dap_of buffer lba n) (bios_env s) (mem s) = (cf, ax, e, m)"
  shows "disk_read int13 drv lba buffer n s =
    Some (Inr (if cf then disk_status_of_byte (ucast (drop_bit 8 ax)) else DISK_SUCCESS),
      s\<lparr>bios_env := e, mem := m\<rparr>)"
  using assms by (simp add: disk_read_def exec_bind exec)

lemma disk_read_total:
  fixes int13 :: "'e int13"
  shows
  "\<exists>st e m. disk_read int13 drv lba buffer n s = Some (Inr st, s\<lparr>bios_env := e, mem := m\<rparr>)"
proof (cases "buffer > REAL_MODE_LIMIT")
  case True
  have "s = s\<lparr>bios_env := bios_env s, mem := mem s\<rparr>" by simp
  with disk_read_high [OF True] show ?thesis by metis
next
  case False
  obtain cf ax e m where "int13 drv (dap_of buffer lba n) (bios_env s) (mem s) = (cf, ax, e, m)"
    by (cases "int13 drv (dap_of buffer lba n) (bios_env s) (mem s)") auto
  from disk_read_low [of buffer int13, OF False this] show ?thesis by blast
qed

lemma disk_read_data:
  fixes int13 :: "'e int13"
  assumes edd: "edd_read int13 drv d ssz" and ok: "no_read_errors int13 drv"
    and low: "\<not> buffer > REAL_MODE_LIMIT"
  shows "\<exists>e. disk_read int13 drv lba buffer n s = Some (Inr DISK_SUCCESS,
    s\<lparr>bios_env := e, mem := blit buffer (unat n * ssz) (disk_bytes d ssz lba) (mem s)\<rparr>)"
proof -
  let ?dap = "dap_of buffer lba n"
  obtain cf ax e m where run: "int13 drv ?dap (bios_env s) (mem s) = (cf, ax, e, m)"
    by (cases "int13 drv ?dap (bios_env s) (mem s)") auto
  have "\<not> cf" using ok run unfolding no_read_errors_def by (metis fst_conv)
  moreover from this have "m = blit buffer (unat n * ssz) (disk_bytes d ssz lba) (mem s)"
    using edd_readD(1) [OF edd run] by (simp add: dap_addr_dap_of [OF low])
  ultimately show ?thesis using disk_read_low [of buffer int13, OF low run] by auto
qed

lemma disk_read_frame:
  fixes int13 :: "'e int13"
  assumes edd: "edd_read int13 drv d ssz"
    and run: "disk_read int13 drv lba buffer n s = Some (Inr st, t)"
    and out: "\<not> in_range buffer (unat n * ssz) x"
  shows "mem t x = mem s x"
proof (cases "buffer > REAL_MODE_LIMIT")
  case True
  with run show ?thesis by (simp add: disk_read_high)
next
  case False
  let ?dap = "dap_of buffer lba n"
  obtain cf ax e m where i: "int13 drv ?dap (bios_env s) (mem s) = (cf, ax, e, m)"
    by (cases "int13 drv ?dap (bios_env s) (mem s)") auto
  have "m x = mem s x"
    using edd_readD(1) [OF edd i] edd_readD(2) [OF edd i, of x] out
    by (cases cf) (simp_all add: dap_addr_dap_of [OF False] blit_out)
  with run disk_read_low [of buffer int13, OF False i] show ?thesis by auto
qed

section \<open>The interface of the sector reader\<close>

text \<open>
  What the file system relies on: a read always comes back, touching nothing but the memory
  and the BIOS's state; with a working drive and a buffer the BIOS can reach it succeeds and
  delivers the sectors; and it never writes outside the buffer.
\<close>

locale sector_reader =
  fixes rd :: "'e int13 \<Rightarrow> u8 \<Rightarrow> u64 \<Rightarrow> u32 \<Rightarrow> u16 \<Rightarrow> ('e machine, disk_status_t) cmd"
  assumes rd_total: "\<exists>st e m. rd int13 drv lba buffer n s = Some (Inr st, s\<lparr>bios_env := e, mem := m\<rparr>)"
    and rd_data: "edd_read int13 drv d ssz \<Longrightarrow> no_read_errors int13 drv \<Longrightarrow> \<not> buffer > REAL_MODE_LIMIT \<Longrightarrow>
      \<exists>e. rd int13 drv lba buffer n s = Some (Inr DISK_SUCCESS,
        s\<lparr>bios_env := e, mem := blit buffer (unat n * ssz) (disk_bytes d ssz lba) (mem s)\<rparr>)"
    and rd_frame: "edd_read int13 drv d ssz \<Longrightarrow> rd int13 drv lba buffer n s = Some (Inr st, t) \<Longrightarrow>
      \<not> in_range buffer (unat n * ssz) x \<Longrightarrow> mem t x = mem s x"
begin

lemma rd_balanced: "ext_stack.balanced (rd int13 drv lba buffer n)"
proof (rule ext_stack.balancedI)
  fix s
  obtain st e m where "rd int13 drv lba buffer n s = Some (Inr st, s\<lparr>bios_env := e, mem := m\<rparr>)"
    using rd_total by blast
  then show "partial (rd int13 drv lba buffer n) (\<lambda>_ t. ext_stack_top t = ext_stack_top s) s"
    by (simp add: wp_def)
qed

text \<open>
  A read into a scratch block of the extended stack, a look at it, and the block given back:
  with a working drive the look sees the sectors, and afterwards only the scratch block and
  the BIOS's state have changed.
\<close>

lemma scratch_read:
  assumes edd: "edd_read int13 drv d ssz" and ok: "no_read_errors int13 drv"
    and st: "ext_stack_ok s" and room: "ext_room sz s"
    and fits: "unat n * ssz \<le> unat sz"
  shows "\<exists>e. bind (push sz) (\<lambda>b. bind (rd int13 drv lba b n) (\<lambda>st.
      bind (gets (\<lambda>s. look (mem s) b st)) (\<lambda>r. bind (pop sz) (\<lambda>_. ret r)))) s
    = Some (Inr (look (blit (ext_stack_top s - sz) (unat n * ssz) (disk_bytes d ssz lba) (mem s))
          (ext_stack_top s - sz) DISK_SUCCESS),
        s\<lparr>bios_env := e, mem := blit (ext_stack_top s - sz) (unat n * ssz) (disk_bytes d ssz lba) (mem s)\<rparr>)"
proof -
  let ?b = "ext_stack_top s - sz"
  let ?s1 = "s\<lparr>ext_stack_top := ?b\<rparr>"
  have "ext_stack_ok ?s1" using push_keeps_ok [OF st room] .
  then have low: "\<not> ?b > REAL_MODE_LIMIT"
    unfolding ext_stack_ok_def memory_map by (simp add: word_le_nat_alt word_less_nat_alt not_less)
  from rd_data [OF edd ok low, of lba n ?s1] obtain e where
    run: "rd int13 drv lba ?b n ?s1 = Some (Inr DISK_SUCCESS, ?s1\<lparr>bios_env := e,
      mem := blit ?b (unat n * ssz) (disk_bytes d ssz lba) (mem s)\<rparr>)"
    by auto
  show ?thesis
    by (rule exI [of _ e])
      (simp add: exec_bind push_run [OF room] run exec pop_after_push [OF st room])
qed

end

interpretation bios_disk: sector_reader disk_read
  by unfold_locales (rule disk_read_total, erule (2) disk_read_data, erule (2) disk_read_frame)

section \<open>Properties\<close>

text \<open>
  For every buffer the code lets through, the segment and offset of the disk address
  packet name exactly that buffer, in spite of the clamping of the segment, and every status
  byte of the BIOS is kept by the cast to the status enumeration.
\<close>

theorem dap_names_buffer:
  "(buffer \<le> REAL_MODE_LIMIT \<longrightarrow>
      dap_addr (dap_of buffer lba n) = buffer \<and> dap_num_sect (dap_of buffer lba n) = n
      \<and> dap_lba (dap_of buffer lba n) = lba)
   \<and> disk_status_value (disk_status_of_byte b) = ucast b"
  by (simp add: dap_addr_dap_of disk_status_of_byte_value not_less)

theorem dap_names_buffer_witness:
  "dap_addr (dap_of 0x10FFEF 7 3) = 0x10FFEF \<and> disk_status_value (disk_status_of_byte 0x99) = 0x99"
  using dap_names_buffer [of "0x10FFEF" 7 3 "0x99"] by (simp add: REAL_MODE_LIMIT_val)

text \<open>
  C23. \<open>disk_read\<close> always comes back. With a BIOS that keeps to the extended-read contract and
  a drive without read errors, a buffer the BIOS can reach is filled with the sectors asked
  for, the status is success, and no other byte and neither stack has changed; a buffer above
  the real-mode limit is refused and nothing changes.
\<close>

theorem disk_read_delivers:
  assumes "edd_read int13 drv d ssz" and "no_read_errors int13 drv"
  shows "if buffer > REAL_MODE_LIMIT
    then disk_read int13 drv lba buffer n s = Some (Inr DISK_ADDR_OVER_REAL_BOUNDARY, s)
    else \<exists>e. disk_read int13 drv lba buffer n s = Some (Inr DISK_SUCCESS,
      s\<lparr>bios_env := e, mem := blit buffer (unat n * ssz) (disk_bytes d ssz lba) (mem s)\<rparr>)"
  using disk_read_data [OF assms] by (simp add: disk_read_high)

theorem disk_read_delivers_witness:
  "\<exists>e. disk_read (perfect_int13 (\<lambda>l i. of_nat i) 4) 0x80 5 0x70000 2 (boot_state (\<lambda>_. 0) ()) =
     Some (Inr DISK_SUCCESS, (boot_state (\<lambda>_. 0) ())\<lparr>bios_env := e,
       mem := blit 0x70000 8 (disk_bytes (\<lambda>l i. of_nat i) 4 5) (\<lambda>_. 0)\<rparr>)"
  using disk_read_delivers [OF perfect_int13_ok(1) perfect_int13_ok(2),
      where buffer = "0x70000" and n = 2 and lba = 5 and s = "boot_state (\<lambda>_. 0) ()"]
  by (simp add: REAL_MODE_LIMIT_val boot_state_def)

end
