(* ===== verification/Fat_Layout.thy ===== *)
theory Fat_Layout
  imports Disk
begin

text \<open>
  The structures of \<^verbatim>\<open>stage1/fat.h\<close> as they lie on the disk, the volume geometry of
  \<^verbatim>\<open>stage1/fat.c\<close> and \<open>fat_mount\<close>. A packed structure is a record with a decoder from the
  bytes at an address; the union of the two extended parameter blocks is its raw bytes, with
  one decoder per member. The lemmas relate the decoders to the disk's bytes and the wrapping
  geometry arithmetic to the numbers it means on a consistent volume.
\<close>

section \<open>Structures\<close>

record fat_bpb_t =
  bpb_jmp :: "u8 list"
  bpb_oem :: "u8 list"
  bytes_per_sector :: u16
  sectors_per_cluster :: u8
  reserved_sectors :: u16
  num_fats :: u8
  root_entry_count :: u16
  total_sectors_16 :: u16
  media :: u8
  fat_size_16 :: u16
  sectors_per_track :: u16
  num_heads :: u16
  hidden_sectors :: u32
  total_sectors_32 :: u32

record fat_bpb_ext_12_16_t =
  e16_drive_number :: u8
  e16_reserved1 :: u8
  e16_boot_signature :: u8
  e16_volume_id :: u32
  e16_volume_label :: "u8 list"
  e16_file_system_type :: "u8 list"

record fat_bpb_ext_32_t =
  fat_size_32 :: u32
  extended_flags :: u16
  fs_version :: u16
  root_cluster :: u32
  fs_info :: u16
  backup_boot_sector :: u16
  e32_reserved :: "u8 list"
  e32_drive_number :: u8
  e32_reserved1 :: u8
  e32_boot_signature :: u8
  e32_volume_id :: u32
  e32_volume_label :: "u8 list"
  e32_file_system_type :: "u8 list"

record fat_dirent_t =
  de_name :: "u8 list"
  de_attr :: u8
  de_ntres :: u8
  de_crt_time_tenth :: u8
  de_crt_time :: u16
  de_crt_date :: u16
  de_lst_acc_date :: u16
  de_fst_clus_hi :: u16
  de_wrt_time :: u16
  de_wrt_date :: u16
  de_fst_clus_lo :: u16
  de_file_size :: u32

definition FAT_ATTR_READ_ONLY :: u8 where "FAT_ATTR_READ_ONLY = 0x01"
definition FAT_ATTR_HIDDEN :: u8 where "FAT_ATTR_HIDDEN = 0x02"
definition FAT_ATTR_SYSTEM :: u8 where "FAT_ATTR_SYSTEM = 0x04"
definition FAT_ATTR_VOLUME_ID :: u8 where "FAT_ATTR_VOLUME_ID = 0x08"
definition FAT_ATTR_DIRECTORY :: u8 where "FAT_ATTR_DIRECTORY = 0x10"
definition FAT_ATTR_ARCHIVE :: u8 where "FAT_ATTR_ARCHIVE = 0x20"
definition FAT_ATTR_LONG_NAME :: u8 where
  "FAT_ATTR_LONG_NAME = FAT_ATTR_READ_ONLY OR FAT_ATTR_HIDDEN OR FAT_ATTR_SYSTEM OR FAT_ATTR_VOLUME_ID"

lemmas fat_attrs =
  FAT_ATTR_READ_ONLY_def FAT_ATTR_HIDDEN_def FAT_ATTR_SYSTEM_def FAT_ATTR_VOLUME_ID_def
  FAT_ATTR_DIRECTORY_def FAT_ATTR_ARCHIVE_def FAT_ATTR_LONG_NAME_def

text \<open>
  A volume's type is only ever what \<open>get_fat_type\<close> returns, so the \<open>default\<close> branches of the
  switches over it are never taken and have no case here.
\<close>

datatype fat_type_t = FAT_TYPE_12 | FAT_TYPE_16 | FAT_TYPE_32

text \<open>\<open>fat_bpb_ext\<close> is the union: its 54 bytes.\<close>

record fat_t =
  drive_number :: u8
  fat_type :: fat_type_t
  first_fat_sector :: u32
  first_data_sector :: u32
  root_dir_sectors :: u16
  total_sectors :: u32
  cluster_count :: u32
  fat_size :: u32
  fat_bpb :: fat_bpb_t
  fat_bpb_ext :: "u8 list"

record fat_file_t =
  file_fat :: fat_t
  file_entry :: fat_dirent_t

datatype fat_result_t =
    FAT_SUCCESS
  | FAT_UNKNOWN_FAT_TYPE
  | FAT_DISK_ERROR
  | FAT_NOT_ABSOLUTE_PATH
  | FAT_FILE_NOT_FOUND
  | FAT_IS_DIRECTORY
  | FAT_OUT_OF_FILE_BOUNDS
  | FAT_UNKNOWN

fun fat_result_to_str :: "fat_result_t \<Rightarrow> string" where
  "fat_result_to_str FAT_SUCCESS = ''Success''"
| "fat_result_to_str FAT_UNKNOWN_FAT_TYPE = ''Unknown FAT type''"
| "fat_result_to_str FAT_DISK_ERROR = ''Disk Error''"
| "fat_result_to_str FAT_NOT_ABSOLUTE_PATH = ''Not absolute path''"
| "fat_result_to_str FAT_FILE_NOT_FOUND = ''File not found''"
| "fat_result_to_str FAT_IS_DIRECTORY = ''Is a directory''"
| "fat_result_to_str FAT_UNKNOWN = ''Unknown error''"
| "fat_result_to_str _ = ''Unknown (not a recognized error)''"

section \<open>Decoding\<close>

text \<open>The bytes at an address, and little-endian numbers in a byte list.\<close>

definition bytes_at :: "memory \<Rightarrow> u32 \<Rightarrow> nat \<Rightarrow> u8 list" where
  "bytes_at m a n = map (\<lambda>i. m (a + of_nat i)) [0..<n]"

definition le16 :: "u8 list \<Rightarrow> nat \<Rightarrow> u16" where
  "le16 xs i = ucast (xs ! i) + 256 * ucast (xs ! (i + 1))"

definition le32 :: "u8 list \<Rightarrow> nat \<Rightarrow> u32" where
  "le32 xs i = ucast (xs ! i) + 256 * ucast (xs ! (i + 1))
     + 65536 * ucast (xs ! (i + 2)) + 16777216 * ucast (xs ! (i + 3))"

definition sub_bytes :: "u8 list \<Rightarrow> nat \<Rightarrow> nat \<Rightarrow> u8 list" where
  "sub_bytes xs i n = take n (drop i xs)"

definition decode_bpb :: "u8 list \<Rightarrow> fat_bpb_t" where
  "decode_bpb b = \<lparr>
     bpb_jmp = sub_bytes b 0 3,
     bpb_oem = sub_bytes b 3 8,
     bytes_per_sector = le16 b 11,
     sectors_per_cluster = b ! 13,
     reserved_sectors = le16 b 14,
     num_fats = b ! 16,
     root_entry_count = le16 b 17,
     total_sectors_16 = le16 b 19,
     media = b ! 21,
     fat_size_16 = le16 b 22,
     sectors_per_track = le16 b 24,
     num_heads = le16 b 26,
     hidden_sectors = le32 b 28,
     total_sectors_32 = le32 b 32\<rparr>"

definition ext_12_16 :: "u8 list \<Rightarrow> fat_bpb_ext_12_16_t" where
  "ext_12_16 b = \<lparr>
     e16_drive_number = b ! 0,
     e16_reserved1 = b ! 1,
     e16_boot_signature = b ! 2,
     e16_volume_id = le32 b 3,
     e16_volume_label = sub_bytes b 7 11,
     e16_file_system_type = sub_bytes b 18 8\<rparr>"

definition ext_32 :: "u8 list \<Rightarrow> fat_bpb_ext_32_t" where
  "ext_32 b = \<lparr>
     fat_size_32 = le32 b 0,
     extended_flags = le16 b 4,
     fs_version = le16 b 6,
     root_cluster = le32 b 8,
     fs_info = le16 b 12,
     backup_boot_sector = le16 b 14,
     e32_reserved = sub_bytes b 16 12,
     e32_drive_number = b ! 28,
     e32_reserved1 = b ! 29,
     e32_boot_signature = b ! 30,
     e32_volume_id = le32 b 31,
     e32_volume_label = sub_bytes b 35 11,
     e32_file_system_type = sub_bytes b 46 8\<rparr>"

definition decode_dirent :: "u8 list \<Rightarrow> fat_dirent_t" where
  "decode_dirent b = \<lparr>
     de_name = sub_bytes b 0 11,
     de_attr = b ! 11,
     de_ntres = b ! 12,
     de_crt_time_tenth = b ! 13,
     de_crt_time = le16 b 14,
     de_crt_date = le16 b 16,
     de_lst_acc_date = le16 b 18,
     de_fst_clus_hi = le16 b 20,
     de_wrt_time = le16 b 22,
     de_wrt_date = le16 b 24,
     de_fst_clus_lo = le16 b 26,
     de_file_size = le32 b 28\<rparr>"

section \<open>Geometry\<close>

definition get_fat_type :: "u32 \<Rightarrow> fat_type_t" where
  "get_fat_type count =
     (if count < 4085 then FAT_TYPE_12 else if count < 65525 then FAT_TYPE_16 else FAT_TYPE_32)"

definition get_count_of_clusters :: "fat_bpb_t \<Rightarrow> u32 \<Rightarrow> u32 \<Rightarrow> u32" where
  "get_count_of_clusters bpb all_sectors first_data =
     (let data_sectors = all_sectors - first_data
      in if sectors_per_cluster bpb = 0 then 0 else data_sectors div ucast (sectors_per_cluster bpb))"

definition get_first_fat_sector :: "fat_bpb_t \<Rightarrow> u32" where
  "get_first_fat_sector bpb = ucast (reserved_sectors bpb)"

definition get_root_dir_sectors :: "fat_bpb_t \<Rightarrow> u16" where
  "get_root_dir_sectors bpb =
     (if bytes_per_sector bpb = 0 then 0
      else ucast ((ucast (root_entry_count bpb) * 32 + (ucast (bytes_per_sector bpb) - 1) :: u32)
        div ucast (bytes_per_sector bpb)))"

definition get_first_data_sector :: "fat_bpb_t \<Rightarrow> u32 \<Rightarrow> u16 \<Rightarrow> u32" where
  "get_first_data_sector bpb sectors_per_fat root_sectors =
     ucast (reserved_sectors bpb) + ucast (num_fats bpb) * sectors_per_fat + ucast root_sectors"

definition get_total_sectors :: "fat_bpb_t \<Rightarrow> u32" where
  "get_total_sectors bpb =
     (if total_sectors_16 bpb \<noteq> 0 then ucast (total_sectors_16 bpb) else total_sectors_32 bpb)"

definition get_fat_size :: "fat_bpb_t \<Rightarrow> u8 list \<Rightarrow> u32" where
  "get_fat_size bpb bpb_ext =
     (if fat_size_16 bpb \<noteq> 0 then ucast (fat_size_16 bpb) else fat_size_32 (ext_32 bpb_ext))"

definition cluster_to_lba :: "fat_t \<Rightarrow> u32 \<Rightarrow> u32" where
  "cluster_to_lba fat cluster =
     first_data_sector fat + (cluster - 2) * ucast (sectors_per_cluster (fat_bpb fat))"

text \<open>The volume a boot sector describes: the body of \<open>fat_mount\<close> after the read.\<close>

definition fat_of_boot_sector :: "u8 \<Rightarrow> u8 list \<Rightarrow> fat_t" where
  "fat_of_boot_sector drive_num b =
     (let bpb = decode_bpb b;
          bpb_ext = sub_bytes b 36 54;
          sectors_per_fat = get_fat_size bpb bpb_ext;
          all_sectors = get_total_sectors bpb;
          first_fat = get_first_fat_sector bpb;
          root_sectors = get_root_dir_sectors bpb;
          first_data = get_first_data_sector bpb sectors_per_fat root_sectors;
          count = get_count_of_clusters bpb all_sectors first_data;
          type = get_fat_type count
      in \<lparr>drive_number = drive_num, fat_type = type, first_fat_sector = first_fat,
          first_data_sector = first_data, root_dir_sectors = root_sectors, total_sectors = all_sectors,
          cluster_count = count, fat_size = sectors_per_fat, fat_bpb = bpb, fat_bpb_ext = bpb_ext\<rparr>)"

text \<open>\<open>*fat_out\<close> is written only on success: \<^term>\<open>None\<close> means it is left alone.\<close>

definition fat_mount :: "'e int13 \<Rightarrow> u8 \<Rightarrow> ('e machine, disk_status_t \<times> fat_t option) cmd" where
  "fat_mount int13 drive_num =
     (let sector_count = 1 :: u16; buffer_size = 1 * 4096 :: u32 in
      bind (push buffer_size) (\<lambda>buffer.
      bind (disk_read int13 drive_num 0 buffer sector_count) (\<lambda>status.
      if status \<noteq> DISK_SUCCESS then bind (pop buffer_size) (\<lambda>_. ret (status, None))
      else
        bind (gets (\<lambda>s. fat_of_boot_sector drive_num (bytes_at (mem s) buffer 90))) (\<lambda>fat.
        bind (pop buffer_size) (\<lambda>_. ret (DISK_SUCCESS, Some fat))))))"

section \<open>Entry helpers\<close>

definition is_dir_free :: "fat_dirent_t \<Rightarrow> bool" where
  "is_dir_free dir \<longleftrightarrow> de_name dir ! 0 = 0xe5 \<or> de_name dir ! 0 = 0x00"

text \<open>Both copy loops, from index \<open>i\<close> while below \<open>lim\<close>; the array is the caller's.\<close>

function name_loop :: "u8 list \<Rightarrow> nat \<Rightarrow> nat \<Rightarrow> nat \<Rightarrow> u8 list \<Rightarrow> (u8 list \<times> nat) res" where
  "name_loop nm base i lim out =
     (if i < lim \<and> nm ! i \<noteq> 0x20 then
        (case wr out (i - base) (nm ! i) of
          Inl e \<Rightarrow> Inl e
        | Inr out' \<Rightarrow> name_loop nm base (i + 1) lim out')
      else Inr (out, i))"
  by pat_completeness auto
termination
  by (relation "measure (\<lambda>(nm, base, i, lim, out). lim - i)") auto

declare name_loop.simps [simp del]

definition get_short_name :: "fat_dirent_t \<Rightarrow> u8 list \<Rightarrow> u8 list res" where
  "get_short_name dir name = rbind (name_loop (de_name dir) 0 0 8 name) (\<lambda>(name, i). wr name i 0)"

definition get_short_extension :: "fat_dirent_t \<Rightarrow> u8 list \<Rightarrow> u8 list res" where
  "get_short_extension dir ext = rbind (name_loop (de_name dir) 8 8 11 ext) (\<lambda>(ext, i). wr ext (i - 8) 0)"

section \<open>The geometry as numbers\<close>

lemma root_dir_sectors_ceil:
  assumes "512 \<le> unat (bytes_per_sector bpb)"
  shows "unat (get_root_dir_sectors bpb) =
    (unat (root_entry_count bpb) * 32 + (unat (bytes_per_sector bpb) - 1)) div unat (bytes_per_sector bpb)"
proof -
  let ?n = "unat (bytes_per_sector bpb)" and ?e = "unat (root_entry_count bpb)"
  have nz: "bytes_per_sector bpb \<noteq> 0" using assms by auto
  have n: "?n < 65536" and e: "?e < 65536" by (rule u16_bound)+
  have sub: "unat (ucast (bytes_per_sector bpb) - 1 :: u32) = ?n - 1"
    using assms by (subst unat_sub) (simp_all add: word_le_nat_alt)
  have num: "unat (ucast (root_entry_count bpb) * 32 + (ucast (bytes_per_sector bpb) - 1) :: u32) = ?e * 32 + (?n - 1)"
    using n e by (simp add: unat_word_ariths sub)
  have "(?e * 32 + (?n - 1)) div ?n < 65536"
    using assms n e by (intro div_less_iff_less_mult [THEN iffD2]) simp_all
  then show ?thesis
    using nz by (simp add: get_root_dir_sectors_def unsigned_ucast_eq unat_div num take_bit_nat_eq_self)
qed

text \<open>The areas of a volume in sectors, as numbers.\<close>

definition data_start :: "fat_bpb_t \<Rightarrow> nat \<Rightarrow> nat" where
  "data_start bpb sectors_per_fat =
     unat (reserved_sectors bpb) + unat (num_fats bpb) * sectors_per_fat
     + (unat (root_entry_count bpb) * 32 + (unat (bytes_per_sector bpb) - 1)) div unat (bytes_per_sector bpb)"

lemma first_data_sector_sum:
  assumes "512 \<le> unat (bytes_per_sector bpb)" and "data_start bpb (unat n) < 2 ^ 32"
  shows "unat (get_first_data_sector bpb n (get_root_dir_sectors bpb)) = data_start bpb (unat n)"
  using assms root_dir_sectors_ceil [OF assms(1)]
  by (simp add: get_first_data_sector_def data_start_def unat_word_ariths)

lemma count_of_clusters_div:
  assumes "sectors_per_cluster bpb \<noteq> 0" and "unat first \<le> unat all"
  shows "unat (get_count_of_clusters bpb all first) = (unat all - unat first) div unat (sectors_per_cluster bpb)"
  using assms by (simp add: get_count_of_clusters_def Let_def unat_div unat_sub word_le_nat_alt)

section \<open>Mounting\<close>

lemma bytes_at_blit:
  assumes "n \<le> k" and "k \<le> 2 ^ 32"
  shows "bytes_at (blit a k f m) a n = map f [0..<n]"
  using assms by (auto simp: bytes_at_def intro!: blit_nth)

lemma fat_mount_scratch:
  "fat_mount int13 drv =
     bind (push 4096) (\<lambda>b. bind (disk_read int13 drv 0 b 1) (\<lambda>st.
     bind (gets (\<lambda>s. if st \<noteq> DISK_SUCCESS then (st, None)
       else (DISK_SUCCESS, Some (fat_of_boot_sector drv (bytes_at (mem s) b 90))))) (\<lambda>r.
     bind (pop 4096) (\<lambda>_. ret r))))"
proof -
  have eq: "(if st \<noteq> DISK_SUCCESS then bind (pop 4096) (\<lambda>_. ret (st, None))
      else bind (gets f) (\<lambda>fat. bind (pop 4096) (\<lambda>_. ret (DISK_SUCCESS, Some fat))))
    = bind (gets (\<lambda>s. if st \<noteq> DISK_SUCCESS then (st, None) else (DISK_SUCCESS, Some (f s))))
        (\<lambda>r. bind (pop 4096) (\<lambda>_. ret r))" for st and f :: "'e machine \<Rightarrow> fat_t"
    by (rule ext) (simp add: exec_bind [of "gets _"] exec)
  show ?thesis by (simp add: fat_mount_def Let_def eq)
qed

lemma fat_mount_run:
  fixes int13 :: "'e int13"
  assumes "edd_read int13 drv d ssz" and "no_read_errors int13 drv"
    and "90 \<le> ssz" and "ssz \<le> 4096" and "ext_stack_ok s" and "ext_room 4096 s"
  shows "\<exists>e m. fat_mount int13 drv s =
      Some (Inr (DISK_SUCCESS, Some (fat_of_boot_sector drv (map (d 0) [0..<90]))),
        s\<lparr>bios_env := e, mem := m\<rparr>)
    \<and> (\<forall>x. \<not> in_range (ext_stack_top s - 4096) 4096 x \<longrightarrow> m x = mem s x)"
proof -
  let ?b = "ext_stack_top s - 4096"
  let ?look = "\<lambda>m b st. if st \<noteq> DISK_SUCCESS then (st, None)
    else (DISK_SUCCESS, Some (fat_of_boot_sector drv (bytes_at m b 90)))"
  from bios_disk.scratch_read [OF assms(1,2,5,6), of 1 0 ?look] assms(4) obtain e where
    run: "fat_mount int13 drv s = Some (Inr (?look (blit ?b ssz (disk_bytes d ssz 0) (mem s)) ?b DISK_SUCCESS),
      s\<lparr>bios_env := e, mem := blit ?b ssz (disk_bytes d ssz 0) (mem s)\<rparr>)"
    unfolding fat_mount_scratch by auto
  have "bytes_at (blit ?b ssz (disk_bytes d ssz 0) (mem s)) ?b 90 = map (disk_bytes d ssz 0) [0..<90]"
    using assms(3,4) by (intro bytes_at_blit) simp_all
  also have "\<dots> = map (d 0) [0..<90]"
    using assms(3) by (auto simp: disk_bytes_def)
  finally have bytes: "bytes_at (blit ?b ssz (disk_bytes d ssz 0) (mem s)) ?b 90 = map (d 0) [0..<90]" .
  have "blit ?b ssz (disk_bytes d ssz 0) (mem s) x = mem s x" if "\<not> in_range ?b 4096 x" for x
    using that assms(4) by (intro blit_out) (auto simp: in_range_def)
  with run bytes show ?thesis by auto
qed

section \<open>Properties\<close>

text \<open>
  C22. On a consistent volume (sectors of at least 512 bytes, a cluster size, and reserved
  area, tables and root directory that fit the volume) the 32-bit geometry \<open>fat_mount\<close>
  computes does not wrap: the first data sector is the sum of the areas before it, the cluster
  count is the rest divided by the cluster size, and the type follows the thresholds of the
  FAT specification.
\<close>

theorem mount_geometry:
  assumes "512 \<le> unat (bytes_per_sector (fat_bpb f))" and "sectors_per_cluster (fat_bpb f) \<noteq> 0"
    and "data_start (fat_bpb f) (unat (fat_size f)) \<le> unat (total_sectors f)"
    and "f = fat_of_boot_sector drv b"
  shows "unat (first_data_sector f) = data_start (fat_bpb f) (unat (fat_size f))
    \<and> unat (cluster_count f) = (unat (total_sectors f) - unat (first_data_sector f)) div unat (sectors_per_cluster (fat_bpb f))
    \<and> (fat_type f = FAT_TYPE_12 \<longleftrightarrow> unat (cluster_count f) < 4085)
    \<and> (fat_type f = FAT_TYPE_32 \<longleftrightarrow> 65525 \<le> unat (cluster_count f))
    \<and> unat (first_fat_sector f) + unat (num_fats (fat_bpb f)) * unat (fat_size f) + unat (root_dir_sectors f)
        = unat (first_data_sector f)"
proof -
  let ?bpb = "fat_bpb f" and ?n = "fat_size f"
  have parts: "root_dir_sectors f = get_root_dir_sectors ?bpb"
    "first_data_sector f = get_first_data_sector ?bpb ?n (get_root_dir_sectors ?bpb)"
    "cluster_count f = get_count_of_clusters ?bpb (total_sectors f) (first_data_sector f)"
    "first_fat_sector f = ucast (reserved_sectors ?bpb)"
    "fat_type f = get_fat_type (cluster_count f)"
    by (simp_all add: assms(4) fat_of_boot_sector_def Let_def get_first_fat_sector_def)
  have "data_start ?bpb (unat ?n) < 2 ^ 32"
    using assms(3) u32_bound [of "total_sectors f"] by simp
  then have first: "unat (first_data_sector f) = data_start ?bpb (unat ?n)"
    unfolding parts(2) by (rule first_data_sector_sum [OF assms(1)])
  have count: "unat (cluster_count f) = (unat (total_sectors f) - unat (first_data_sector f)) div unat (sectors_per_cluster ?bpb)"
    using assms(2,3) first by (subst parts(3)) (simp add: count_of_clusters_div)
  have root: "unat (root_dir_sectors f) = (unat (root_entry_count ?bpb) * 32 + (unat (bytes_per_sector ?bpb) - 1)) div unat (bytes_per_sector ?bpb)"
    unfolding parts(1) by (rule root_dir_sectors_ceil [OF assms(1)])
  show ?thesis
    using first count root by (simp add: parts(4,5) get_fat_type_def word_less_nat_alt data_start_def)
qed

text \<open>The boot sector of a 1.44 MB floppy, for witnesses.\<close>

definition floppy_boot_sector :: "u8 list" where
  "floppy_boot_sector = [235, 88, 144, 0, 0, 0, 0, 0, 0, 0, 0, 0, 2, 1, 1, 0, 2, 224, 0, 64, 11, 240, 9, 0, 18, 0, 2, 0, 0, 0, 0, 0, 0, 0, 0, 0] @ replicate 54 0"

theorem mount_geometry_witness:
  "unat (first_data_sector (fat_of_boot_sector 0 floppy_boot_sector)) = 33
   \<and> unat (cluster_count (fat_of_boot_sector 0 floppy_boot_sector)) = 2847
   \<and> fat_type (fat_of_boot_sector 0 floppy_boot_sector) = FAT_TYPE_12"
proof -
  let ?f = "fat_of_boot_sector 0 floppy_boot_sector"
  have v: "bytes_per_sector (fat_bpb ?f) = 512" "sectors_per_cluster (fat_bpb ?f) = 1"
    "reserved_sectors (fat_bpb ?f) = 1" "num_fats (fat_bpb ?f) = 2"
    "root_entry_count (fat_bpb ?f) = 224" "fat_size ?f = 9" "total_sectors ?f = 2880"
    by (simp_all add: fat_of_boot_sector_def Let_def decode_bpb_def floppy_boot_sector_def le16_def
        get_fat_size_def get_total_sectors_def)
  have "data_start (fat_bpb ?f) 9 = 33" by (simp add: data_start_def v)
  with mount_geometry [of ?f 0 floppy_boot_sector] show ?thesis by (simp add: v)
qed

text \<open>
  Mounting reads sector 0 and nothing else: with a working drive whose sectors hold the
  whole parameter block and fit the 4096-byte buffer, \<open>fat_mount\<close> succeeds with exactly the
  volume the first sector of the disk describes, gives its buffer back, and changes only
  memory below the old stack top.
\<close>

theorem fat_mount_mounts_disk:
  fixes int13 :: "'e int13"
  assumes "edd_read int13 drv d ssz" and "no_read_errors int13 drv"
    and "90 \<le> ssz" and "ssz \<le> 4096" and "ext_stack_ok s" and "ext_room 4096 s"
  shows "\<exists>e m. fat_mount int13 drv s =
      Some (Inr (DISK_SUCCESS, Some (fat_of_boot_sector drv (map (d 0) [0..<90]))),
        s\<lparr>bios_env := e, mem := m\<rparr>)
    \<and> (\<forall>x. \<not> in_range (ext_stack_top s - 4096) 4096 x \<longrightarrow> m x = mem s x)"
  by (rule fat_mount_run [OF assms])

theorem fat_mount_mounts_disk_witness:
  "\<exists>e m. fat_mount (perfect_int13 (\<lambda>l i. floppy_boot_sector ! i) 512) 0 (boot_state (\<lambda>_. 0) ()) =
      Some (Inr (DISK_SUCCESS, Some (fat_of_boot_sector 0 (map (\<lambda>i. floppy_boot_sector ! i) [0..<90]))),
        (boot_state (\<lambda>_. 0) ())\<lparr>bios_env := e, mem := m\<rparr>)
    \<and> (\<forall>x. \<not> in_range (ext_stack_top (boot_state (\<lambda>_. 0) ()) - 4096) 4096 x \<longrightarrow>
        m x = mem (boot_state (\<lambda>_. 0) ()) x)"
  by (rule fat_mount_mounts_disk [OF perfect_int13_ok(1) perfect_int13_ok(2) _ _ boot_state_ok(1)])
    (simp_all add: ext_room_def boot_state_def memory_map)

end
