(* ===== verification/Fat_Table.thy ===== *)
theory Fat_Table
  imports Fat_Layout
begin

text \<open>
  The allocation table of \<^verbatim>\<open>stage1/fat.c\<close>: \<open>fat_next\<close> and \<open>fat_next_not_bad\<close>. The
  specification reads a table entry as a number out of the bytes of the disk; the lemmas show
  that \<open>fat_next\<close> finds exactly that entry for all three widths, across sector boundaries,
  and gives its buffer back.
\<close>

section \<open>Following the table\<close>

datatype fat_cluster_result_t =
    FAT_CLUSTER_VALID
  | FAT_CLUSTER_END
  | FAT_CLUSTER_BAD
  | FAT_CLUSTER_DISK_FAILURE
  | FAT_CLUSTER_UNKNOWN_TYPE

definition fat_offset_of :: "fat_type_t \<Rightarrow> u32 \<Rightarrow> u32" where
  "fat_offset_of type cluster =
     (case type of
       FAT_TYPE_12 \<Rightarrow> cluster + cluster div 2
     | FAT_TYPE_16 \<Rightarrow> cluster * 2
     | FAT_TYPE_32 \<Rightarrow> cluster * 4)"

text \<open>The second switch of \<open>fat_next\<close>: the value at the entry's address and what it says.\<close>

definition table_value :: "fat_type_t \<Rightarrow> u32 \<Rightarrow> memory \<Rightarrow> u32 \<Rightarrow> u32" where
  "table_value type cluster m a =
     (case type of
       FAT_TYPE_12 \<Rightarrow>
         (let table_value_12 = load16 m a
          in if cluster AND 1 \<noteq> 0 then ucast (drop_bit 4 table_value_12)
             else ucast (table_value_12 AND 0xFFF))
     | FAT_TYPE_16 \<Rightarrow> ucast (load16 m a)
     | FAT_TYPE_32 \<Rightarrow> load32 m a AND 0x0FFFFFFF)"

definition classify :: "fat_type_t \<Rightarrow> u32 \<Rightarrow> fat_cluster_result_t" where
  "classify type next =
     (case type of
       FAT_TYPE_12 \<Rightarrow>
         (if next = 0xFF7 then FAT_CLUSTER_BAD
          else if next \<ge> 0xFF8 then FAT_CLUSTER_END else FAT_CLUSTER_VALID)
     | FAT_TYPE_16 \<Rightarrow>
         (if next = 0xFFF7 then FAT_CLUSTER_BAD
          else if next \<ge> 0xFFF8 then FAT_CLUSTER_END else FAT_CLUSTER_VALID)
     | FAT_TYPE_32 \<Rightarrow>
         (if next = 0x0FFFFFF7 then FAT_CLUSTER_BAD
          else if next \<ge> 0x0FFFFFF8 then FAT_CLUSTER_END else FAT_CLUSTER_VALID))"

text \<open>
  \<open>fat_next\<close> gives its result and the new contents of \<open>*next\<close>, which held \<open>next0\<close>. The division
  by the sector size traps when that is zero.
\<close>

definition fat_next ::
  "'e int13 \<Rightarrow> fat_t \<Rightarrow> u32 \<Rightarrow> u32 \<Rightarrow> ('e machine, fat_cluster_result_t \<times> u32) cmd"
where
  "fat_next int13 fat cluster next0 =
     (let fat_offset = fat_offset_of (fat_type fat) cluster;
          bps = ucast (bytes_per_sector (fat_bpb fat)) :: u32 in
      if bps = 0 then halt (Undef Div_By_Zero)
      else
        let fat_sector = first_fat_sector fat + fat_offset div bps;
            ent_offset = fat_offset mod bps;
            buffer_size = 2 * bps in
        bind (push buffer_size) (\<lambda>buffer.
        bind (disk_read int13 (drive_number fat) (ucast fat_sector) buffer 2) (\<lambda>status.
        bind (gets (\<lambda>s.
          if status \<noteq> DISK_SUCCESS then (FAT_CLUSTER_DISK_FAILURE, next0)
          else let next = table_value (fat_type fat) cluster (mem s) (buffer + ent_offset)
               in (classify (fat_type fat) next, next))) (\<lambda>r.
        bind (pop buffer_size) (\<lambda>_. ret r)))))"

definition fat_next_not_bad ::
  "'e int13 \<Rightarrow> fat_t \<Rightarrow> u32 \<Rightarrow> ('e machine, fat_cluster_result_t \<times> u32) cmd"
where
  "fat_next_not_bad int13 fat =
     iterate (\<lambda>cluster. bind (fat_next int13 fat cluster cluster) (\<lambda>(result, next).
       ret (if result = FAT_CLUSTER_BAD then Inl next else Inr (result, next))))"

section \<open>The table as the disk holds it\<close>

text \<open>The byte of the disk at a distance from the start of a sector, as a number.\<close>

definition disk_at :: "disk \<Rightarrow> nat \<Rightarrow> nat \<Rightarrow> nat \<Rightarrow> u8" where
  "disk_at d ssz sector k = d (of_nat (sector + k div ssz)) (k mod ssz)"

text \<open>
  Entry \<open>n\<close> of a table whose bytes are \<open>b\<close>, by the FAT specification: twelve bits, two to
  three bytes; a word; or the low 28 bits of a double word. Its meaning is told by the mark of
  a bad cluster, the largest value below the end-of-chain marks.
\<close>

definition fat_entry :: "fat_type_t \<Rightarrow> (nat \<Rightarrow> u8) \<Rightarrow> nat \<Rightarrow> nat" where
  "fat_entry type b n =
     (case type of
       FAT_TYPE_12 \<Rightarrow>
         (let k = n + n div 2; v = unat (b k) + 256 * unat (b (k + 1))
          in if odd n then v div 16 else v mod 4096)
     | FAT_TYPE_16 \<Rightarrow> unat (b (2 * n)) + 256 * unat (b (2 * n + 1))
     | FAT_TYPE_32 \<Rightarrow>
         (unat (b (4 * n)) + 256 * unat (b (4 * n + 1)) + 65536 * unat (b (4 * n + 2))
           + 16777216 * unat (b (4 * n + 3))) mod 2 ^ 28)"

definition bad_mark :: "fat_type_t \<Rightarrow> nat" where
  "bad_mark type = (case type of FAT_TYPE_12 \<Rightarrow> 0xFF7 | FAT_TYPE_16 \<Rightarrow> 0xFFF7 | FAT_TYPE_32 \<Rightarrow> 0xFFFFFF7)"

definition link_of :: "fat_type_t \<Rightarrow> nat \<Rightarrow> fat_cluster_result_t" where
  "link_of type v =
     (if v < bad_mark type then FAT_CLUSTER_VALID
      else if v = bad_mark type then FAT_CLUSTER_BAD else FAT_CLUSTER_END)"

text \<open>What the operations need of a mounted volume.\<close>

definition sound_volume :: "fat_t \<Rightarrow> bool" where
  "sound_volume f \<longleftrightarrow> 512 \<le> unat (bytes_per_sector (fat_bpb f))
     \<and> sectors_per_cluster (fat_bpb f) \<noteq> 0 \<and> unat (first_fat_sector f) < 65536"

lemma sound_volume_mounted:
  "512 \<le> unat (le16 b 11) \<Longrightarrow> b ! 13 \<noteq> 0 \<Longrightarrow> sound_volume (fat_of_boot_sector drv b)"
  using u16_bound
  by (simp add: sound_volume_def fat_of_boot_sector_def Let_def decode_bpb_def get_first_fat_sector_def)

section \<open>Finding an entry\<close>

lemma blit_at:
  assumes "unat e + j < n" and "n \<le> 2 ^ 32"
  shows "blit a n f m (a + e + of_nat j) = f (unat e + j)"
proof -
  have "a + e + of_nat j = a + of_nat (unat e + j)" by simp
  with blit_nth [OF assms] show ?thesis by metis
qed

lemma disk_bytes_at:
  assumes "0 < ssz"
  shows "disk_bytes d ssz (of_nat (sector + off div ssz)) (off mod ssz + j) = disk_at d ssz sector (off + j)"
proof -
  have "off + j = off mod ssz + j + off div ssz * ssz"
    using div_mult_mod_eq [of off ssz] by simp
  then have "(off + j) div ssz = (off mod ssz + j) div ssz + off div ssz"
    and "(off + j) mod ssz = (off mod ssz + j) mod ssz"
    using assms by (metis div_mult_self1 add.commute less_not_refl mult.commute, metis mod_mult_self1)
  then show ?thesis
    unfolding disk_bytes_def disk_at_def by (simp only: flip: of_nat_add) (simp add: ac_simps)
qed

lemma unat_fat_offset_of:
  "unat c < 2 ^ 28 \<Longrightarrow>
   unat (fat_offset_of type c) = (case type of FAT_TYPE_12 \<Rightarrow> unat c + unat c div 2
     | FAT_TYPE_16 \<Rightarrow> 2 * unat c | FAT_TYPE_32 \<Rightarrow> 4 * unat c)"
  by (cases type) (simp_all add: fat_offset_of_def unat_word_ariths unat_div)

lemma of_nat_unat_id: "of_nat (unat (x :: 'a :: len word)) = x"
  by simp

lemma ucast_16_32_0_iff: "ucast (x :: u16) = (0 :: u32) \<longleftrightarrow> x = 0"
  by (metis unat_ucast_16_32 unsigned_0 unsigned_eq_0_iff)

lemma unat_and_mask: "unat (x AND mask n) = unat x mod 2 ^ n"
  by (simp flip: take_bit_eq_mask take_bit_eq_mod add: unsigned_take_bit_eq)

lemma low_bit_odd: "(x :: u32) AND 1 \<noteq> 0 \<longleftrightarrow> odd (unat x)"
  using unat_and_mask [of x 1] by (simp add: word_unat_eq_iff odd_iff_mod_2_eq_one)

lemma unat_table_value:
  assumes "\<And>j. j < 4 \<Longrightarrow> m (a + of_nat j) = b (unat (fat_offset_of type c) + j)"
    and "unat c < 2 ^ 28"
  shows "unat (table_value type c m a) = fat_entry type b (unat c)"
proof -
  let ?o = "unat (fat_offset_of type c)"
  have m: "m a = b ?o" "m (a + 1) = b (?o + 1)" "m (a + 2) = b (?o + 2)" "m (a + 3) = b (?o + 3)"
    using assms(1) [of 0] assms(1) [of 1] assms(1) [of 2] assms(1) [of 3] by simp_all
  note off = unat_fat_offset_of [OF assms(2), of type]
  show ?thesis
  proof (cases type)
    case FAT_TYPE_12
    let ?v = "load16 m a"
    have v: "unat ?v = unat (b ?o) + 256 * unat (b (?o + 1))" by (simp add: unat_load16 m)
    have odd_iff: "c AND 1 \<noteq> 0 \<longleftrightarrow> odd (unat c)"
      by (rule low_bit_odd)
    have "unat (drop_bit 4 ?v) = unat ?v div 16"
      by (simp add: unat_drop_bit_eq drop_bit_eq_div [of _ "unat _"])
    moreover have "unat (?v AND 0xFFF) = unat ?v mod 4096"
      using unat_and_mask [of ?v 12] by (simp add: mask_eq_exp_minus_1)
    ultimately show ?thesis
      using off by (simp add: FAT_TYPE_12 table_value_def fat_entry_def Let_def odd_iff v)
  next
    case FAT_TYPE_16
    with off show ?thesis by (simp add: table_value_def fat_entry_def unat_load16 m)
  next
    case FAT_TYPE_32
    have "unat (load32 m a AND 0x0FFFFFFF) = unat (load32 m a) mod 2 ^ 28"
      using unat_and_mask [of "load32 m a" 28] by (simp add: mask_eq_exp_minus_1)
    with FAT_TYPE_32 off show ?thesis by (simp add: table_value_def fat_entry_def unat_load32 m)
  qed
qed

lemma classify_link_of: "classify type v = link_of type (unat v)"
  by (cases type) (auto simp: classify_def link_of_def bad_mark_def word_le_nat_alt word_unat_eq_iff)

section \<open>fat_next\<close>

definition table_entry :: "fat_t \<Rightarrow> disk \<Rightarrow> nat \<Rightarrow> nat" where
  "table_entry f d = fat_entry (fat_type f)
     (disk_at d (unat (bytes_per_sector (fat_bpb f))) (unat (first_fat_sector f)))"

lemma fat_entry_bound: "fat_entry type b n < 2 ^ 28"
proof (cases type)
  case FAT_TYPE_12
  have small: "v div 16 < 2 ^ 28" "v mod 4096 < 2 ^ 28" if "v < 65536" for v :: nat
    using that mod_less_divisor [of 4096 v] by (simp_all add: div_less_iff_less_mult)
  have "unat (b k) + 256 * unat (b (k + 1)) < 65536" for k
    using u8_bound [of "b k"] u8_bound [of "b (k + 1)"] by simp
  from small [OF this] FAT_TYPE_12 show ?thesis by (simp add: fat_entry_def Let_def)
next
  case FAT_TYPE_16
  then show ?thesis
    using u8_bound [of "b (2 * n)"] u8_bound [of "b (2 * n + 1)"] by (simp add: fat_entry_def)
next
  case FAT_TYPE_32
  then show ?thesis by (simp add: fat_entry_def)
qed

lemma table_entry_bound: "table_entry f d n < 2 ^ 28"
  by (simp add: table_entry_def fat_entry_bound del: power_numeral)

lemma fat_next_scratch:
  "bytes_per_sector (fat_bpb f) \<noteq> 0 \<Longrightarrow>
   fat_next int13 f c n0 =
     (let off = fat_offset_of (fat_type f) c; bps = ucast (bytes_per_sector (fat_bpb f)) in
      bind (push (2 * bps)) (\<lambda>b.
      bind (disk_read int13 (drive_number f) (ucast (first_fat_sector f + off div bps)) b 2) (\<lambda>st.
      bind (gets (\<lambda>s. if st \<noteq> DISK_SUCCESS then (FAT_CLUSTER_DISK_FAILURE, n0)
        else let next = table_value (fat_type f) c (mem s) (b + off mod bps) in (classify (fat_type f) next, next))) (\<lambda>r.
      bind (pop (2 * bps)) (\<lambda>_. ret r)))))"
  by (simp add: fat_next_def Let_def ucast_16_32_0_iff)

lemma fat_next_entry:
  fixes int13 :: "'e int13"
  assumes edd: "edd_read int13 (drive_number f) d (unat (bytes_per_sector (fat_bpb f)))"
    and ok: "no_read_errors int13 (drive_number f)"
    and vol: "sound_volume f" and c: "unat c < 2 ^ 28"
    and st: "ext_stack_ok s" and room: "ext_room (2 * ucast (bytes_per_sector (fat_bpb f))) s"
  shows "\<exists>t. fat_next int13 f c n0 s = Some (Inr (link_of (fat_type f) (table_entry f d (unat c)),
      of_nat (table_entry f d (unat c))), t)
    \<and> only_scratch (2 * unat (bytes_per_sector (fat_bpb f))) s t"
proof -
  let ?n = "unat (bytes_per_sector (fat_bpb f))" and ?S = "unat (first_fat_sector f)"
  let ?bps = "ucast (bytes_per_sector (fat_bpb f)) :: u32"
  let ?o = "fat_offset_of (fat_type f) c" and ?v = "table_entry f d (unat c)"
  let ?lba = "ucast (first_fat_sector f + ?o div ?bps) :: u64"
  let ?b = "ext_stack_top s - 2 * ?bps"
  let ?m = "blit ?b (2 * ?n) (disk_bytes d ?n ?lba) (mem s)"
  have n: "512 \<le> ?n" and S: "?S < 65536" using vol by (simp_all add: sound_volume_def)
  have n2: "?n < 65536" by (rule u16_bound)
  have two: "unat (2 * ?bps) = 2 * ?n" using n2 by (simp add: unat_word_ariths)
  have "unat ?o < 2 ^ 30" using c by (auto simp: unat_fat_offset_of split: fat_type_t.splits)
  moreover from this n have "unat ?o div ?n < 2 ^ 30"
    by (meson div_le_dividend le_less_trans)
  ultimately have "unat (first_fat_sector f + ?o div ?bps) = ?S + unat ?o div ?n"
    using S by (simp add: unat_word_ariths unat_div)
  then have lba: "?lba = of_nat (?S + unat ?o div ?n)"
    by (metis unat_ucast_32_64 of_nat_unat_id)
  have mod_n: "unat (?o mod ?bps) = unat ?o mod ?n" by (simp add: unat_mod)
  have "?m (?b + ?o mod ?bps + of_nat j) = disk_at d ?n ?S (unat ?o + j)" if "j < 4" for j
  proof -
    have "unat ?o mod ?n < ?n" using n by simp
    with that n have "unat (?o mod ?bps) + j < 2 * ?n" unfolding mod_n by linarith
    then have "?m (?b + ?o mod ?bps + of_nat j) = disk_bytes d ?n ?lba (unat ?o mod ?n + j)"
      using n2 by (simp add: blit_at mod_n)
    also have "\<dots> = disk_at d ?n ?S (unat ?o + j)"
      unfolding lba using n by (intro disk_bytes_at) simp
    finally show ?thesis .
  qed
  then have "unat (table_value (fat_type f) c ?m (?b + ?o mod ?bps)) = ?v"
    unfolding table_entry_def by (rule unat_table_value [OF _ c])
  then have val: "table_value (fat_type f) c ?m (?b + ?o mod ?bps) = of_nat ?v"
    by (metis of_nat_unat_id)
  have small: "unat (of_nat ?v :: u32) = ?v"
    using table_entry_bound [of f d "unat c"] by (simp add: unat_of_nat)
  have nz: "bytes_per_sector (fat_bpb f) \<noteq> 0" using n by auto
  obtain e where run: "fat_next int13 f c n0 s = Some (Inr (classify (fat_type f) (of_nat ?v), of_nat ?v),
      s\<lparr>bios_env := e, mem := ?m\<rparr>)"
    using bios_disk.scratch_read [OF edd ok st room, of 2 ?lba
      "\<lambda>m b st. if st \<noteq> DISK_SUCCESS then (FAT_CLUSTER_DISK_FAILURE, n0)
        else let next = table_value (fat_type f) c m (b + ?o mod ?bps) in (classify (fat_type f) next, next)"]
    unfolding fat_next_scratch [OF nz] Let_def by (auto simp: two val)
  moreover have "only_scratch (unat (2 * ?bps)) s (s\<lparr>bios_env := e, mem := ?m\<rparr>)"
    using ext_room_unat [OF st] room by (intro only_scratch_blit) (simp_all add: two)
  ultimately show ?thesis
    unfolding classify_link_of small two by blast
qed

section \<open>The stack around the table\<close>

lemma fat_next_balanced: "ext_stack.balanced (fat_next int13 f c n0)"
proof (cases "bytes_per_sector (fat_bpb f) = 0")
  case True
  then show ?thesis by (simp add: fat_next_def Let_def ext_stack.balanced_halt)
next
  case False
  have "fat_next int13 f c n0 =
    (let off = fat_offset_of (fat_type f) c; bps = ucast (bytes_per_sector (fat_bpb f)) in
     bind (push (2 * bps)) (\<lambda>b. bind
       (bind (disk_read int13 (drive_number f) (ucast (first_fat_sector f + off div bps)) b 2) (\<lambda>st.
        gets (\<lambda>s. if st \<noteq> DISK_SUCCESS then (FAT_CLUSTER_DISK_FAILURE, n0)
          else let next = table_value (fat_type f) c (mem s) (b + off mod bps) in (classify (fat_type f) next, next))))
       (\<lambda>r. bind (pop (2 * bps)) (\<lambda>_. ret r))))"
    by (simp add: fat_next_scratch [OF False] Let_def bind_assoc)
  then show ?thesis
    unfolding Let_def
    by (simp only:) (intro ext_stack.balanced_block [where f = "\<lambda>r. r"] ext_stack.balanced_bind
      ext_stack.balanced_gets bios_disk.rd_balanced)
qed

lemma fat_next_not_bad_balanced: "ext_stack.balanced (fat_next_not_bad int13 f c)"
  unfolding fat_next_not_bad_def
  by (intro ext_stack.balanced_iterate ext_stack.balanced_bind fat_next_balanced)
    (auto intro: ext_stack.balanced_ret split: prod.splits)

section \<open>Chains\<close>

text \<open>The cluster after \<open>c\<close>, and the \<open>k\<close>-th cluster of the chain from \<open>c\<close> on.\<close>

definition next_cluster :: "fat_t \<Rightarrow> disk \<Rightarrow> nat \<Rightarrow> nat option" where
  "next_cluster f d c =
     (if link_of (fat_type f) (table_entry f d c) = FAT_CLUSTER_VALID then Some (table_entry f d c) else None)"

fun chain :: "fat_t \<Rightarrow> disk \<Rightarrow> nat \<Rightarrow> nat \<Rightarrow> nat option" where
  "chain f d c 0 = Some c"
| "chain f d c (Suc k) = Option.bind (next_cluster f d c) (\<lambda>c'. chain f d c' k)"

lemma next_cluster_bound: "next_cluster f d c = Some c' \<Longrightarrow> c' < 2 ^ 28"
  using table_entry_bound [of f d c] by (auto simp: next_cluster_def split: if_splits)

lemma chain_bound: "c < 2 ^ 28 \<Longrightarrow> chain f d c k = Some c' \<Longrightarrow> c' < 2 ^ 28"
  by (induction f d c k rule: chain.induct) (auto dest: next_cluster_bound split: bind_splits)

lemma chain_step: "chain f d c (Suc k) = Option.bind (chain f d c k) (next_cluster f d)"
proof (induction k arbitrary: c)
  case 0
  show ?case by (cases "next_cluster f d c") simp_all
next
  case (Suc k)
  have "chain f d c (Suc (Suc k)) = Option.bind (next_cluster f d c) (\<lambda>c'. Option.bind (chain f d c' k) (next_cluster f d))"
    by (subst chain.simps(2)) (simp only: Suc.IH)
  also have "\<dots> = Option.bind (chain f d c (Suc k)) (next_cluster f d)"
    by (cases "next_cluster f d c") simp_all
  finally show ?case .
qed

text \<open>A drive and a volume on which every table access works.\<close>

definition table_ready :: "'e int13 \<Rightarrow> fat_t \<Rightarrow> disk \<Rightarrow> 'e machine \<Rightarrow> bool" where
  "table_ready int13 f d s \<longleftrightarrow>
     edd_read int13 (drive_number f) d (unat (bytes_per_sector (fat_bpb f)))
     \<and> no_read_errors int13 (drive_number f) \<and> sound_volume f
     \<and> ext_stack_ok s \<and> ext_room (2 * ucast (bytes_per_sector (fat_bpb f))) s"

lemma table_ready_scratch: "only_scratch n s t \<Longrightarrow> table_ready int13 f d t = table_ready int13 f d s"
  by (simp add: table_ready_def only_scratch_frame)

abbreviation table_scratch :: "fat_t \<Rightarrow> nat" where
  "table_scratch f \<equiv> 2 * unat (bytes_per_sector (fat_bpb f))"

lemma fat_next_ready:
  fixes int13 :: "'e int13"
  assumes "table_ready int13 f d s" and "unat c < 2 ^ 28"
  shows "\<exists>t. fat_next int13 f c n0 s = Some (Inr (link_of (fat_type f) (table_entry f d (unat c)),
      of_nat (table_entry f d (unat c))), t) \<and> only_scratch (table_scratch f) s t"
  using assms fat_next_entry [of int13 f d c s n0] by (simp add: table_ready_def del: power_numeral)

lemma fat_next_not_bad_step:
  fixes int13 :: "'e int13"
  assumes "table_ready int13 f d s" and "unat c < 2 ^ 28"
  shows "\<exists>t. only_scratch (table_scratch f) s t \<and> fat_next_not_bad int13 f c s =
    (if link_of (fat_type f) (table_entry f d (unat c)) = FAT_CLUSTER_BAD
     then fat_next_not_bad int13 f (of_nat (table_entry f d (unat c))) t
     else Some (Inr (link_of (fat_type f) (table_entry f d (unat c)), of_nat (table_entry f d (unat c))), t))"
proof -
  from fat_next_ready [OF assms, of c] obtain t where
    run: "fat_next int13 f c c s = Some (Inr (link_of (fat_type f) (table_entry f d (unat c)),
      of_nat (table_entry f d (unat c))), t)" and t: "only_scratch (table_scratch f) s t"
    by blast
  show ?thesis
    by (rule exI [of _ t], rule conjI [OF t])
      (unfold fat_next_not_bad_def, subst iterate_unfold, simp add: exec_bind run exec)
qed

lemma fat_next_not_bad_next:
  fixes int13 :: "'e int13"
  assumes "table_ready int13 f d s" and "unat c < 2 ^ 28" and "next_cluster f d (unat c) = Some v"
  shows "\<exists>t. fat_next_not_bad int13 f c s = Some (Inr (FAT_CLUSTER_VALID, of_nat v), t)
    \<and> only_scratch (table_scratch f) s t"
  using fat_next_not_bad_step [OF assms(1,2)] assms(3)
  by (auto simp: next_cluster_def split: if_splits)

lemma fat_next_not_bad_end:
  fixes int13 :: "'e int13"
  assumes "table_ready int13 f d s" and "unat c < 2 ^ 28"
    and "link_of (fat_type f) (table_entry f d (unat c)) = FAT_CLUSTER_END"
  shows "\<exists>t. fat_next_not_bad int13 f c s = Some (Inr (FAT_CLUSTER_END, of_nat (table_entry f d (unat c))), t)
    \<and> only_scratch (table_scratch f) s t"
  using fat_next_not_bad_step [OF assms(1,2)] assms(3) by auto

section \<open>Properties\<close>

definition floppy :: fat_t where
  "floppy = fat_of_boot_sector 0 floppy_boot_sector"

lemma floppy_fields:
  "fat_type floppy = FAT_TYPE_12" "bytes_per_sector (fat_bpb floppy) = 512"
  "sectors_per_cluster (fat_bpb floppy) = 1" "first_fat_sector floppy = 1"
  "drive_number floppy = 0" "first_data_sector floppy = 33" "root_dir_sectors floppy = 14"
  "root_entry_count (fat_bpb floppy) = 224"
  by (simp_all add: floppy_def fat_of_boot_sector_def Let_def decode_bpb_def floppy_boot_sector_def le16_def
      get_fat_size_def get_total_sectors_def get_first_fat_sector_def get_first_data_sector_def
      get_root_dir_sectors_def get_count_of_clusters_def get_fat_type_def)

lemma floppy_ready: "table_ready (perfect_int13 d 512) floppy d (boot_state m e)"
  unfolding table_ready_def
  by (intro conjI perfect_int13_ok(2) boot_state_ok(1))
    (use perfect_int13_ok(1) [of d 512] in \<open>simp_all add: floppy_fields sound_volume_def ext_room_def boot_state_def memory_map\<close>)

text \<open>
  C3. \<open>fat_next\<close> implements the FAT specification's table for all three widths: on a working
  drive it returns entry \<open>c\<close> of the table as the bytes of the disk spell it (also where a
  twelve-bit entry crosses a sector boundary) and tells links, the bad-cluster mark and the
  end of a chain apart by its value; the buffer is given back and nothing outside the two
  sectors of scratch below the stack top has changed.
\<close>

theorem fat_next_implements_table:
  fixes int13 :: "'e int13"
  assumes "table_ready int13 f d s" and "unat c < 2 ^ 28"
  shows "\<exists>t. fat_next int13 f c n0 s = Some (Inr (link_of (fat_type f) (table_entry f d (unat c)),
      of_nat (table_entry f d (unat c))), t)
    \<and> ext_stack_top t = ext_stack_top s \<and> only_scratch (2 * unat (bytes_per_sector (fat_bpb f))) s t"
  using fat_next_ready [OF assms, of n0] only_scratch_frame(1) by blast

text \<open>Entry 341 of a floppy's table takes the last byte of sector 1 and the first of sector 2.\<close>

definition crossing_disk :: disk where
  "crossing_disk l i = (if l = 1 \<and> i = 511 then 0xAB else if l = 2 \<and> i = 0 then 0xCD else 0)"

theorem fat_next_implements_table_witness:
  "\<exists>t. fat_next (perfect_int13 crossing_disk 512) floppy 341 341 (boot_state (\<lambda>_. 0) ()) =
      Some (Inr (FAT_CLUSTER_VALID, 0xCDA), t)
    \<and> ext_stack_top t = ext_stack_top (boot_state (\<lambda>_. 0) ())
    \<and> only_scratch 1024 (boot_state (\<lambda>_. 0) ()) t"
proof -
  have "table_entry floppy crossing_disk 341 = 0xCDA"
    by (simp add: table_entry_def fat_entry_def floppy_fields disk_at_def crossing_disk_def)
  then show ?thesis
    using fat_next_implements_table [OF floppy_ready [of crossing_disk "\<lambda>_. 0" "()"], of 341 341]
    by (simp add: floppy_fields link_of_def bad_mark_def)
qed

text \<open>
  C25. \<open>fat_next_not_bad\<close> never reports a bad cluster and always gives its buffers back if it
  returns. It treats the bad-cluster mark it read as the number of the next cluster to look
  up, so on a table where that entry is marked bad too it never returns.
\<close>

theorem fat_next_not_bad_follows_mark:
  fixes int13 :: "'e int13"
  shows "(fat_next_not_bad int13 f c s = Some (Inr (r, c'), t) \<longrightarrow>
      r \<noteq> FAT_CLUSTER_BAD \<and> ext_stack_top t = ext_stack_top s)
    \<and> (table_ready int13 f d s \<and> unat c < 2 ^ 28 \<and> table_entry f d (unat c) = bad_mark (fat_type f)
        \<and> table_entry f d (bad_mark (fat_type f)) = bad_mark (fat_type f) \<longrightarrow>
      fat_next_not_bad int13 f c s = None)"
proof (intro conjI impI)
  assume run: "fat_next_not_bad int13 f c s = Some (Inr (r, c'), t)"
  have "partial (fat_next_not_bad int13 f c) (\<lambda>r _. fst r \<noteq> FAT_CLUSTER_BAD) s"
    unfolding fat_next_not_bad_def
  proof (rule wp_iterate_invariant [where I = "\<lambda>_ _. True"])
    fix x :: u32 and s :: "'e machine"
    show "partial (bind (fat_next int13 f x x) (\<lambda>(result, next).
        ret (if result = FAT_CLUSTER_BAD then Inl next else Inr (result, next))))
      (\<lambda>y t. case y of Inl x' \<Rightarrow> True | Inr r \<Rightarrow> fst r \<noteq> FAT_CLUSTER_BAD) s"
      unfolding wp_bind by (auto simp: wp_def exec split: option.splits sum.splits)
  qed simp
  with run show "r \<noteq> FAT_CLUSTER_BAD" by (simp add: wp_def)
  from fat_next_not_bad_balanced run show "ext_stack_top t = ext_stack_top s"
    by (rule ext_stack.balancedD)
next
  assume "table_ready int13 f d s \<and> unat c < 2 ^ 28 \<and> table_entry f d (unat c) = bad_mark (fat_type f)
    \<and> table_entry f d (bad_mark (fat_type f)) = bad_mark (fat_type f)"
  then have init: "table_ready int13 f d s \<and> unat c < 2 ^ 28 \<and> table_entry f d (unat c) = bad_mark (fat_type f)"
    and loop: "table_entry f d (bad_mark (fat_type f)) = bad_mark (fat_type f)" by simp_all
  have small: "bad_mark (fat_type f) < 2 ^ 28" and bad: "link_of (fat_type f) (bad_mark (fat_type f)) = FAT_CLUSTER_BAD"
    by (auto simp: bad_mark_def link_of_def split: fat_type_t.splits)
  then have same: "unat (of_nat (bad_mark (fat_type f)) :: u32) = bad_mark (fat_type f)"
    by (simp add: unat_of_nat)
  show "fat_next_not_bad int13 f c s = None"
    unfolding fat_next_not_bad_def
  proof (rule iterate_diverges [where I = "\<lambda>c s. table_ready int13 f d s \<and> unat c < 2 ^ 28
      \<and> table_entry f d (unat c) = bad_mark (fat_type f)", OF init])
    fix x :: u32 and s :: "'e machine"
    assume x: "table_ready int13 f d s \<and> unat x < 2 ^ 28 \<and> table_entry f d (unat x) = bad_mark (fat_type f)"
    then obtain t where "fat_next int13 f x x s = Some (Inr (FAT_CLUSTER_BAD, of_nat (bad_mark (fat_type f))), t)"
      and "only_scratch (table_scratch f) s t"
      using fat_next_ready [of int13 f d s x x] bad by auto
    with x show "\<exists>x' t. bind (fat_next int13 f x x) (\<lambda>(result, next).
        ret (if result = FAT_CLUSTER_BAD then Inl next else Inr (result, next))) s = Some (Inr (Inl x'), t)
      \<and> table_ready int13 f d t \<and> unat x' < 2 ^ 28 \<and> table_entry f d (unat x') = bad_mark (fat_type f)"
      using small loop same by (auto simp: exec_bind exec table_ready_scratch)
  qed
qed

text \<open>A floppy on which cluster 2 and the entry of the mark itself are marked bad.\<close>

definition bad_disk :: disk where
  "bad_disk l i = (if i = 3 then 0xF7 else if i = 4 then 0x0F else if i = 498 then 0x70 else if i = 499 then 0xFF else 0)"

theorem fat_next_not_bad_follows_mark_witness:
  "fat_next_not_bad (perfect_int13 bad_disk 512) floppy 2 (boot_state (\<lambda>_. 0) ()) = None"
proof -
  have "table_entry floppy bad_disk 2 = 0xFF7" "table_entry floppy bad_disk 0xFF7 = 0xFF7"
    by (simp_all add: table_entry_def fat_entry_def floppy_fields disk_at_def bad_disk_def)
  then show ?thesis
    using fat_next_not_bad_follows_mark [of "perfect_int13 bad_disk 512" floppy 2 "boot_state (\<lambda>_. 0) ()"
        undefined undefined undefined bad_disk] floppy_ready [of bad_disk "\<lambda>_. 0" "()"]
    by (simp add: floppy_fields bad_mark_def)
qed

end
