(* ===== verification/Fat_Data.thy ===== *)
theory Fat_Data
  imports Fat_Table
begin

text \<open>
  The data area of a volume, shared by directories and files: the size and place of clusters,
  buffers filled from them, and what a run may leave changed.
\<close>

section \<open>Clusters\<close>

text \<open>
  The first cluster of an entry. \<open>fat_open\<close> shifts the upper half as a \<^verbatim>\<open>uint32_t\<close>, \<open>fat_read\<close>
  after its promotion to \<open>int\<close>; there C leaves the shift of an upper half of \<^verbatim>\<open>0x8000\<close> or more
  undefined, and the word here is what the compiler's two's complement arithmetic gives. The
  theorems that follow a chain ask for a cluster below \<^verbatim>\<open>0x10000000\<close>, where the question does not
  arise.
\<close>

definition dirent_cluster :: "fat_dirent_t \<Rightarrow> u32" where
  "dirent_cluster e = push_bit 16 (ucast (de_fst_clus_hi e)) OR ucast (de_fst_clus_lo e)"

text \<open>A product of two 16-bit numbers is computed as \<open>int\<close>.\<close>

definition mul_u16 :: "u16 \<Rightarrow> u16 \<Rightarrow> u32 res" where
  "mul_u16 a b =
     (if unat a * unat b < 2 ^ 31 then Inr (ucast a * ucast b) else Inl Signed_Overflow)"

lemma unat_mul_u16: "mul_u16 a b = Inr (ucast a * ucast b) \<and> unat (ucast a * ucast b :: u32) = unat a * unat b"
  if "unat a * unat b < 2 ^ 31"
  using that by (simp add: mul_u16_def unat_word_ariths)

definition cluster_bytes :: "fat_t \<Rightarrow> nat" where
  "cluster_bytes f = unat (sectors_per_cluster (fat_bpb f)) * unat (bytes_per_sector (fat_bpb f))"

lemma sound_volume_pos:
  assumes "sound_volume f"
  shows "512 \<le> unat (bytes_per_sector (fat_bpb f))" "0 < unat (sectors_per_cluster (fat_bpb f))"
    "0 < cluster_bytes f" "cluster_bytes f \<le> 255 * 65535"
    "unat (bytes_per_sector (fat_bpb f)) dvd cluster_bytes f"
proof -
  let ?n = "unat (bytes_per_sector (fat_bpb f))" and ?k = "unat (sectors_per_cluster (fat_bpb f))"
  show n: "512 \<le> ?n" and k: "0 < ?k"
    using assms by (simp_all add: sound_volume_def unat_gt_0)
  show "0 < cluster_bytes f" unfolding cluster_bytes_def using n k by simp
  have "?k \<le> 255" and "?n \<le> 65535"
    using u8_bound [of "sectors_per_cluster (fat_bpb f)"] u16_bound [of "bytes_per_sector (fat_bpb f)"] by simp_all
  then show "cluster_bytes f \<le> 255 * 65535" unfolding cluster_bytes_def by (rule mult_le_mono)
  show "?n dvd cluster_bytes f" by (simp add: cluster_bytes_def)
qed

lemma unat_cluster_bytes:
  "unat (ucast (sectors_per_cluster (fat_bpb f)) * ucast (bytes_per_sector (fat_bpb f)) :: u32) = cluster_bytes f"
proof -
  have "unat (sectors_per_cluster (fat_bpb f)) * unat (bytes_per_sector (fat_bpb f)) \<le> 255 * 65535"
    using u8_bound [of "sectors_per_cluster (fat_bpb f)"] u16_bound [of "bytes_per_sector (fat_bpb f)"]
    by (intro mult_le_mono) simp_all
  then show ?thesis by (simp add: cluster_bytes_def unat_word_ariths)
qed

abbreviation read_scratch :: "fat_t \<Rightarrow> nat" where
  "read_scratch f \<equiv> cluster_bytes f + table_scratch f"

section \<open>A filled buffer\<close>

text \<open>
  The destination keeps clear of the part of the extended stack still to be used, and a run
  that has filled it changed nothing else but scratch.
\<close>

definition clear_of_stack :: "u32 \<Rightarrow> nat \<Rightarrow> 'e machine \<Rightarrow> bool" where
  "clear_of_stack b n s \<longleftrightarrow> unat b + n \<le> 2 ^ 32 \<and> (unat b + n \<le> 0x40000 \<or> unat (ext_stack_top s) \<le> unat b)"

definition filled :: "u32 \<Rightarrow> nat \<Rightarrow> (nat \<Rightarrow> u8) \<Rightarrow> nat \<Rightarrow> 'e machine \<Rightarrow> 'e machine \<Rightarrow> bool" where
  "filled b n g k s t \<longleftrightarrow> (\<exists>e m. t = s\<lparr>bios_env := e, mem := m\<rparr> \<and> (\<forall>i<n. m (b + of_nat i) = g i)
     \<and> (\<forall>x. \<not> in_range b n x \<and> \<not> (unat x < unat (ext_stack_top s) \<and> unat (ext_stack_top s) \<le> unat x + k)
          \<longrightarrow> m x = mem s x))"

lemma unat_add_of_nat:
  "unat (b :: u32) + n \<le> 2 ^ 32 \<Longrightarrow> i < n \<Longrightarrow> unat (b + of_nat i) = unat b + i"
  by (simp add: unat_word_ariths unat_of_nat)

lemma in_range_nat: "unat (b :: u32) + n \<le> 2 ^ 32 \<Longrightarrow> in_range b n x \<longleftrightarrow> unat b \<le> unat x \<and> unat x < unat b + n"
proof -
  assume b: "unat b + n \<le> 2 ^ 32"
  show ?thesis
  proof (cases "b \<le> x")
    case True
    then show ?thesis by (auto simp: in_range_def unat_sub word_le_nat_alt)
  next
    case False
    then have lt: "unat x < unat b" by (simp add: word_le_nat_alt)
    let ?d = "unat (x - b)"
    have sum: "(?d + unat b) mod 2 ^ 32 = unat x"
      using unat_word_ariths(1) [of "x - b" b] by simp
    have "\<not> ?d + unat b < 2 ^ 32" using sum lt by auto
    then have "(?d + unat b) mod 2 ^ 32 = ?d + unat b - 2 ^ 32"
      using u32_bound [of "x - b"] u32_bound [of b] by (simp add: le_mod_geq)
    with sum \<open>\<not> ?d + unat b < 2 ^ 32\<close> have "?d = 2 ^ 32 + unat x - unat b" by simp
    with False b show ?thesis by (auto simp: in_range_def word_le_nat_alt)
  qed
qed

lemma filled_0 [simp]: "filled b 0 g k s s"
  unfolding filled_def by (rule exI [of _ "bios_env s"], rule exI [of _ "mem s"]) simp

lemma filled_frame:
  assumes "filled b n g k s t"
  shows "ext_stack_top t = ext_stack_top s" "ext_stack_ok t = ext_stack_ok s"
    "static_stack_top t = static_stack_top s" "region_heap t = region_heap s" "int10_log t = int10_log s"
  using assms by (auto simp: filled_def ext_stack_ok_def)

lemma filled_mono: "filled b n g k s t \<Longrightarrow> k \<le> k' \<Longrightarrow> filled b n g k' s t"
  unfolding filled_def by (elim ex_forward conj_forward) auto

lemma filled_scratch:
  assumes "only_scratch k s t" and "filled b n g k t u"
  shows "filled b n g k s u"
proof -
  from assms(1) obtain e m where t: "t = s\<lparr>bios_env := e, mem := m\<rparr>"
    and m: "\<And>x. \<not> (unat x < unat (ext_stack_top s) \<and> unat (ext_stack_top s) \<le> unat x + k) \<Longrightarrow> m x = mem s x"
    unfolding only_scratch_def by blast
  from assms(2) obtain e' m' where u: "u = s\<lparr>bios_env := e', mem := m'\<rparr>" and g: "\<forall>i<n. m' (b + of_nat i) = g i"
    and m': "\<And>x. \<not> in_range b n x \<Longrightarrow>
      \<not> (unat x < unat (ext_stack_top s) \<and> unat (ext_stack_top s) \<le> unat x + k) \<Longrightarrow> m' x = m x"
    unfolding filled_def t by auto
  have "m' x = mem s x" if "\<not> in_range b n x"
    and "\<not> (unat x < unat (ext_stack_top s) \<and> unat (ext_stack_top s) \<le> unat x + k)" for x
    using m [OF that(2)] m' [OF that] by simp
  with u g show ?thesis unfolding filled_def by blast
qed

lemma filled_append:
  assumes clear: "clear_of_stack b (n + n') s" and room: "0x40000 + k \<le> unat (ext_stack_top s)"
    and st: "filled b n g k s t" and tu: "filled (b + of_nat n) n' (\<lambda>i. g (n + i)) k t u"
  shows "filled b (n + n') g k s u"
proof -
  let ?top = "unat (ext_stack_top s)"
  from st obtain e m where t: "t = s\<lparr>bios_env := e, mem := m\<rparr>" and m: "\<And>i. i < n \<Longrightarrow> m (b + of_nat i) = g i"
    and fm: "\<And>x. \<not> in_range b n x \<Longrightarrow> \<not> (unat x < ?top \<and> ?top \<le> unat x + k) \<Longrightarrow> m x = mem s x"
    unfolding filled_def by blast
  from tu obtain e' m' where u: "u = s\<lparr>bios_env := e', mem := m'\<rparr>"
    and m': "\<And>i. i < n' \<Longrightarrow> m' (b + of_nat n + of_nat i) = g (n + i)"
    and fm': "\<And>x. \<not> in_range (b + of_nat n) n' x \<Longrightarrow> \<not> (unat x < ?top \<and> ?top \<le> unat x + k) \<Longrightarrow> m' x = m x"
    unfolding filled_def t by auto
  have b: "unat b + (n + n') \<le> 2 ^ 32" and c: "unat b + (n + n') \<le> 0x40000 \<or> ?top \<le> unat b"
    using clear by (simp_all add: clear_of_stack_def)
  show ?thesis
  proof (cases "n' = 0")
    case True
    then have "\<And>x. \<not> (unat x < ?top \<and> ?top \<le> unat x + k) \<Longrightarrow> m' x = m x"
      using fm' by (simp add: in_range_def)
    moreover have "\<not> (unat (b + of_nat i) < ?top \<and> ?top \<le> unat (b + of_nat i) + k)" if "i < n" for i
      using unat_add_of_nat [of b n i] b c room that True by auto
    ultimately show ?thesis
      unfolding filled_def using m fm True by (intro exI [of _ e'] exI [of _ m']) (auto simp: u)
  next
    case False
    have bn: "unat (b + of_nat n) = unat b + n" using b False by (intro unat_add_of_nat [of b "n + n'"]) simp_all
    have rest: "in_range (b + of_nat n) n' x \<longleftrightarrow> unat b + n \<le> unat x \<and> unat x < unat b + n + n'" for x
      using in_range_nat [of "b + of_nat n" n' x] b by (simp add: bn)
    have whole: "in_range b (n + n') x \<longleftrightarrow> unat b \<le> unat x \<and> unat x < unat b + (n + n')" for x
      using b by (rule in_range_nat)
    have first: "in_range b n x \<longleftrightarrow> unat b \<le> unat x \<and> unat x < unat b + n" for x
      using b by (intro in_range_nat) simp
    have data: "m' (b + of_nat i) = g i" if i: "i < n + n'" for i
    proof (cases "i < n")
      case True
      have ui: "unat (b + of_nat i) = unat b + i" using b i by (intro unat_add_of_nat [of b "n + n'"])
      have "m' (b + of_nat i) = m (b + of_nat i)"
        using c room i True by (intro fm') (auto simp: rest ui)
      with m [OF True] show ?thesis by simp
    next
      case False
      with i m' [of "i - n"] show ?thesis by (simp add: add.assoc flip: of_nat_add)
    qed
    have "m' x = mem s x" if "\<not> in_range b (n + n') x" and "\<not> (unat x < ?top \<and> ?top \<le> unat x + k)" for x
      using that fm [of x] fm' [of x] by (auto simp: rest whole first)
    with data u show ?thesis unfolding filled_def by blast
  qed
qed

text \<open>
  A filled buffer stays filled when, with \<open>k\<close> bytes still on the stack, \<open>j\<close> bytes below them
  are used as scratch.
\<close>

lemma filled_block:
  assumes clear: "clear_of_stack b n s" and room: "0x40000 + (k + j) \<le> unat (ext_stack_top s)"
    and st: "filled b n g k s (t\<lparr>ext_stack_top := ext_stack_top s\<rparr>)"
    and top: "unat (ext_stack_top t) + k = unat (ext_stack_top s)"
    and tu: "only_scratch j t u"
  shows "filled b n g (k + j) s (u\<lparr>ext_stack_top := ext_stack_top s\<rparr>)"
proof -
  let ?top = "unat (ext_stack_top s)"
  from st obtain e m where t: "t\<lparr>ext_stack_top := ext_stack_top s\<rparr> = s\<lparr>bios_env := e, mem := m\<rparr>"
    and m: "\<And>i. i < n \<Longrightarrow> m (b + of_nat i) = g i"
    and fm: "\<And>x. \<not> in_range b n x \<Longrightarrow> \<not> (unat x < ?top \<and> ?top \<le> unat x + k) \<Longrightarrow> m x = mem s x"
    unfolding filled_def by blast
  have "mem (t\<lparr>ext_stack_top := ext_stack_top s\<rparr>) = mem (s\<lparr>bios_env := e, mem := m\<rparr>)" by (simp only: t)
  then have mt: "mem t = m" by simp
  from tu obtain e' m' where u: "u = t\<lparr>bios_env := e', mem := m'\<rparr>"
    and fm': "\<And>x. \<not> (unat x < unat (ext_stack_top t) \<and> unat (ext_stack_top t) \<le> unat x + j) \<Longrightarrow> m' x = m x"
    unfolding only_scratch_def mt by blast
  have "u\<lparr>ext_stack_top := ext_stack_top s\<rparr> = (t\<lparr>ext_stack_top := ext_stack_top s\<rparr>)\<lparr>bios_env := e', mem := m'\<rparr>"
    by (simp add: u)
  then have u': "u\<lparr>ext_stack_top := ext_stack_top s\<rparr> = s\<lparr>bios_env := e', mem := m'\<rparr>" by (simp add: t)
  have b: "unat b + n \<le> 2 ^ 32" and c: "unat b + n \<le> 0x40000 \<or> ?top \<le> unat b"
    using clear by (simp_all add: clear_of_stack_def)
  have "m' (b + of_nat i) = g i" if i: "i < n" for i
  proof -
    have "m' (b + of_nat i) = m (b + of_nat i)"
      using unat_add_of_nat [OF b i] c room top i by (intro fm') auto
    with m [OF i] show ?thesis by simp
  qed
  moreover have "m' x = mem s x"
    if "\<not> in_range b n x" and "\<not> (unat x < ?top \<and> ?top \<le> unat x + (k + j))" for x
  proof -
    have "m' x = m x" using that top by (intro fm') auto
    also have "m x = mem s x" using that by (intro fm) auto
    finally show ?thesis .
  qed
  ultimately show ?thesis using u' unfolding filled_def by blast
qed

section \<open>Reading sectors of the data area\<close>

text \<open>A drive, a volume and \<open>k\<close> bytes of extended stack for reading.\<close>

definition read_ready :: "'e int13 \<Rightarrow> fat_t \<Rightarrow> disk \<Rightarrow> nat \<Rightarrow> 'e machine \<Rightarrow> bool" where
  "read_ready int13 f d k s \<longleftrightarrow>
     edd_read int13 (drive_number f) d (unat (bytes_per_sector (fat_bpb f)))
     \<and> no_read_errors int13 (drive_number f) \<and> sound_volume f
     \<and> ext_stack_ok s \<and> 0x40000 + k \<le> unat (ext_stack_top s)"

lemma read_ready_table:
  assumes "read_ready int13 f d k s" and "table_scratch f \<le> k"
  shows "table_ready int13 f d s"
proof -
  have "unat (2 * ucast (bytes_per_sector (fat_bpb f)) :: u32) = table_scratch f"
    using u16_bound [of "bytes_per_sector (fat_bpb f)"] by (simp add: unat_word_ariths)
  with assms show ?thesis by (simp add: read_ready_def table_ready_def ext_room_unat)
qed

text \<open>The data area: where a cluster starts, and that it lies on the volume.\<close>

definition cluster_sector :: "fat_t \<Rightarrow> nat \<Rightarrow> nat" where
  "cluster_sector f c = unat (first_data_sector f) + (c - 2) * unat (sectors_per_cluster (fat_bpb f))"

definition cluster_fits :: "fat_t \<Rightarrow> nat \<Rightarrow> bool" where
  "cluster_fits f c \<longleftrightarrow> 2 \<le> c \<and> cluster_sector f c + unat (sectors_per_cluster (fat_bpb f)) < 2 ^ 32"

lemma unat_cluster_to_lba:
  assumes "sound_volume f" and "cluster_fits f (unat c)"
  shows "unat (cluster_to_lba f c) = cluster_sector f (unat c)"
proof -
  let ?k = "unat (sectors_per_cluster (fat_bpb f))"
  have two: "2 \<le> unat c" and lim: "unat (first_data_sector f) + (unat c - 2) * ?k + ?k < 2 ^ 32"
    using assms(2) by (simp_all add: cluster_fits_def cluster_sector_def)
  have "unat (c - 2) = unat c - 2" using two by (subst unat_sub) (simp_all add: word_le_nat_alt)
  with lim show ?thesis by (simp add: cluster_to_lba_def cluster_sector_def unat_word_ariths)
qed

lemma fetch_direct:
  fixes int13 :: "'e int13" and b :: u32 and cnt :: u16
  assumes ready: "read_ready int13 f d 0 s" and low: "\<not> b > REAL_MODE_LIMIT"
    and clear: "clear_of_stack b (unat cnt * unat (bytes_per_sector (fat_bpb f))) s"
  shows "\<exists>t. disk_read int13 (drive_number f) (of_nat (sec + q)) b cnt s = Some (Inr DISK_SUCCESS, t)
    \<and> filled b (unat cnt * unat (bytes_per_sector (fat_bpb f)))
        (\<lambda>i. disk_at d (unat (bytes_per_sector (fat_bpb f))) sec (q * unat (bytes_per_sector (fat_bpb f)) + i)) 0 s t"
proof -
  let ?n = "unat (bytes_per_sector (fat_bpb f))"
  let ?m = "blit b (unat cnt * ?n) (disk_bytes d ?n (of_nat (sec + q))) (mem s)"
  have edd: "edd_read int13 (drive_number f) d ?n" and ok: "no_read_errors int13 (drive_number f)"
    and n: "0 < ?n"
    using ready sound_volume_pos(1) [of f] by (auto simp: read_ready_def)
  obtain e where run: "disk_read int13 (drive_number f) (of_nat (sec + q)) b cnt s
      = Some (Inr DISK_SUCCESS, s\<lparr>bios_env := e, mem := ?m\<rparr>)"
    using disk_read_data [OF edd ok low, of "of_nat (sec + q)" cnt s] by blast
  have b: "unat b + unat cnt * ?n \<le> 2 ^ 32" using clear by (simp add: clear_of_stack_def)
  have "?m (b + of_nat i) = disk_at d ?n sec (q * ?n + i)" if "i < unat cnt * ?n" for i
  proof -
    have "?m (b + of_nat i) = disk_bytes d ?n (of_nat (sec + q)) i" using that b by (intro blit_nth) simp_all
    also have "\<dots> = disk_at d ?n sec (q * ?n + i)"
      using disk_bytes_at [OF n, of d sec "q * ?n" i] n by simp
    finally show ?thesis .
  qed
  then have "filled b (unat cnt * ?n) (\<lambda>i. disk_at d ?n sec (q * ?n + i)) 0 s (s\<lparr>bios_env := e, mem := ?m\<rparr>)"
    unfolding filled_def by (intro exI [of _ e] exI [of _ ?m]) (simp add: blit_out)
  with run show ?thesis by blast
qed

lemma read_ready_filled: "filled b n g k' s t \<Longrightarrow> read_ready int13 f d k t = read_ready int13 f d k s"
  by (simp add: read_ready_def filled_frame)

end
