(* ===== verification/Fat_Dir.thy ===== *)
theory Fat_Dir
  imports Fat_Data
begin

text \<open>
  Names, directories and paths of \<^verbatim>\<open>stage1/fat.c\<close>. An output parameter that is written only
  on some paths is an option in the result. Paths and names are character arrays; a
  \<^verbatim>\<open>char *\<close> that moves is the rest of its array.
\<close>

section \<open>Short names\<close>

definition FAT_MAX_LENGTH_SHORT_NAME :: nat where "FAT_MAX_LENGTH_SHORT_NAME = 8"
definition FAT_MAX_LENGTH_SHORT_EXTENSION :: nat where "FAT_MAX_LENGTH_SHORT_EXTENSION = 3"
definition FAT_NAME_LEN :: nat where
  "FAT_NAME_LEN = FAT_MAX_LENGTH_SHORT_NAME + FAT_MAX_LENGTH_SHORT_EXTENSION"

lemmas fat_name_lengths [simp] =
  FAT_MAX_LENGTH_SHORT_NAME_def FAT_MAX_LENGTH_SHORT_EXTENSION_def FAT_NAME_LEN_def

abbreviation dot :: u8 where "dot \<equiv> of_char CHR ''.''"
abbreviation slash :: u8 where "slash \<equiv> of_char CHR ''/''"
abbreviation blank :: u8 where "blank \<equiv> of_char CHR '' ''"

function base_loop :: "u8 list \<Rightarrow> nat \<Rightarrow> u8 list \<Rightarrow> (nat \<times> u8 list) res" where
  "base_loop name i out =
     (if i < FAT_MAX_LENGTH_SHORT_NAME then
        rbind (rd name i) (\<lambda>c.
          if c \<noteq> dot \<and> c \<noteq> 0 then rbind (wr out i (toupper c)) (\<lambda>out. base_loop name (i + 1) out)
          else Inr (i, out))
      else Inr (i, out))"
  by pat_completeness auto
termination
  by (relation "measure (\<lambda>(name, i, out). FAT_MAX_LENGTH_SHORT_NAME - i)") auto

function ext_loop :: "u8 list \<Rightarrow> nat \<Rightarrow> nat \<Rightarrow> u8 list \<Rightarrow> (nat \<times> u8 list) res" where
  "ext_loop name i j out =
     (if j < FAT_MAX_LENGTH_SHORT_EXTENSION then
        rbind (rd name (i + j + 1)) (\<lambda>c.
          if c \<noteq> 0 then
            rbind (wr out (FAT_MAX_LENGTH_SHORT_NAME + j) (toupper c)) (\<lambda>out. ext_loop name i (j + 1) out)
          else Inr (j, out))
      else Inr (j, out))"
  by pat_completeness auto
termination
  by (relation "measure (\<lambda>(name, i, j, out). FAT_MAX_LENGTH_SHORT_EXTENSION - j)") auto

declare base_loop.simps [simp del] ext_loop.simps [simp del]

text \<open>The array starts as eleven blanks and the terminator, whatever it held.\<close>

definition convert_to_83_filename_with_terminator :: "u8 list \<Rightarrow> (bool \<times> u8 list) res" where
  "convert_to_83_filename_with_terminator name =
     (let filename_out = replicate FAT_NAME_LEN blank @ [0] in
      rbind (base_loop name 0 filename_out) (\<lambda>(i, out).
      rbind (rd name i) (\<lambda>c.
      if c \<noteq> dot \<and> c \<noteq> 0 then Inr (False, out)
      else if c \<noteq> 0 then
        rbind (ext_loop name i 0 out) (\<lambda>(j, out).
        if j = FAT_MAX_LENGTH_SHORT_EXTENSION then
          rbind (rd name (i + j + 1)) (\<lambda>c. Inr (c = 0, out))
        else Inr (True, out))
      else Inr (True, out))))"

section \<open>Directory search\<close>

definition dirent_at :: "memory \<Rightarrow> u32 \<Rightarrow> nat \<Rightarrow> fat_dirent_t" where
  "dirent_at m entries i = decode_dirent (bytes_at m (entries + 32 * of_nat i) 32)"

function search_loop ::
  "memory \<Rightarrow> u32 \<Rightarrow> nat \<Rightarrow> u8 list \<Rightarrow> nat \<Rightarrow> fat_dirent_t option res"
where
  "search_loop m entries entries_size converted_name i =
     (if i < entries_size \<and> de_name (dirent_at m entries i) ! 0 \<noteq> 0 then
        let entry = dirent_at m entries i in
        if de_name entry ! 0 = 0xE5 \<or> de_attr entry AND FAT_ATTR_VOLUME_ID \<noteq> 0 then
          search_loop m entries entries_size converted_name (i + 1)
        else if de_attr entry = FAT_ATTR_LONG_NAME then
          search_loop m entries entries_size converted_name (i + 1)
        else
          rbind (streq (de_name entry @ [0]) converted_name) (\<lambda>eq.
            if eq then Inr (Some entry)
            else search_loop m entries entries_size converted_name (i + 1))
      else Inr None)"
  by pat_completeness auto
termination
  by (relation "measure (\<lambda>(m, entries, n, cn, i). n - i)") auto

declare search_loop.simps [simp del]

text \<open>\<^term>\<open>Some\<close> of the entry is \<open>true\<close> with \<open>*dir_out\<close> written.\<close>

definition search_for_entry :: "memory \<Rightarrow> u32 \<Rightarrow> u32 \<Rightarrow> u8 list \<Rightarrow> fat_dirent_t option res" where
  "search_for_entry m entries entries_size name =
     rbind (convert_to_83_filename_with_terminator name) (\<lambda>(is_valid_name, converted_name).
       if \<not> is_valid_name then Inr None
       else search_loop m entries (unat entries_size) converted_name 0)"

definition search_root_for_entry ::
  "'e int13 \<Rightarrow> fat_t \<Rightarrow> u8 list \<Rightarrow> ('e machine, fat_dirent_t option) cmd"
where
  "search_root_for_entry int13 fat name =
     (let first_root_dir_sector = first_data_sector fat - ucast (root_dir_sectors fat);
          sector_count = root_dir_sectors fat in
      bind (lift_res (mul_u16 sector_count (bytes_per_sector (fat_bpb fat)))) (\<lambda>buffer_size.
      bind (push buffer_size) (\<lambda>buffer.
      bind (disk_read int13 (drive_number fat) (ucast first_root_dir_sector) buffer sector_count) (\<lambda>status.
      if status \<noteq> DISK_SUCCESS then bind (pop buffer_size) (\<lambda>_. ret None)
      else
        bind (gets (\<lambda>s. search_for_entry (mem s) buffer (ucast (root_entry_count (fat_bpb fat))) name)) (\<lambda>r.
        bind (lift_res r) (\<lambda>found.
        bind (pop buffer_size) (\<lambda>_. ret found)))))))"

section \<open>Paths\<close>

definition MAX_NAME_LEN :: nat where "MAX_NAME_LEN = 255"

lemmas [simp] = MAX_NAME_LEN_def

function segment_loop :: "u8 list \<Rightarrow> nat \<Rightarrow> u8 list \<Rightarrow> (nat \<times> u8 list) res" where
  "segment_loop path i segment =
     (if i < MAX_NAME_LEN then
        rbind (rd path (i + 1)) (\<lambda>c.
          if c \<noteq> 0 \<and> c \<noteq> slash then
            rbind (wr segment i c) (\<lambda>segment. segment_loop path (i + 1) segment)
          else Inr (i, segment))
      else Inr (i, segment))"
  by pat_completeness auto
termination
  by (relation "measure (\<lambda>(path, i, segment). MAX_NAME_LEN - i)") auto

declare segment_loop.simps [simp del]

text \<open>The result is the moved path and the filled segment array.\<close>

definition get_next_segment :: "u8 list \<Rightarrow> u8 list \<Rightarrow> (u8 list \<times> u8 list) res" where
  "get_next_segment path segment =
     rbind (rd path 0) (\<lambda>c.
     if c \<noteq> slash then rbind (wr segment 0 0) (\<lambda>segment. Inr (path, segment))
     else
       rbind (segment_loop path 0 segment) (\<lambda>(i, segment).
       rbind (wr segment i 0) (\<lambda>segment. Inr (drop (i + 1) path, segment))))"

section \<open>fat_open\<close>

text \<open>
  The loop over the clusters of one directory: while the segment is not found and the chain
  goes on. It ends with \<^term>\<open>Inl\<close> for the early return on a disk error, else with \<open>found\<close>.
\<close>

definition search_directory ::
  "'e int13 \<Rightarrow> fat_t \<Rightarrow> u8 list \<Rightarrow> u32 \<Rightarrow> ('e machine, fat_result_t + fat_dirent_t option) cmd"
where
  "search_directory int13 fat path_segment dir_cluster =
     (let bpb = fat_bpb fat;
          entry_count_per_cluster =
            ucast (sectors_per_cluster bpb) * ucast (bytes_per_sector bpb) div 32 :: u32;
          buffer_size = ucast (sectors_per_cluster bpb) * ucast (bytes_per_sector bpb) :: u32 in
      iterate (\<lambda>(found, cluster_result, cluster).
        if found = None \<and> cluster_result = FAT_CLUSTER_VALID then
          bind (push buffer_size) (\<lambda>buffer.
          bind (disk_read int13 (drive_number fat) (ucast (cluster_to_lba fat cluster)) buffer
                 (ucast (sectors_per_cluster bpb))) (\<lambda>status.
          if status \<noteq> DISK_SUCCESS then
            bind (pop buffer_size) (\<lambda>_. ret (Inr (Inl FAT_DISK_ERROR)))
          else
            bind (gets (\<lambda>s. search_for_entry (mem s) buffer entry_count_per_cluster path_segment)) (\<lambda>r.
            bind (lift_res r) (\<lambda>found.
            bind (if found = None then fat_next_not_bad int13 fat cluster
                  else ret (cluster_result, cluster)) (\<lambda>(cluster_result, cluster).
            bind (pop buffer_size) (\<lambda>_. ret (Inl (found, cluster_result, cluster))))))))
        else ret (Inr (Inr found)))
      (None, FAT_CLUSTER_VALID, dir_cluster))"

text \<open>The entry \<open>fat_open\<close> makes up for the root directory of a FAT32 volume.\<close>

definition root_dirent :: "fat_t \<Rightarrow> fat_dirent_t" where
  "root_dirent fat =
     (let root = root_cluster (ext_32 (fat_bpb_ext fat)) in
      \<lparr>de_name = replicate 11 0, de_attr = 0, de_ntres = 0, de_crt_time_tenth = 0, de_crt_time = 0,
       de_crt_date = 0, de_lst_acc_date = 0, de_fst_clus_hi = ucast (drop_bit 16 root),
       de_wrt_time = 0, de_wrt_date = 0, de_fst_clus_lo = ucast (root AND 0xffff), de_file_size = 0\<rparr>)"

text \<open>The loop over the path's segments.\<close>

definition resolve_path ::
  "'e int13 \<Rightarrow> fat_t \<Rightarrow> u8 list \<Rightarrow> u8 list \<Rightarrow> fat_dirent_t \<Rightarrow>
   ('e machine, fat_result_t + fat_dirent_t) cmd"
where
  "resolve_path int13 fat path path_segment current_directory =
     iterate (\<lambda>(path, path_segment, current_directory).
       bind (lift_res (rd path_segment 0)) (\<lambda>c.
       if c \<noteq> 0 then
         bind (search_directory int13 fat path_segment (dirent_cluster current_directory)) (\<lambda>r.
         case r of
           Inl e \<Rightarrow> ret (Inr (Inl e))
         | Inr None \<Rightarrow> ret (Inr (Inl FAT_FILE_NOT_FOUND))
         | Inr (Some entry) \<Rightarrow>
             bind (lift_res (get_next_segment path path_segment)) (\<lambda>(path, path_segment).
             ret (Inl (path, path_segment, entry))))
       else ret (Inr (Inr current_directory))))
     (path, path_segment, current_directory)"

text \<open>
  The segment array is a local of 256 bytes with no initial value; nothing reads it before
  \<open>get_next_segment\<close> has filled it, so it starts as zeros. \<^term>\<open>Some\<close> file is \<open>*file_out\<close> written.
\<close>

definition fat_open ::
  "'e int13 \<Rightarrow> fat_t \<Rightarrow> u8 list \<Rightarrow> ('e machine, fat_result_t \<times> fat_file_t option) cmd"
where
  "fat_open int13 fat path =
     bind (lift_res (get_next_segment path (replicate (MAX_NAME_LEN + 1) 0))) (\<lambda>(path, path_segment).
     bind (lift_res (rd path_segment 0)) (\<lambda>c.
     if c = 0 then ret (FAT_FILE_NOT_FOUND, None)
     else
       bind (case fat_type fat of
           FAT_TYPE_32 \<Rightarrow> ret (Some (path, path_segment, root_dirent fat))
         | _ \<Rightarrow>
             bind (search_root_for_entry int13 fat path_segment) (\<lambda>found.
             case found of
               None \<Rightarrow> ret None
             | Some entry \<Rightarrow>
                 bind (lift_res (get_next_segment path path_segment)) (\<lambda>(path, path_segment).
                 ret (Some (path, path_segment, entry))))) (\<lambda>start.
       case start of
         None \<Rightarrow> ret (FAT_FILE_NOT_FOUND, None)
       | Some (path, path_segment, current_directory) \<Rightarrow>
           bind (resolve_path int13 fat path path_segment current_directory) (\<lambda>r.
           case r of
             Inl e \<Rightarrow> ret (e, None)
           | Inr entry \<Rightarrow>
               if de_attr entry AND FAT_ATTR_DIRECTORY \<noteq> 0 then ret (FAT_IS_DIRECTORY, None)
               else ret (FAT_SUCCESS, Some \<lparr>file_fat = fat, file_entry = entry\<rparr>)))))"

section \<open>The stack around names and paths\<close>

lemmas balanced_rules =
  ext_stack.balanced_bind ext_stack.balanced_ret ext_stack.balanced_lift_res ext_stack.balanced_gets
  ext_stack.balanced_halt bios_disk.rd_balanced fat_next_not_bad_balanced

text \<open>Both searches are a block of the extended stack around a body.\<close>

definition root_body ::
  "'e int13 \<Rightarrow> fat_t \<Rightarrow> u8 list \<Rightarrow> u32 \<Rightarrow> ('e machine, fat_dirent_t option) cmd"
where
  "root_body int13 f name b =
     bind (disk_read int13 (drive_number f) (ucast (first_data_sector f - ucast (root_dir_sectors f))) b (root_dir_sectors f))
       (\<lambda>st. if st \<noteq> DISK_SUCCESS then ret None
         else bind (gets (\<lambda>s. search_for_entry (mem s) b (ucast (root_entry_count (fat_bpb f))) name)) lift_res)"

lemma search_root_block:
  fixes int13 :: "'e int13"
  shows "search_root_for_entry int13 f name =
     bind (lift_res (mul_u16 (root_dir_sectors f) (bytes_per_sector (fat_bpb f)))) (\<lambda>n.
     bind (push n) (\<lambda>b. bind (root_body int13 f name b) (\<lambda>r. bind (pop n) (\<lambda>_. ret r))))"
proof -
  have "(if st \<noteq> DISK_SUCCESS then bind (pop n) (\<lambda>_. ret None)
      else bind (gets g) (\<lambda>r. bind (lift_res r) (\<lambda>found. bind (pop n) (\<lambda>_. ret found))))
    = bind (if st \<noteq> DISK_SUCCESS then ret None else bind (gets g) lift_res) (\<lambda>r. bind (pop n) (\<lambda>_. ret r))"
    for st n and g :: "'e machine \<Rightarrow> fat_dirent_t option res"
    by (rule ext) (simp add: exec_bind exec)
  then show ?thesis
    by (simp only: search_root_for_entry_def root_body_def Let_def bind_assoc)
qed

lemma search_root_balanced: "ext_stack.balanced (search_root_for_entry int13 f name)"
  unfolding search_root_block root_body_def
  by (intro balanced_rules ext_stack.balanced_block [where f = "\<lambda>r. r"] ext_stack.balanced_if)

definition cluster_body ::
  "'e int13 \<Rightarrow> fat_t \<Rightarrow> u8 list \<Rightarrow> fat_cluster_result_t \<Rightarrow> u32 \<Rightarrow> u32 \<Rightarrow>
   ('e machine, (fat_dirent_t option \<times> fat_cluster_result_t \<times> u32) + (fat_result_t + fat_dirent_t option)) cmd"
where
  "cluster_body int13 f name cr c b =
     bind (disk_read int13 (drive_number f) (ucast (cluster_to_lba f c)) b (ucast (sectors_per_cluster (fat_bpb f))))
       (\<lambda>st. if st \<noteq> DISK_SUCCESS then ret (Inr (Inl FAT_DISK_ERROR))
         else bind (gets (\<lambda>s. search_for_entry (mem s) b
             (ucast (sectors_per_cluster (fat_bpb f)) * ucast (bytes_per_sector (fat_bpb f)) div 32) name)) (\<lambda>r.
           bind (lift_res r) (\<lambda>found.
           bind (if found = None then fat_next_not_bad int13 f c else ret (cr, c)) (\<lambda>(cr, c).
           ret (Inl (found, cr, c))))))"

lemma search_directory_block:
  fixes int13 :: "'e int13"
  shows "search_directory int13 f name c =
     (let n = ucast (sectors_per_cluster (fat_bpb f)) * ucast (bytes_per_sector (fat_bpb f)) in
      iterate (\<lambda>(found, cr, c).
        if found = None \<and> cr = FAT_CLUSTER_VALID then
          bind (push n) (\<lambda>b. bind (cluster_body int13 f name cr c b) (\<lambda>r. bind (pop n) (\<lambda>_. ret r)))
        else ret (Inr (Inr found)))
      (None, FAT_CLUSTER_VALID, c))"
proof -
  have "(if st \<noteq> DISK_SUCCESS then bind (pop n) (\<lambda>_. ret (Inr (Inl FAT_DISK_ERROR)))
      else bind (gets g) (\<lambda>r. bind (lift_res r) (\<lambda>found. bind (k found) (\<lambda>(cr, c).
        bind (pop n) (\<lambda>_. ret (Inl (found, cr, c)))))))
    = bind (if st \<noteq> DISK_SUCCESS then ret (Inr (Inl FAT_DISK_ERROR :: fat_result_t + fat_dirent_t option))
        else bind (gets g) (\<lambda>r. bind (lift_res r) (\<lambda>found. bind (k found) (\<lambda>(cr, c). ret (Inl (found, cr, c))))))
        (\<lambda>r. bind (pop n) (\<lambda>_. ret r))"
    for st n and g :: "'e machine \<Rightarrow> fat_dirent_t option res"
      and k :: "fat_dirent_t option \<Rightarrow> ('e machine, fat_cluster_result_t \<times> u32) cmd"
    by (rule ext) (auto simp: exec_bind exec split: option.splits sum.splits)
  then show ?thesis
    by (simp only: search_directory_def cluster_body_def Let_def bind_assoc)
qed

lemma search_directory_balanced: "ext_stack.balanced (search_directory int13 f name c)"
proof -
  have "ext_stack.balanced (cluster_body int13 f name cr c b)" for cr c b
    unfolding cluster_body_def
    by (intro balanced_rules ext_stack.balanced_if) (auto split: prod.splits intro!: balanced_rules)
  then show ?thesis
    unfolding search_directory_block Let_def
    by (intro ext_stack.balanced_iterate)
      (auto split: prod.splits intro!: balanced_rules ext_stack.balanced_block [where f = "\<lambda>r. r"])
qed

lemma resolve_path_balanced: "ext_stack.balanced (resolve_path int13 f path segment e)"
  unfolding resolve_path_def
  by (intro ext_stack.balanced_iterate)
    (auto split: prod.splits sum.splits option.splits intro!: balanced_rules search_directory_balanced)

lemma fat_open_balanced: "ext_stack.balanced (fat_open int13 f path)"
  unfolding fat_open_def
  by (intro balanced_rules ext_stack.balanced_if)
    (auto split: prod.splits sum.splits option.splits fat_type_t.splits
      intro!: balanced_rules search_root_balanced resolve_path_balanced)

section \<open>Short names\<close>

text \<open>
  The specification: the part before the first dot padded to eight, the part after it to
  three, both in capitals; no short name when one of them is too long.
\<close>

definition pad :: "nat \<Rightarrow> u8 list \<Rightarrow> u8 list" where
  "pad n xs = xs @ replicate (n - length xs) blank"

definition name83 :: "u8 list \<Rightarrow> u8 list option" where
  "name83 s =
     (let base = takeWhile (\<lambda>c. c \<noteq> dot) s; ext = drop (length base + 1) s in
      if length base \<le> 8 \<and> length ext \<le> 3 then Some (pad 8 (map toupper base) @ pad 3 (map toupper ext))
      else None)"

lemma base_loop_run:
  assumes "0 \<notin> set bs" and "dot \<notin> set bs" and "length pre + length bs \<le> 8" and "8 \<le> length out"
    and "c = dot \<or> c = 0 \<or> length pre + length bs = 8"
  shows "base_loop (pre @ bs @ c # rest) (length pre) out
    = Inr (length pre + length bs, overwrite out (length pre) (map toupper bs))"
  using assms
proof (induction bs arbitrary: pre out)
  case Nil
  then show ?case by (subst base_loop.simps) (auto simp: overwrite_Nil)
next
  case (Cons b bs)
  have "base_loop (pre @ (b # bs) @ c # rest) (length pre) out
      = base_loop ((pre @ [b]) @ bs @ c # rest) (length (pre @ [b])) (out[length pre := toupper b])"
    using Cons.prems by (subst base_loop.simps) (auto simp: nth_append)
  also have "\<dots> = Inr (length (pre @ [b]) + length bs,
      overwrite (out[length pre := toupper b]) (length (pre @ [b])) (map toupper bs))"
    using Cons.prems by (intro Cons.IH) auto
  finally show ?case using Cons.prems by (simp add: overwrite_Cons)
qed

lemma ext_loop_run:
  assumes "0 \<notin> set es" and "length pre = i + j + 1" and "j + length es \<le> 3" and "length out = 12"
    and "c = 0 \<or> j + length es = 3"
  shows "ext_loop (pre @ es @ c # rest) i j out = Inr (j + length es, overwrite out (8 + j) (map toupper es))"
  using assms
proof (induction es arbitrary: pre j out)
  case Nil
  then show ?case by (subst ext_loop.simps) (auto simp: overwrite_Nil nth_append)
next
  case (Cons e es)
  have "ext_loop (pre @ (e # es) @ c # rest) i j out
      = ext_loop ((pre @ [e]) @ es @ c # rest) i (j + 1) (out[8 + j := toupper e])"
    using Cons.prems by (subst ext_loop.simps) (auto simp: nth_append)
  also have "\<dots> = Inr (j + 1 + length es, overwrite (out[8 + j := toupper e]) (8 + (j + 1)) (map toupper es))"
    using Cons.prems by (intro Cons.IH) auto
  finally show ?case using Cons.prems overwrite_Cons [of "8 + j" out] by simp
qed

lemma split_at_length:
  assumes "n < length xs"
  obtains a c r where "xs = a @ c # r" and "length a = n"
  using assms id_take_nth_drop [OF assms] by (metis length_take min.absorb4)

lemma split_at_8:
  assumes "\<not> length (xs :: u8 list) \<le> 8"
  obtains a c r where "xs = a @ c # r" and "length a = 8"
  using assms split_at_length [of 8 xs] by auto

lemma split_at_3:
  assumes "\<not> length (xs :: u8 list) \<le> 3"
  obtains a c r where "xs = a @ c # r" and "length a = 3"
  using assms split_at_length [of 3 xs] by auto

lemma convert_base_only:
  assumes "0 \<notin> set bs" and "dot \<notin> set bs"
  shows "\<exists>out. convert_to_83_filename_with_terminator (bs @ 0 # rest) = Inr (length bs \<le> 8, out)
    \<and> (length bs \<le> 8 \<longrightarrow> out = pad 8 (map toupper bs) @ replicate 3 blank @ [0])"
proof (cases "length bs \<le> 8")
  case True
  have "base_loop (bs @ 0 # rest) 0 (replicate 11 blank @ [0])
      = Inr (length bs, overwrite (replicate 11 blank @ [0]) 0 (map toupper bs))"
    using base_loop_run [of bs "[]" "replicate 11 blank @ [0]" 0 rest] assms True by simp
  moreover have "replicate (11 - length bs) blank = replicate (8 - length bs) blank @ replicate 3 blank"
    using True by (simp flip: replicate_add)
  ultimately show ?thesis
    using True by (simp add: convert_to_83_filename_with_terminator_def overwrite_def pad_def nth_append del: append_replicate_commute)
next
  case False
  then obtain a c r where bs: "bs = a @ c # r" and a: "length a = 8" by (rule split_at_8)
  then have c: "c \<noteq> 0" "c \<noteq> dot" using assms by auto
  have "base_loop (a @ c # r @ 0 # rest) 0 (replicate 11 blank @ [0])
      = Inr (8, overwrite (replicate 11 blank @ [0]) 0 (map toupper a))"
    using base_loop_run [of a "[]" "replicate 11 blank @ [0]" c "r @ 0 # rest"] assms a bs by simp
  then show ?thesis
    using False c a by (simp add: bs convert_to_83_filename_with_terminator_def nth_append)
qed

lemma convert_base_ext:
  assumes "0 \<notin> set bs" and "dot \<notin> set bs" and "0 \<notin> set es"
  shows "\<exists>out. convert_to_83_filename_with_terminator (bs @ dot # es @ 0 # rest)
      = Inr (length bs \<le> 8 \<and> length es \<le> 3, out)
    \<and> (length bs \<le> 8 \<and> length es \<le> 3 \<longrightarrow> out = pad 8 (map toupper bs) @ pad 3 (map toupper es) @ [0])"
proof (cases "length bs \<le> 8")
  case False
  then obtain a c r where bs: "bs = a @ c # r" and a: "length a = 8" by (rule split_at_8)
  then have c: "c \<noteq> 0" "c \<noteq> dot" using assms by auto
  have "base_loop (a @ c # r @ dot # es @ 0 # rest) 0 (replicate 11 blank @ [0])
      = Inr (8, overwrite (replicate 11 blank @ [0]) 0 (map toupper a))"
    using base_loop_run [of a "[]" "replicate 11 blank @ [0]" c "r @ dot # es @ 0 # rest"] assms a bs by simp
  then show ?thesis
    using False c a by (simp add: bs convert_to_83_filename_with_terminator_def nth_append)
next
  case True
  let ?init = "replicate 11 blank @ [0]"
  let ?out = "overwrite ?init 0 (map toupper bs)"
  have out: "?out = pad 8 (map toupper bs) @ replicate 3 blank @ [0]" and l12: "length ?out = 12"
    using True by (simp_all add: overwrite_def pad_def flip: replicate_add)
  have base: "base_loop (bs @ dot # es @ 0 # rest) 0 ?init = Inr (length bs, ?out)"
    using base_loop_run [of bs "[]" ?init dot "es @ 0 # rest"] assms True by simp
  show ?thesis
  proof (cases "length es \<le> 3")
    case le: True
    have ext: "ext_loop (bs @ dot # es @ 0 # rest) (length bs) 0 ?out
        = Inr (length es, overwrite ?out 8 (map toupper es))"
      using ext_loop_run [of es "bs @ [dot]" "length bs" 0 ?out 0 rest] assms le l12 by simp
    have "overwrite ?out 8 (map toupper es) = pad 8 (map toupper bs) @ pad 3 (map toupper es) @ [0]"
      unfolding out using True le by (simp add: overwrite_def pad_def)
    then show ?thesis
      using True le base ext by (simp add: convert_to_83_filename_with_terminator_def nth_append)
  next
    case gt: False
    then obtain a c r where es: "es = a @ c # r" and a: "length a = 3" by (rule split_at_3)
    have ext: "ext_loop (bs @ dot # a @ c # r @ 0 # rest) (length bs) 0 ?out
        = Inr (3, overwrite ?out 8 (map toupper a))"
      using ext_loop_run [of a "bs @ [dot]" "length bs" 0 ?out c "r @ 0 # rest"] assms a l12 by (simp add: es)
    have "c \<noteq> 0" using assms(3) es by auto
    then show ?thesis
      using True gt base ext a by (simp add: es convert_to_83_filename_with_terminator_def nth_append)
  qed
qed

text \<open>The conversion on any terminated name.\<close>

lemma convert_name83:
  assumes "0 \<notin> set s"
  shows "\<exists>out. convert_to_83_filename_with_terminator (s @ 0 # rest) = Inr (name83 s \<noteq> None, out)
    \<and> (\<forall>nm. name83 s = Some nm \<longrightarrow> out = nm @ [0])"
proof (cases "dot \<in> set s")
  case False
  then have "takeWhile (\<lambda>c. c \<noteq> dot) s = s" by (auto simp: takeWhile_eq_all_conv)
  then have "name83 s = (if length s \<le> 8 then Some (pad 8 (map toupper s) @ replicate 3 blank) else None)"
    by (simp only: name83_def Let_def) (simp add: pad_def)
  with convert_base_only [OF assms False, of rest] show ?thesis by auto
next
  case True
  then obtain bs es where s: "s = bs @ dot # es" and bs: "dot \<notin> set bs" by (meson split_list_first)
  then have "takeWhile (\<lambda>c. c \<noteq> dot) s = bs"
    by (simp only: takeWhile_append) (auto simp: takeWhile_eq_all_conv)
  then have "name83 s = (if length bs \<le> 8 \<and> length es \<le> 3
      then Some (pad 8 (map toupper bs) @ pad 3 (map toupper es)) else None)"
    by (simp only: name83_def Let_def) (simp add: s)
  with convert_base_ext [of bs es rest] bs assms s show ?thesis by auto
qed

section \<open>Directories\<close>

text \<open>
  The specification of a search: entries up to the first one that starts with a zero byte; of
  those, the first that is neither deleted nor a volume label (or part of a long name) and
  has the name.
\<close>

definition visible :: "fat_dirent_t \<Rightarrow> bool" where
  "visible e \<longleftrightarrow> de_name e ! 0 \<noteq> 0xE5 \<and> de_attr e AND FAT_ATTR_VOLUME_ID = 0"

definition live :: "fat_dirent_t list \<Rightarrow> fat_dirent_t list" where
  "live es = takeWhile (\<lambda>e. de_name e ! 0 \<noteq> 0) es"

definition find_in_dir :: "fat_dirent_t list \<Rightarrow> u8 list \<Rightarrow> fat_dirent_t option" where
  "find_in_dir es s = Option.bind (name83 s) (\<lambda>nm. find (\<lambda>e. visible e \<and> de_name e = nm) (live es))"

lemma length_name83: "name83 s = Some nm \<Longrightarrow> length nm = 11"
  by (auto simp: name83_def Let_def pad_def split: if_splits)

lemma toupper_nonzero: "c \<noteq> 0 \<Longrightarrow> toupper c \<noteq> 0"
  by (auto simp: toupper_def)

lemma name83_nonzero:
  assumes "0 \<notin> set s" and "name83 s = Some nm"
  shows "0 \<notin> set nm"
proof -
  define bs where "bs = takeWhile (\<lambda>c. c \<noteq> dot) s"
  define es where "es = drop (length bs + 1) s"
  have "set bs \<subseteq> set s" "set es \<subseteq> set s"
    unfolding bs_def es_def by (auto dest: set_takeWhileD in_set_dropD)
  moreover have "nm = pad 8 (map toupper bs) @ pad 3 (map toupper es)"
    using assms(2) unfolding name83_def Let_def bs_def [symmetric] es_def [symmetric] by (simp split: if_splits)
  ultimately have "set nm \<subseteq> toupper ` set s \<union> {blank}"
    by (auto simp: pad_def)
  moreover have "0 \<notin> toupper ` set s \<union> {blank}" by (simp add: image_iff) (metis assms(1) toupper_nonzero)
  ultimately show ?thesis by blast
qed

lemma length_de_name: "length b = 32 \<Longrightarrow> length (de_name (decode_dirent b)) = 11"
  by (simp add: decode_dirent_def sub_bytes_def)

lemma length_bytes_at [simp]: "length (bytes_at m a n) = n"
  by (simp add: bytes_at_def)

lemma name_matches:
  assumes "length dn = 11" and "length nm = 11" and "0 \<notin> set nm"
  shows "streq (dn @ [0]) (nm @ [0]) = Inr (dn = nm)"
proof -
  have "cstr (nm @ [0]) = nm" by (rule cstr_append [OF assms(3)])
  moreover have "cstr (dn @ [0]) = nm \<longleftrightarrow> dn = nm"
  proof
    assume eq: "cstr (dn @ [0]) = nm"
    have "0 \<notin> set dn"
    proof
      assume "0 \<in> set dn"
      then obtain a r where dn: "dn = a @ 0 # r" and "0 \<notin> set a" by (meson split_list_first)
      then have "cstr (dn @ [0]) = a" using cstr_append [of a "r @ [0]"] by simp
      with eq assms(1,2) dn show False by simp
    qed
    with eq show "dn = nm" using cstr_append [of dn "[]"] by simp
  next
    assume "dn = nm" then show "cstr (dn @ [0]) = nm" using cstr_append [OF assms(3)] by simp
  qed
  ultimately show ?thesis by (subst streq_cstr) (simp_all add: terminated_def)
qed

lemma search_loop_find:
  assumes "length nm = 11" and "0 \<notin> set nm"
  shows "search_loop m a n (nm @ [0]) i
    = Inr (find (\<lambda>e. visible e \<and> de_name e = nm) (live (map (dirent_at m a) [i..<n])))"
proof (induction "n - i" arbitrary: i)
  case 0
  then show ?case by (subst search_loop.simps) (simp add: live_def)
next
  case (Suc k)
  then have i: "i < n" and IH: "search_loop m a n (nm @ [0]) (i + 1)
      = Inr (find (\<lambda>e. visible e \<and> de_name e = nm) (live (map (dirent_at m a) [i + 1..<n])))"
    by simp_all
  have up: "[i..<n] = i # [i + 1..<n]" using i by (simp add: upt_rec)
  have lfn: "FAT_ATTR_LONG_NAME AND FAT_ATTR_VOLUME_ID \<noteq> 0" by (simp add: fat_attrs)
  have "length (de_name (dirent_at m a i)) = 11" by (simp add: dirent_at_def length_de_name)
  from name_matches [OF this assms] show ?case
    unfolding up using i IH lfn
    by (subst search_loop.simps) (auto simp: live_def visible_def Let_def)
qed

lemma search_for_entry_find:
  assumes "0 \<notin> set s"
  shows "search_for_entry m a n (s @ 0 # rest) = Inr (find_in_dir (map (dirent_at m a) [0..<unat n]) s)"
proof -
  obtain out where conv: "convert_to_83_filename_with_terminator (s @ 0 # rest) = Inr (name83 s \<noteq> None, out)"
    and out: "\<forall>nm. name83 s = Some nm \<longrightarrow> out = nm @ [0]"
    using convert_name83 [OF assms] by blast
  show ?thesis
  proof (cases "name83 s")
    case None
    with conv show ?thesis by (simp add: search_for_entry_def find_in_dir_def)
  next
    case (Some nm)
    with conv out show ?thesis
      by (simp add: search_for_entry_def find_in_dir_def
          search_loop_find [OF length_name83 [OF Some] name83_nonzero [OF assms Some]])
  qed
qed

section \<open>Path segments\<close>

definition segment_ok :: "u8 list \<Rightarrow> bool" where
  "segment_ok s \<longleftrightarrow> s \<noteq> [] \<and> 0 \<notin> set s \<and> slash \<notin> set s \<and> length s \<le> 255"

text \<open>The array of a path with these segments; what is behind its terminator is \<open>rest\<close>.\<close>

fun path_of :: "u8 list list \<Rightarrow> u8 list \<Rightarrow> u8 list" where
  "path_of [] rest = 0 # rest"
| "path_of (s # ss) rest = slash # s @ path_of ss rest"

lemma path_of_head: "\<exists>c r. path_of ss rest = c # r \<and> (c = 0 \<or> c = slash)"
  by (cases ss) auto

lemma segment_loop_run:
  assumes "0 \<notin> set bs" and "slash \<notin> set bs" and "length pre = i + 1" and "i + length bs \<le> 255"
    and "length seg = 256" and "c = 0 \<or> c = slash"
  shows "segment_loop (pre @ bs @ c # rest) i seg = Inr (i + length bs, overwrite seg i bs)"
  using assms
proof (induction bs arbitrary: pre i seg)
  case Nil
  then show ?case by (subst segment_loop.simps) (auto simp: overwrite_Nil nth_append)
next
  case (Cons b bs)
  have "segment_loop (pre @ (b # bs) @ c # rest) i seg
      = segment_loop ((pre @ [b]) @ bs @ c # rest) (i + 1) (seg[i := b])"
    using Cons.prems by (subst segment_loop.simps) (auto simp: nth_append)
  also have "\<dots> = Inr (i + 1 + length bs, overwrite (seg[i := b]) (i + 1) bs)"
    using Cons.prems by (intro Cons.IH) auto
  finally show ?case using Cons.prems by (simp add: overwrite_Cons)
qed

lemma next_segment_Cons:
  assumes "segment_ok s" and "length seg = 256"
  shows "\<exists>seg'. get_next_segment (path_of (s # ss) rest) seg = Inr (path_of ss rest, s @ 0 # seg')
    \<and> length (s @ 0 # seg') = 256"
proof -
  obtain c r where tail: "path_of ss rest = c # r" and c: "c = 0 \<or> c = slash"
    using path_of_head by blast
  have s: "0 \<notin> set s" "slash \<notin> set s" "length s \<le> 255" using assms(1) by (simp_all add: segment_ok_def)
  have "segment_loop ([slash] @ s @ c # r) 0 seg = Inr (0 + length s, overwrite seg 0 s)"
    using s assms(2) c by (intro segment_loop_run) simp_all
  moreover have "(overwrite seg 0 s)[length s := 0] = s @ 0 # drop (length s + 1) seg"
  proof -
    have "drop (length s) seg = seg ! length s # drop (length s + 1) seg"
      using s(3) assms(2) Cons_nth_drop_Suc [of "length s" seg] by simp
    then show ?thesis by (simp add: overwrite_def list_update_append)
  qed
  moreover have "length (overwrite seg 0 s) = 256" using s(3) assms(2) by (simp add: overwrite_def)
  ultimately show ?thesis
    using s(3) assms(2) by (simp add: get_next_segment_def tail)
qed

lemma next_segment_Nil:
  "length seg = 256 \<Longrightarrow> get_next_segment (path_of [] rest) seg = Inr (path_of [] rest, seg[0 := 0])"
  by (simp add: get_next_segment_def)

section \<open>Searching a directory\<close>

text \<open>The entries a run of sectors holds.\<close>

definition entries_of :: "(nat \<Rightarrow> u8) \<Rightarrow> nat \<Rightarrow> fat_dirent_t list" where
  "entries_of b n = map (\<lambda>i. decode_dirent (map (\<lambda>j. b (32 * i + j)) [0..<32])) [0..<n]"

definition cluster_entries :: "fat_t \<Rightarrow> disk \<Rightarrow> nat \<Rightarrow> fat_dirent_t list" where
  "cluster_entries f d c =
     entries_of (disk_at d (unat (bytes_per_sector (fat_bpb f))) (cluster_sector f c)) (cluster_bytes f div 32)"

definition root_entries :: "fat_t \<Rightarrow> disk \<Rightarrow> fat_dirent_t list" where
  "root_entries f d =
     entries_of (disk_at d (unat (bytes_per_sector (fat_bpb f)))
       (unat (first_data_sector f) - unat (root_dir_sectors f))) (unat (root_entry_count (fat_bpb f)))"

text \<open>What a directory that starts at cluster \<open>c\<close> has under a name, along its chain.\<close>

inductive dir_entry :: "fat_t \<Rightarrow> disk \<Rightarrow> u8 list \<Rightarrow> nat \<Rightarrow> fat_dirent_t option \<Rightarrow> bool"
  for f d s
where
  dir_found: "cluster_fits f c \<Longrightarrow> find_in_dir (cluster_entries f d c) s = Some e \<Longrightarrow> dir_entry f d s c (Some e)"
| dir_next: "cluster_fits f c \<Longrightarrow> find_in_dir (cluster_entries f d c) s = None \<Longrightarrow>
    next_cluster f d c = Some c' \<Longrightarrow> dir_entry f d s c' r \<Longrightarrow> dir_entry f d s c r"
| dir_absent: "cluster_fits f c \<Longrightarrow> find_in_dir (cluster_entries f d c) s = None \<Longrightarrow>
    link_of (fat_type f) (table_entry f d c) = FAT_CLUSTER_END \<Longrightarrow> dir_entry f d s c None"

lemma filled_entries:
  assumes "filled b n g k s t" and "32 * m \<le> n"
  shows "map (dirent_at (mem t) b) [0..<m] = entries_of g m"
proof -
  from assms(1) obtain e m' where t: "mem t = m'" and g: "\<forall>i<n. m' (b + of_nat i) = g i"
    unfolding filled_def by auto
  have "dirent_at m' b i = decode_dirent (map (\<lambda>j. g (32 * i + j)) [0..<32])" if i: "i < m" for i
  proof -
    have "m' (b + 32 * of_nat i + of_nat j) = g (32 * i + j)" if "j < 32" for j
    proof -
      have "32 * i + j < n" using i that assms(2) by simp
      with g have "m' (b + of_nat (32 * i + j)) = g (32 * i + j)" by blast
      then show ?thesis by (simp add: add.assoc)
    qed
    then have "bytes_at m' (b + 32 * of_nat i) 32 = map (\<lambda>j. g (32 * i + j)) [0..<32]"
      unfolding bytes_at_def by (intro map_cong) simp_all
    then show ?thesis by (simp only: dirent_at_def)
  qed
  then show ?thesis by (simp add: entries_of_def t)
qed

text \<open>A block filled from the data area, searched.\<close>

lemma block_search:
  fixes int13 :: "'e int13" and n :: u32 and cnt :: u16
  assumes ready: "read_ready int13 f d (unat n + k) s"
    and n: "unat n = unat cnt * unat (bytes_per_sector (fat_bpb f))"
    and m: "32 * m \<le> unat n" and lba: "lba = of_nat sec"
  shows "\<exists>t. push n s = Some (Inr (ext_stack_top s - n), s\<lparr>ext_stack_top := ext_stack_top s - n\<rparr>)
    \<and> disk_read int13 (drive_number f) lba (ext_stack_top s - n) cnt (s\<lparr>ext_stack_top := ext_stack_top s - n\<rparr>)
        = Some (Inr DISK_SUCCESS, t)
    \<and> map (dirent_at (mem t) (ext_stack_top s - n)) [0..<m] = entries_of (disk_at d (unat (bytes_per_sector (fat_bpb f))) sec) m
    \<and> read_ready int13 f d k t \<and> ext_stack_top t = ext_stack_top s - n
    \<and> (\<forall>u. only_scratch k t u \<longrightarrow>
        pop n u = Some (Inr (), u\<lparr>ext_stack_top := ext_stack_top s\<rparr>)
        \<and> only_scratch (unat n + k) s (u\<lparr>ext_stack_top := ext_stack_top s\<rparr>))"
proof -
  let ?ssz = "unat (bytes_per_sector (fat_bpb f))" and ?b = "ext_stack_top s - n"
  let ?s1 = "s\<lparr>ext_stack_top := ?b\<rparr>"
  have st: "ext_stack_ok s" and room: "0x40000 + (unat n + k) \<le> unat (ext_stack_top s)"
    using ready by (simp_all add: read_ready_def)
  have er: "ext_room n s" using ext_room_unat [OF st] room by simp
  have b: "unat ?b = unat (ext_stack_top s) - unat n" using room by (simp add: unat_sub word_le_nat_alt)
  have top: "unat (ext_stack_top s) \<le> 0x80000" using st by (simp add: ext_stack_ok_def memory_map word_le_nat_alt)
  have low: "\<not> ?b > REAL_MODE_LIMIT" using top by (simp add: REAL_MODE_LIMIT_val word_less_nat_alt b)
  have ready1: "read_ready int13 f d k ?s1"
    using ready push_keeps_ok [OF st er] room by (simp add: read_ready_def b)
  then have ready0: "read_ready int13 f d 0 ?s1" by (simp add: read_ready_def)
  have clear: "clear_of_stack ?b (unat cnt * ?ssz) ?s1"
    using n room top by (simp add: clear_of_stack_def b)
  obtain t where run: "disk_read int13 (drive_number f) lba ?b cnt ?s1 = Some (Inr DISK_SUCCESS, t)"
    and fl: "filled ?b (unat n) (disk_at d ?ssz sec) 0 ?s1 t"
    using fetch_direct [OF ready0 low clear, of sec 0] by (auto simp: n lba)
  from fl obtain e m' where t: "t = ?s1\<lparr>bios_env := e, mem := m'\<rparr>"
    and fm: "\<forall>x. \<not> in_range ?b (unat n) x \<longrightarrow> m' x = mem s x"
    unfolding filled_def by auto
  have topt: "ext_stack_top t = ?b" by (simp add: t)
  have restore: "pop n u = Some (Inr (), u\<lparr>ext_stack_top := ext_stack_top s\<rparr>)
      \<and> only_scratch (unat n + k) s (u\<lparr>ext_stack_top := ext_stack_top s\<rparr>)" if u: "only_scratch k t u" for u
  proof
    have "ext_stack_top u = ?b" using only_scratch_frame(1) [OF u] topt by simp
    then show "pop n u = Some (Inr (), u\<lparr>ext_stack_top := ext_stack_top s\<rparr>)" by (rule pop_after_push [OF st er])
    have "only_scratch k (s\<lparr>ext_stack_top := ?b, mem := m'\<rparr>) u"
      using u unfolding t only_scratch_def by auto
    then show "only_scratch (unat n + k) s (u\<lparr>ext_stack_top := ext_stack_top s\<rparr>)"
      by (rule only_scratch_block [OF st er _ fm])
  qed
  show ?thesis
    using push_run [OF er] run filled_entries [OF fl m] read_ready_filled [OF fl] ready1 topt restore by blast
qed

definition dir_step ::
  "'e int13 \<Rightarrow> fat_t \<Rightarrow> u8 list \<Rightarrow> fat_dirent_t option \<times> fat_cluster_result_t \<times> u32 \<Rightarrow>
   ('e machine, (fat_dirent_t option \<times> fat_cluster_result_t \<times> u32) + (fat_result_t + fat_dirent_t option)) cmd"
where
  "dir_step int13 f name = (\<lambda>(found, cr, c).
     let n = ucast (sectors_per_cluster (fat_bpb f)) * ucast (bytes_per_sector (fat_bpb f)) in
     if found = None \<and> cr = FAT_CLUSTER_VALID then
       bind (push n) (\<lambda>b. bind (cluster_body int13 f name cr c b) (\<lambda>r. bind (pop n) (\<lambda>_. ret r)))
     else ret (Inr (Inr found)))"

lemma search_directory_steps: "search_directory int13 f name c = iterate (dir_step int13 f name) (None, FAT_CLUSTER_VALID, c)"
  by (simp only: search_directory_block dir_step_def Let_def)

lemma dir_step_over:
  "found \<noteq> None \<or> cr \<noteq> FAT_CLUSTER_VALID \<Longrightarrow>
   iterate (dir_step int13 f name) (found, cr, c) s = Some (Inr (Inr found), s)"
  by (subst iterate_unfold) (auto simp: dir_step_def exec_bind exec)

lemma cluster_step:
  fixes int13 :: "'e int13" and f :: fat_t and c :: u32 and d :: disk and name :: "u8 list"
  defines "n \<equiv> ucast (sectors_per_cluster (fat_bpb f)) * ucast (bytes_per_sector (fat_bpb f)) :: u32"
  defines "found \<equiv> find_in_dir (cluster_entries f d (unat c)) name"
  assumes ready: "read_ready int13 f d (read_scratch f) s" and fit: "cluster_fits f (unat c)"
    and name: "0 \<notin> set name"
    and step: "\<And>t :: 'e machine. table_ready int13 f d t \<Longrightarrow>
      \<exists>u. (if found = None then fat_next_not_bad int13 f c else ret (FAT_CLUSTER_VALID, c)) t = Some (Inr (cr', c'), u)
        \<and> only_scratch (table_scratch f) t u"
  shows "\<exists>u. dir_step int13 f (name @ 0 # rest) (None, FAT_CLUSTER_VALID, c) s = Some (Inr (Inl (found, cr', c')), u)
    \<and> only_scratch (read_scratch f) s u"
proof -
  have vol: "sound_volume f" using ready by (simp add: read_ready_def)
  have un: "unat n = cluster_bytes f" unfolding n_def by (rule unat_cluster_bytes)
  have unc: "unat n = unat (ucast (sectors_per_cluster (fat_bpb f)) :: u16) * unat (bytes_per_sector (fat_bpb f))"
    by (simp add: un cluster_bytes_def)
  have lba: "ucast (cluster_to_lba f c) = (of_nat (cluster_sector f (unat c)) :: u64)"
    by (metis unat_cluster_to_lba [OF vol fit] unat_ucast_32_64 of_nat_unat_id)
  have "read_ready int13 f d (unat n + table_scratch f) s" using ready by (simp add: un)
  from block_search [OF this unc, of "cluster_bytes f div 32", OF _ lba] obtain t where
    push: "push n s = Some (Inr (ext_stack_top s - n), s\<lparr>ext_stack_top := ext_stack_top s - n\<rparr>)"
    and read: "disk_read int13 (drive_number f) (ucast (cluster_to_lba f c)) (ext_stack_top s - n)
        (ucast (sectors_per_cluster (fat_bpb f))) (s\<lparr>ext_stack_top := ext_stack_top s - n\<rparr>) = Some (Inr DISK_SUCCESS, t)"
    and entries: "map (dirent_at (mem t) (ext_stack_top s - n)) [0..<cluster_bytes f div 32] = cluster_entries f d (unat c)"
    and ready_t: "read_ready int13 f d (table_scratch f) t"
    and fin: "\<forall>u. only_scratch (table_scratch f) t u \<longrightarrow>
        pop n u = Some (Inr (), u\<lparr>ext_stack_top := ext_stack_top s\<rparr>)
        \<and> only_scratch (unat n + table_scratch f) s (u\<lparr>ext_stack_top := ext_stack_top s\<rparr>)"
    by (auto simp: un cluster_entries_def)
  have "unat (n div 32) = cluster_bytes f div 32" by (simp add: unat_div un)
  then have look: "search_for_entry (mem t) (ext_stack_top s - n) (n div 32) (name @ 0 # rest) = Inr found"
    by (simp add: search_for_entry_find [OF name] entries found_def)
  obtain u where nxt: "(if found = None then fat_next_not_bad int13 f c else ret (FAT_CLUSTER_VALID, c)) t = Some (Inr (cr', c'), u)"
    and u: "only_scratch (table_scratch f) t u"
    using step [OF read_ready_table [OF ready_t order_refl]] by blast
  let ?u = "u\<lparr>ext_stack_top := ext_stack_top s\<rparr>"
  have body: "cluster_body int13 f (name @ 0 # rest) FAT_CLUSTER_VALID c (ext_stack_top s - n) (s\<lparr>ext_stack_top := ext_stack_top s - n\<rparr>)
      = Some (Inr (Inl (found, cr', c')), u)"
    unfolding cluster_body_def n_def [symmetric]
    by (rule bind_run, rule read, simp only: simp_thms if_False, rule bind_run, rule exec_basic(3),
        simp only: look, rule bind_run, rule exec_lift_res(1), rule bind_run, rule nxt) (simp add: exec)
  have "bind (push n) (\<lambda>b. bind (cluster_body int13 f (name @ 0 # rest) FAT_CLUSTER_VALID c b) (\<lambda>r. bind (pop n) (\<lambda>_. ret r))) s
      = Some (Inr (Inl (found, cr', c')), ?u)"
    using fin u by (intro bind_run [where m = "push n", OF push] bind_run [where m = "cluster_body _ _ _ _ _ _", OF body]
      bind_run [where m = "pop n" and s = u and s' = ?u]) (auto simp: exec)
  then have "dir_step int13 f (name @ 0 # rest) (None, FAT_CLUSTER_VALID, c) s = Some (Inr (Inl (found, cr', c')), ?u)"
    by (simp only: dir_step_def Let_def prod.case n_def [symmetric] simp_thms if_True)
  with fin u un show ?thesis by auto
qed

lemma search_directory_run:
  fixes int13 :: "'e int13" and c :: u32
  assumes "dir_entry f d name c0 r" and "unat c = c0" and "c0 < 2 ^ 28"
    and "read_ready int13 f d (read_scratch f) s" and "0 \<notin> set name"
  shows "\<exists>t. search_directory int13 f (name @ 0 # rest) c s = Some (Inr (Inr r), t)
    \<and> only_scratch (read_scratch f) s t"
  using assms
proof (induction arbitrary: c s rule: dir_entry.induct)
  case (dir_found c0 e)
  have "\<exists>u. dir_step int13 f (name @ 0 # rest) (None, FAT_CLUSTER_VALID, c) s
      = Some (Inr (Inl (Some e, FAT_CLUSTER_VALID, c)), u) \<and> only_scratch (read_scratch f) s u"
    using cluster_step [OF dir_found.prems(3), of c name FAT_CLUSTER_VALID c rest]
      dir_found.hyps dir_found.prems by (simp add: exec)
  then show ?case
    unfolding search_directory_steps by (subst iterate_unfold) (auto simp: exec_bind dir_step_over)
next
  case (dir_next c0 c' r)
  have c': "c' < 2 ^ 28" by (rule next_cluster_bound [OF dir_next.hyps(3)])
  then have uc: "unat (of_nat c' :: u32) = c'" by (simp add: unat_of_nat)
  have c: "unat c < 2 ^ 28" "next_cluster f d (unat c) = Some c'" using dir_next.prems dir_next.hyps by simp_all
  have "\<exists>u. dir_step int13 f (name @ 0 # rest) (None, FAT_CLUSTER_VALID, c) s
      = Some (Inr (Inl (None, FAT_CLUSTER_VALID, of_nat c')), u) \<and> only_scratch (read_scratch f) s u"
    using cluster_step [OF dir_next.prems(3), of c name FAT_CLUSTER_VALID "of_nat c'" rest]
      fat_next_not_bad_next [OF _ c] dir_next.hyps(1,2) dir_next.prems by auto
  then obtain u where step: "dir_step int13 f (name @ 0 # rest) (None, FAT_CLUSTER_VALID, c) s
      = Some (Inr (Inl (None, FAT_CLUSTER_VALID, of_nat c')), u)" and u: "only_scratch (read_scratch f) s u" by blast
  have "read_ready int13 f d (read_scratch f) u"
    using dir_next.prems(3) by (simp add: read_ready_def only_scratch_frame [OF u])
  from dir_next.IH [OF uc c' this dir_next.prems(4)] obtain t where
    "iterate (dir_step int13 f (name @ 0 # rest)) (None, FAT_CLUSTER_VALID, of_nat c') u = Some (Inr (Inr r), t)"
    and t: "only_scratch (read_scratch f) u t" unfolding search_directory_steps by blast
  then have "search_directory int13 f (name @ 0 # rest) c s = Some (Inr (Inr r), t)"
    unfolding search_directory_steps by (subst iterate_unfold) (simp add: exec_bind step)
  with only_scratch_trans [OF u t] show ?case by blast
next
  case (dir_absent c0)
  have c: "unat c < 2 ^ 28" "link_of (fat_type f) (table_entry f d (unat c)) = FAT_CLUSTER_END"
    using dir_absent.prems dir_absent.hyps by simp_all
  have "\<exists>u. dir_step int13 f (name @ 0 # rest) (None, FAT_CLUSTER_VALID, c) s
      = Some (Inr (Inl (None, FAT_CLUSTER_END, of_nat (table_entry f d (unat c)))), u)
    \<and> only_scratch (read_scratch f) s u"
    using cluster_step [OF dir_absent.prems(3), of c name FAT_CLUSTER_END "of_nat (table_entry f d (unat c))" rest]
      fat_next_not_bad_end [OF _ c] dir_absent.hyps(1,2) dir_absent.prems by auto
  then show ?case
    unfolding search_directory_steps by (subst iterate_unfold) (auto simp: exec_bind dir_step_over)
qed

section \<open>Resolving a path\<close>

text \<open>What a path leads to: the entry after its last segment, or nothing.\<close>

inductive path_walk :: "fat_t \<Rightarrow> disk \<Rightarrow> u8 list list \<Rightarrow> fat_dirent_t \<Rightarrow> fat_dirent_t option \<Rightarrow> bool"
  for f d
where
  walk_end: "path_walk f d [] e (Some e)"
| walk_step: "segment_ok s \<Longrightarrow> unat (dirent_cluster e) < 2 ^ 28 \<Longrightarrow>
    dir_entry f d s (unat (dirent_cluster e)) (Some e') \<Longrightarrow> list_all segment_ok ss \<Longrightarrow>
    path_walk f d ss e' r \<Longrightarrow> path_walk f d (s # ss) e r"
| walk_absent: "segment_ok s \<Longrightarrow> unat (dirent_cluster e) < 2 ^ 28 \<Longrightarrow>
    dir_entry f d s (unat (dirent_cluster e)) None \<Longrightarrow> list_all segment_ok ss \<Longrightarrow> path_walk f d (s # ss) e None"

inductive_cases path_walk_NilE: "path_walk f d [] e r"

text \<open>The array of the current segment while \<open>ss\<close> is still to be resolved.\<close>

definition at_segment :: "u8 list list \<Rightarrow> u8 list \<Rightarrow> u8 list \<Rightarrow> u8 list \<Rightarrow> bool" where
  "at_segment ss rest path seg \<longleftrightarrow> length seg = 256 \<and>
     (case ss of [] \<Rightarrow> path = path_of [] rest \<and> seg ! 0 = 0
      | s # ss' \<Rightarrow> path = path_of ss' rest \<and> (\<exists>r. seg = s @ 0 # r))"

lemma next_segment_run:
  assumes "list_all segment_ok ss" and "length seg = 256"
  shows "\<exists>path' seg'. get_next_segment (path_of ss rest) seg = Inr (path', seg') \<and> at_segment ss rest path' seg'"
proof (cases ss)
  case Nil
  with assms(2) next_segment_Nil [of seg rest] show ?thesis
    by (auto simp: at_segment_def nth_list_update simp del: path_of.simps)
next
  case (Cons s ss')
  with assms(1) have "segment_ok s" by simp
  from next_segment_Cons [OF this assms(2), of ss' rest] show ?thesis
    by (auto simp: Cons at_segment_def simp del: path_of.simps)
qed

lemma read_ready_mono: "read_ready int13 f d k s \<Longrightarrow> k' \<le> k \<Longrightarrow> read_ready int13 f d k' s"
  by (auto simp: read_ready_def)

lemma read_ready_scratch: "only_scratch n s t \<Longrightarrow> read_ready int13 f d k t = read_ready int13 f d k s"
  by (simp add: read_ready_def only_scratch_frame)

lemma segment_ok_head: "segment_ok s \<Longrightarrow> (s @ xs) ! 0 \<noteq> 0 \<and> 0 \<notin> set s"
  by (cases s) (auto simp: segment_ok_def)

lemma resolve_path_run:
  fixes int13 :: "'e int13"
  assumes "path_walk f d ss e r" and "at_segment ss rest path seg" and "read_ready int13 f d (read_scratch f) s"
  shows "\<exists>t. resolve_path int13 f path seg e s =
      Some (Inr (case r of None \<Rightarrow> Inl FAT_FILE_NOT_FOUND | Some e' \<Rightarrow> Inr e'), t)
    \<and> only_scratch (read_scratch f) s t"
  using assms
proof (induction arbitrary: path seg s rule: path_walk.induct)
  case (walk_end e)
  then have "rd seg 0 = Inr 0" by (auto simp: at_segment_def rd_def)
  then show ?case
    unfolding resolve_path_def by (subst iterate_unfold) (auto simp: exec_bind exec)
next
  case (walk_step sg e e' ss r)
  from walk_step.prems(1) obtain x where path: "path = path_of ss rest" and seg: "seg = sg @ 0 # x" and len: "length seg = 256"
    by (auto simp: at_segment_def)
  have head: "rd seg 0 = Inr (seg ! 0)" "seg ! 0 \<noteq> 0" and nz: "0 \<notin> set sg"
    using segment_ok_head [OF walk_step.hyps(1), of "0 # x"] len by (auto simp: seg)
  obtain t where found: "search_directory int13 f seg (dirent_cluster e) s = Some (Inr (Inr (Some e')), t)"
    and t: "only_scratch (read_scratch f) s t"
    using search_directory_run [OF walk_step.hyps(3) refl walk_step.hyps(2) walk_step.prems(2) nz] seg by blast
  obtain path' seg' where seg': "get_next_segment path seg = Inr (path', seg')" and at: "at_segment ss rest path' seg'"
    using next_segment_run [OF walk_step.hyps(4) len] path by blast
  from walk_step.IH [OF at] walk_step.prems(2) read_ready_scratch [OF t] obtain u where
    rest: "resolve_path int13 f path' seg' e' t = Some (Inr (case r of None \<Rightarrow> Inl FAT_FILE_NOT_FOUND | Some e' \<Rightarrow> Inr e'), u)"
    and u: "only_scratch (read_scratch f) t u" by blast
  have "resolve_path int13 f path seg e s = Some (Inr (case r of None \<Rightarrow> Inl FAT_FILE_NOT_FOUND | Some e' \<Rightarrow> Inr e'), u)"
    unfolding resolve_path_def
    by (subst iterate_unfold) (simp add: exec_bind exec head found seg' rest [unfolded resolve_path_def])
  with only_scratch_trans [OF t u] show ?case by blast
next
  case (walk_absent sg e ss)
  from walk_absent.prems(1) obtain x where seg: "seg = sg @ 0 # x" and len: "length seg = 256"
    by (auto simp: at_segment_def)
  have head: "rd seg 0 = Inr (seg ! 0)" "seg ! 0 \<noteq> 0" and nz: "0 \<notin> set sg"
    using segment_ok_head [OF walk_absent.hyps(1), of "0 # x"] len by (auto simp: seg)
  obtain t where "search_directory int13 f seg (dirent_cluster e) s = Some (Inr (Inr None), t)"
    and "only_scratch (read_scratch f) s t"
    using search_directory_run [OF walk_absent.hyps(3) refl walk_absent.hyps(2) walk_absent.prems(2) nz] seg by blast
  then show ?case
    unfolding resolve_path_def by (subst iterate_unfold) (auto simp: exec_bind exec head)
qed

section \<open>The root directory of a FAT12 or FAT16 volume\<close>

definition root_bytes :: "fat_t \<Rightarrow> nat" where
  "root_bytes f = unat (root_dir_sectors f) * unat (bytes_per_sector (fat_bpb f))"

definition root_fits :: "fat_t \<Rightarrow> bool" where
  "root_fits f \<longleftrightarrow> root_bytes f < 2 ^ 31 \<and> 32 * unat (root_entry_count (fat_bpb f)) \<le> root_bytes f
     \<and> unat (root_dir_sectors f) \<le> unat (first_data_sector f)"

lemma search_root_run:
  fixes int13 :: "'e int13"
  assumes ready: "read_ready int13 f d (root_bytes f) s" and fits: "root_fits f" and name: "0 \<notin> set name"
  shows "\<exists>t. search_root_for_entry int13 f (name @ 0 # rest) s = Some (Inr (find_in_dir (root_entries f d) name), t)
    \<and> only_scratch (root_bytes f) s t"
proof -
  define n where "n = (ucast (root_dir_sectors f) * ucast (bytes_per_sector (fat_bpb f)) :: u32)"
  have mul: "mul_u16 (root_dir_sectors f) (bytes_per_sector (fat_bpb f)) = Inr n" and un: "unat n = root_bytes f"
    using unat_mul_u16 [of "root_dir_sectors f" "bytes_per_sector (fat_bpb f)"] fits
    by (simp_all add: n_def root_fits_def root_bytes_def)
  let ?sec = "unat (first_data_sector f) - unat (root_dir_sectors f)"
  have "unat (first_data_sector f - ucast (root_dir_sectors f)) = ?sec"
    using fits by (simp add: unat_sub word_le_nat_alt root_fits_def)
  then have lba: "ucast (first_data_sector f - ucast (root_dir_sectors f)) = (of_nat ?sec :: u64)"
    by (metis unat_ucast_32_64 of_nat_unat_id)
  have r: "read_ready int13 f d (unat n + 0) s" using ready by (simp add: un)
  have "32 * unat (root_entry_count (fat_bpb f)) \<le> unat n" using fits by (simp add: un root_fits_def)
  from block_search [OF r _ this lba, of "root_dir_sectors f"] obtain t where
    push: "push n s = Some (Inr (ext_stack_top s - n), s\<lparr>ext_stack_top := ext_stack_top s - n\<rparr>)"
    and read: "disk_read int13 (drive_number f) (ucast (first_data_sector f - ucast (root_dir_sectors f)))
        (ext_stack_top s - n) (root_dir_sectors f) (s\<lparr>ext_stack_top := ext_stack_top s - n\<rparr>) = Some (Inr DISK_SUCCESS, t)"
    and entries: "map (dirent_at (mem t) (ext_stack_top s - n)) [0..<unat (root_entry_count (fat_bpb f))] = root_entries f d"
    and fin: "\<forall>u. only_scratch 0 t u \<longrightarrow>
        pop n u = Some (Inr (), u\<lparr>ext_stack_top := ext_stack_top s\<rparr>)
        \<and> only_scratch (unat n + 0) s (u\<lparr>ext_stack_top := ext_stack_top s\<rparr>)"
    by (auto simp: un root_bytes_def root_entries_def)
  have look: "search_for_entry (mem t) (ext_stack_top s - n) (ucast (root_entry_count (fat_bpb f))) (name @ 0 # rest)
      = Inr (find_in_dir (root_entries f d) name)"
    by (simp add: search_for_entry_find [OF name] entries)
  have body: "root_body int13 f (name @ 0 # rest) (ext_stack_top s - n) (s\<lparr>ext_stack_top := ext_stack_top s - n\<rparr>)
      = Some (Inr (find_in_dir (root_entries f d) name), t)"
    unfolding root_body_def
    by (rule bind_run, rule read, simp only: simp_thms if_False, rule bind_run, rule exec_basic(3))
      (simp only: look exec_lift_res(1))
  have "search_root_for_entry int13 f (name @ 0 # rest) s
      = Some (Inr (find_in_dir (root_entries f d) name), t\<lparr>ext_stack_top := ext_stack_top s\<rparr>)"
    unfolding search_root_block mul
    by (rule bind_run, rule exec_lift_res(1), rule bind_run, rule push, rule bind_run, rule body, rule bind_run)
      (use fin in \<open>auto simp: exec\<close>)
  with fin un show ?thesis by auto
qed

section \<open>fat_open\<close>

text \<open>What the volume has at an absolute path.\<close>

definition path_leads :: "fat_t \<Rightarrow> disk \<Rightarrow> u8 list list \<Rightarrow> fat_dirent_t option \<Rightarrow> bool" where
  "path_leads f d segs r \<longleftrightarrow>
     (if fat_type f = FAT_TYPE_32 then path_walk f d segs (root_dirent f) r
      else case segs of
        [] \<Rightarrow> False
      | s # ss \<Rightarrow> segment_ok s \<and> list_all segment_ok ss \<and>
          (case find_in_dir (root_entries f d) s of
            None \<Rightarrow> r = None
          | Some e \<Rightarrow> path_walk f d ss e r))"

definition open_result :: "fat_t \<Rightarrow> fat_dirent_t option \<Rightarrow> fat_result_t \<times> fat_file_t option" where
  "open_result f r =
     (case r of
       None \<Rightarrow> (FAT_FILE_NOT_FOUND, None)
     | Some e \<Rightarrow>
         if de_attr e AND FAT_ATTR_DIRECTORY \<noteq> 0 then (FAT_IS_DIRECTORY, None)
         else (FAT_SUCCESS, Some \<lparr>file_fat = f, file_entry = e\<rparr>))"

definition open_scratch :: "fat_t \<Rightarrow> nat" where
  "open_scratch f = max (read_scratch f) (root_bytes f)"

lemma path_walk_Cons: "path_walk f d (s # ss) e r \<Longrightarrow> segment_ok s \<and> list_all segment_ok ss"
  by (erule path_walk.cases) auto

lemma path_leads_segments:
  assumes "path_leads f d segs r" and "segs \<noteq> []"
  obtains s ss where "segs = s # ss" and "segment_ok s" and "list_all segment_ok ss"
  using assms path_walk_Cons by (cases segs) (auto simp: path_leads_def split: if_splits)

text \<open>The continuation of \<open>fat_open\<close> once the first directory is known.\<close>

lemma open_tail:
  fixes int13 :: "'e int13"
  assumes "path_walk f d ss e r" and "at_segment ss rest path seg" and "read_ready int13 f d (read_scratch f) s"
  shows "\<exists>t. bind (resolve_path int13 f path seg e) (\<lambda>r.
      case r of Inl e \<Rightarrow> ret (e, None)
      | Inr entry \<Rightarrow> if de_attr entry AND FAT_ATTR_DIRECTORY \<noteq> 0 then ret (FAT_IS_DIRECTORY, None)
          else ret (FAT_SUCCESS, Some \<lparr>file_fat = f, file_entry = entry\<rparr>)) s
      = Some (Inr (open_result f r), t) \<and> only_scratch (read_scratch f) s t"
  using resolve_path_run [OF assms] by (auto simp: exec_bind exec open_result_def split: option.splits)

lemma fat_open_run:
  fixes int13 :: "'e int13"
  assumes leads: "path_leads f d segs r" and ne: "segs \<noteq> []"
    and ready: "read_ready int13 f d (open_scratch f) s"
    and root: "fat_type f \<noteq> FAT_TYPE_32 \<Longrightarrow> root_fits f"
  shows "\<exists>t. fat_open int13 f (path_of segs rest) s = Some (Inr (open_result f r), t)
    \<and> only_scratch (open_scratch f) s t"
proof -
  obtain sg ss where segs: "segs = sg # ss" and sg: "segment_ok sg" and ss: "list_all segment_ok ss"
    using path_leads_segments [OF leads ne] .
  have ready1: "read_ready int13 f d (read_scratch f) s" and ready2: "read_ready int13 f d (root_bytes f) s"
    by (rule read_ready_mono [OF ready], simp add: open_scratch_def)+
  obtain x where first: "get_next_segment (path_of (sg # ss) rest) (replicate (MAX_NAME_LEN + 1) 0) = Inr (path_of ss rest, sg @ 0 # x)"
    and len: "length (sg @ 0 # x) = 256"
    using next_segment_Cons [OF sg, of "replicate (MAX_NAME_LEN + 1) 0" ss rest] by auto
  let ?seg = "sg @ 0 # x"
  have head: "rd ?seg 0 = Inr (?seg ! 0)" "?seg ! 0 \<noteq> 0" and nz: "0 \<notin> set sg"
    using segment_ok_head [OF sg, of "0 # x"] len by auto
  show ?thesis
  proof (cases "fat_type f = FAT_TYPE_32")
    case True
    then have walk: "path_walk f d (sg # ss) (root_dirent f) r" using leads by (simp add: path_leads_def segs)
    have at: "at_segment (sg # ss) rest (path_of ss rest) ?seg" using len by (simp add: at_segment_def)
    from open_tail [OF walk at ready1] obtain t where
      tail: "bind (resolve_path int13 f (path_of ss rest) ?seg (root_dirent f)) (\<lambda>r.
        case r of Inl e \<Rightarrow> ret (e, None)
        | Inr entry \<Rightarrow> if de_attr entry AND FAT_ATTR_DIRECTORY \<noteq> 0 then ret (FAT_IS_DIRECTORY, None)
          else ret (FAT_SUCCESS, Some \<lparr>file_fat = f, file_entry = entry\<rparr>)) s = Some (Inr (open_result f r), t)"
      and t: "only_scratch (read_scratch f) s t" by blast
    have "fat_open int13 f (path_of segs rest) s = Some (Inr (open_result f r), t)"
      unfolding fat_open_def segs first
      by (rule bind_run, rule exec_lift_res(1), simp only: prod.case head(1), rule bind_run, rule exec_lift_res(1))
        (simp add: head(2) True bind_return [where m = "ret _"] exec tail del: path_of.simps)
    with only_scratch_mono [OF t] show ?thesis by (auto simp: open_scratch_def)
  next
    case False
    obtain t where found: "search_root_for_entry int13 f ?seg s = Some (Inr (find_in_dir (root_entries f d) sg), t)"
      and t: "only_scratch (root_bytes f) s t"
      using search_root_run [OF ready2 root [OF False] nz, of x] by blast
    have t': "only_scratch (open_scratch f) s t" by (rule only_scratch_mono [OF t]) (simp add: open_scratch_def)
    have sel: "(case fat_type f of FAT_TYPE_32 \<Rightarrow> a | _ \<Rightarrow> b) = b" for a b :: 'z
      using False by (cases "fat_type f") simp_all
    show ?thesis
    proof (cases "find_in_dir (root_entries f d) sg")
      case None
      then have r: "r = None" using leads False by (simp add: path_leads_def segs)
      have "fat_open int13 f (path_of segs rest) s = Some (Inr (open_result f r), t)"
        unfolding fat_open_def segs first sel
        by (rule bind_run, rule exec_lift_res(1), simp only: prod.case head(1), rule bind_run, rule exec_lift_res(1))
          (simp add: head(2) exec_bind found None exec r open_result_def)
      with t' show ?thesis by blast
    next
      case (Some e)
      then have walk: "path_walk f d ss e r" using leads False by (simp add: path_leads_def segs)
      obtain path' seg' where nxt: "get_next_segment (path_of ss rest) ?seg = Inr (path', seg')"
        and at: "at_segment ss rest path' seg'" using next_segment_run [OF ss len] by blast
      have "read_ready int13 f d (read_scratch f) t" using ready1 read_ready_scratch [OF t] by simp
      from open_tail [OF walk at this] obtain u where
        tail: "bind (resolve_path int13 f path' seg' e) (\<lambda>r.
          case r of Inl e \<Rightarrow> ret (e, None)
          | Inr entry \<Rightarrow> if de_attr entry AND FAT_ATTR_DIRECTORY \<noteq> 0 then ret (FAT_IS_DIRECTORY, None)
            else ret (FAT_SUCCESS, Some \<lparr>file_fat = f, file_entry = entry\<rparr>)) t = Some (Inr (open_result f r), u)"
        and u: "only_scratch (read_scratch f) t u" by blast
      have "fat_open int13 f (path_of segs rest) s = Some (Inr (open_result f r), u)"
        unfolding fat_open_def segs first sel
        by (rule bind_run, rule exec_lift_res(1), simp only: prod.case head(1), rule bind_run, rule exec_lift_res(1))
          (simp add: head(2) bind_assoc exec_bind [of "search_root_for_entry _ _ _"] found Some nxt exec_bind [of "lift_res _"] exec_bind [of "ret _"] exec tail)
      with only_scratch_trans [OF t' only_scratch_mono [OF u]] show ?thesis by (auto simp: open_scratch_def)
    qed
  qed
qed

section \<open>Properties\<close>

text \<open>
  C4. \<open>fat_open\<close> resolves absolute paths and terminates: on a working drive with room for its
  buffers, if the path leads to an entry of the volume (through the root directory, fixed on
  FAT12 and FAT16, a chain on FAT32, and then through the chain of each directory, names
  compared as short names), the result is that file, or \<open>FAT_IS_DIRECTORY\<close> for a directory; if a
  segment is in none of the clusters of its directory it is \<open>FAT_FILE_NOT_FOUND\<close>; and all
  buffers are given back.
\<close>

theorem fat_open_resolves:
  fixes int13 :: "'e int13"
  assumes "path_leads f d segs r" and "segs \<noteq> []"
    and "read_ready int13 f d (open_scratch f) s"
    and "fat_type f \<noteq> FAT_TYPE_32 \<longrightarrow> root_fits f"
  shows "\<exists>t. fat_open int13 f (path_of segs rest) s = Some (Inr (open_result f r), t)
    \<and> ext_stack_top t = ext_stack_top s \<and> only_scratch (open_scratch f) s t"
  using fat_open_run [OF assms(1-3), of rest] assms(4) only_scratch_frame(1) by blast

text \<open>A floppy with one file in its root directory.\<close>

definition kernel_entry :: "u8 list" where
  "kernel_entry = map of_char ''KERNEL  ELF'' @ [0x20, 0, 0, 0, 0, 0, 0, 0, 0, 0, 0, 0, 0, 0, 0, 2, 0, 0xBC, 2, 0, 0]"

definition kernel_disk :: disk where
  "kernel_disk l i = (if l = 19 \<and> i < 32 then kernel_entry ! i else 0)"

lemma length_kernel_entry: "length kernel_entry = 32"
  by (simp add: kernel_entry_def)

lemma replicate_num: "replicate (numeral k) x = x # replicate (pred_numeral k) x"
  by (simp add: numeral_eq_Suc)

lemma kernel_found:
  "find_in_dir (root_entries floppy kernel_disk) (map of_char ''kernel.elf'') = Some (decode_dirent kernel_entry)"
proof -
  have nm: "name83 (map of_char ''kernel.elf'') = Some (map of_char ''KERNEL  ELF'')"
    by (simp add: name83_def pad_def toupper_def replicate_num)
  have first: "map (\<lambda>j. disk_at kernel_disk 512 19 (32 * 0 + j)) [0..<32] = kernel_entry"
    by (rule nth_equalityI) (auto simp: length_kernel_entry disk_at_def kernel_disk_def)
  have "entries_of b (Suc n) = decode_dirent (map (\<lambda>j. b (32 * 0 + j)) [0..<32])
      # map (\<lambda>i. decode_dirent (map (\<lambda>j. b (32 * i + j)) [0..<32])) [1..<Suc n]" for b n
    unfolding entries_of_def by (subst upt_conv_Cons) simp_all
  from this [of "disk_at kernel_disk 512 19" 223] have
    "root_entries floppy kernel_disk = decode_dirent kernel_entry
      # map (\<lambda>i. decode_dirent (map (\<lambda>j. disk_at kernel_disk 512 19 (32 * i + j)) [0..<32])) [1..<Suc 223]"
    unfolding first by (simp add: root_entries_def floppy_fields del: upt_Suc)
  moreover have "de_name (decode_dirent kernel_entry) = map of_char ''KERNEL  ELF''"
    "de_attr (decode_dirent kernel_entry) = 0x20"
    by (simp_all add: decode_dirent_def sub_bytes_def kernel_entry_def)
  ultimately show ?thesis
    by (simp add: find_in_dir_def nm [simplified] live_def visible_def fat_attrs del: upt_Suc)
qed

theorem fat_open_resolves_witness:
  "\<exists>t. fat_open (perfect_int13 kernel_disk 512) floppy (lit ''/kernel.elf'') (boot_state (\<lambda>_. 0) ()) =
      Some (Inr (FAT_SUCCESS, Some \<lparr>file_fat = floppy, file_entry = decode_dirent kernel_entry\<rparr>), t)
    \<and> ext_stack_top t = ext_stack_top (boot_state (\<lambda>_. 0) ())"
proof -
  let ?s = "boot_state (\<lambda>_. 0) ()" and ?sg = "map of_char ''kernel.elf'' :: u8 list"
  have P: "cluster_bytes floppy = 512" "root_bytes floppy = 7168"
    by (simp_all add: cluster_bytes_def root_bytes_def floppy_fields)
  have "segment_ok ?sg" by (simp add: segment_ok_def)
  then have leads: "path_leads floppy kernel_disk [?sg] (Some (decode_dirent kernel_entry))"
    using kernel_found by (simp add: path_leads_def floppy_fields walk_end)
  have ready: "read_ready (perfect_int13 kernel_disk 512) floppy kernel_disk (open_scratch floppy) ?s"
    using floppy_ready [of kernel_disk "\<lambda>_. 0" "()"]
    by (simp add: read_ready_def table_ready_def open_scratch_def P floppy_fields boot_state_def memory_map)
  have "open_result floppy (Some (decode_dirent kernel_entry))
      = (FAT_SUCCESS, Some \<lparr>file_fat = floppy, file_entry = decode_dirent kernel_entry\<rparr>)"
    by (simp add: open_result_def decode_dirent_def kernel_entry_def fat_attrs)
  moreover have "path_of [?sg] [] = lit ''/kernel.elf''" by (simp add: lit_def)
  moreover have "root_fits floppy" by (simp add: root_fits_def P floppy_fields)
  ultimately show ?thesis
    using fat_open_resolves [OF leads _ ready, of "[]"] by (auto simp: floppy_fields simp del: path_of.simps)
qed

text \<open>
  C15. On every drive and every volume, however broken, \<open>fat_open\<close> leaves the extended stack as
  it found it whenever it returns, disk errors included; and a path that is not absolute is
  answered with \<open>FAT_FILE_NOT_FOUND\<close> (never \<open>FAT_NOT_ABSOLUTE_PATH\<close>) without reading anything.
\<close>

theorem fat_open_stack_and_relative:
  "(fat_open int13 f path s = Some (Inr r, t) \<longrightarrow> ext_stack_top t = ext_stack_top s)
   \<and> (c \<noteq> slash \<longrightarrow> fat_open int13 f (c # cs) s = Some (Inr (FAT_FILE_NOT_FOUND, None), s))"
proof (intro conjI impI)
  assume "fat_open int13 f path s = Some (Inr r, t)"
  with fat_open_balanced show "ext_stack_top t = ext_stack_top s" by (rule ext_stack.balancedD)
next
  assume "c \<noteq> slash"
  then show "fat_open int13 f (c # cs) s = Some (Inr (FAT_FILE_NOT_FOUND, None), s)"
    by (simp add: fat_open_def get_next_segment_def exec_bind exec)
qed

theorem fat_open_stack_and_relative_witness:
  "fat_open (perfect_int13 kernel_disk 512) floppy (lit ''kernel.elf'') (boot_state (\<lambda>_. 0) ()) =
     Some (Inr (FAT_FILE_NOT_FOUND, None), boot_state (\<lambda>_. 0) ())"
  using fat_open_stack_and_relative [of "perfect_int13 kernel_disk 512" floppy "[]" "boot_state (\<lambda>_. 0) ()" undefined
      undefined "of_char CHR ''k''" "map of_char ''ernel.elf'' @ [0]"]
  by (simp add: lit_def)

text \<open>
  C14. A directory is searched by short name: for every terminated name, the conversion accepts
  exactly the names with a base of at most eight and an extension of at most three
  characters and gives the padded capitals, and the search returns the first entry, before
  the end mark, that is neither deleted nor a label and carries that name.
\<close>

theorem directory_search_by_short_name:
  assumes "0 \<notin> set s"
  shows "(\<exists>out. convert_to_83_filename_with_terminator (s @ 0 # rest) = Inr (name83 s \<noteq> None, out)
      \<and> (\<forall>nm. name83 s = Some nm \<longrightarrow> out = nm @ [0]))
    \<and> search_for_entry m a n (s @ 0 # rest) = Inr (find_in_dir (map (dirent_at m a) [0..<unat n]) s)"
  using convert_name83 [OF assms] search_for_entry_find [OF assms] by blast

theorem directory_search_by_short_name_witness:
  "\<exists>out. convert_to_83_filename_with_terminator (lit ''a.txt'') = Inr (True, out)
    \<and> out = map of_char ''A       TXT'' @ [0]"
proof -
  have "name83 (map of_char ''a.txt'') = Some (map of_char ''A       TXT'')"
    by (simp add: name83_def pad_def toupper_def replicate_num)
  then show ?thesis
    using directory_search_by_short_name [of "map of_char ''a.txt''" "[]" "\<lambda>_. 0" 0 0] by (auto simp: lit_def)
qed

end
