(* ===== verification/Fat_Read.thy ===== *)
theory Fat_Read
  imports Fat_Dir
begin

text \<open>
  \<open>fat_read\<close> of \<^verbatim>\<open>stage1/fat.c\<close>: the numbers of a round of its loop, one round, the whole read.
  What a read leaves in the destination is stated for every first round, also one whose bytes
  straddle a sector more than it fetches; that such a read is wrong and that every other
  delivers the bytes of the file are two theorems over the same lemma.
\<close>

section \<open>fat_read\<close>

text \<open>The \<open>for\<close> loop that skips whole clusters; \<^term>\<open>None\<close> is its early return.\<close>

fun skip_clusters :: "'e int13 \<Rightarrow> fat_t \<Rightarrow> nat \<Rightarrow> u32 \<Rightarrow> ('e machine, u32 option) cmd" where
  "skip_clusters int13 fat 0 cluster = ret (Some cluster)"
| "skip_clusters int13 fat (Suc n) cluster =
     bind (fat_next_not_bad int13 fat cluster) (\<lambda>(cluster_result, cluster).
       if cluster_result \<noteq> FAT_CLUSTER_VALID then ret None
       else skip_clusters int13 fat n cluster)"

text \<open>One round of the reading loop, on \<open>offset\<close>, \<open>length\<close> (\<open>len\<close> here), \<open>buffer\<close> and \<open>current_cluster\<close>.\<close>

definition read_round ::
  "'e int13 \<Rightarrow> fat_t \<Rightarrow> u32 \<times> u32 \<times> u32 \<times> u32 \<Rightarrow>
   ('e machine, (u32 \<times> u32 \<times> u32 \<times> u32) + fat_result_t) cmd"
where
  "read_round int13 fat = (\<lambda>(offset, len, buffer, current_cluster).
     if len = 0 then ret (Inr FAT_SUCCESS)
     else
       let bps = ucast (bytes_per_sector (fat_bpb fat)) :: u32;
           bytes_per_cluster = ucast (sectors_per_cluster (fat_bpb fat)) * bps;
           offset_in_cluster = offset mod bytes_per_cluster;
           sector_offset = offset_in_cluster div bps;
           length_to_read = min_u32 (len + offset_in_cluster) bytes_per_cluster - offset_in_cluster;
           sectors_to_read = ucast ((length_to_read + bps - 1) div bps) :: u16;
           byte_offset = offset mod bps;
           use_temp_buffer = byte_offset \<noteq> 0 \<or> length_to_read mod bps \<noteq> 0
             \<or> buffer + length_to_read > REAL_MODE_LIMIT in
       bind (lift_res (mul_u16 sectors_to_read (bytes_per_sector (fat_bpb fat)))) (\<lambda>buffer_size.
       bind (if use_temp_buffer then push buffer_size else ret buffer) (\<lambda>temp_buffer.
       bind (disk_read int13 (drive_number fat)
              (ucast (cluster_to_lba fat current_cluster + sector_offset)) temp_buffer sectors_to_read) (\<lambda>status.
       if status \<noteq> DISK_SUCCESS then bind (pop buffer_size) (\<lambda>_. ret (Inr FAT_DISK_ERROR))
       else
         bind (if use_temp_buffer then bind (memcpy buffer (temp_buffer + byte_offset) length_to_read) (\<lambda>_. ret ())
               else ret ()) (\<lambda>_.
         let buffer = buffer + length_to_read; len = len - length_to_read in
         bind (if len \<noteq> 0 then fat_next_not_bad int13 fat current_cluster
               else ret (FAT_CLUSTER_VALID, current_cluster)) (\<lambda>(cluster_result, current_cluster).
         if cluster_result \<noteq> FAT_CLUSTER_VALID then
           bind (pop buffer_size) (\<lambda>_. ret (Inr FAT_OUT_OF_FILE_BOUNDS))
         else
           bind (if use_temp_buffer then pop buffer_size else ret ()) (\<lambda>_.
           ret (Inl (0, len, buffer, current_cluster)))))))))"

definition fat_read ::
  "'e int13 \<Rightarrow> fat_file_t \<Rightarrow> u32 \<Rightarrow> u32 \<Rightarrow> u32 \<Rightarrow> ('e machine, fat_result_t) cmd"
where
  "fat_read int13 file offset len buffer =
     (let fat = file_fat file;
          bytes_per_cluster =
            ucast (sectors_per_cluster (fat_bpb fat)) * ucast (bytes_per_sector (fat_bpb fat)) :: u32 in
      if bytes_per_cluster = 0 then halt (Undef Div_By_Zero)
      else
        let cluster_offset = offset div bytes_per_cluster in
        bind (skip_clusters int13 fat (unat cluster_offset) (dirent_cluster (file_entry file))) (\<lambda>start.
        case start of
          None \<Rightarrow> ret FAT_OUT_OF_FILE_BOUNDS
        | Some start_cluster \<Rightarrow>
            iterate (read_round int13 fat) (offset, len, buffer, start_cluster)))"

section \<open>The numbers of a round\<close>

text \<open>How much a round at \<open>offset\<close> takes of the \<open>n\<close> bytes still to read, and in how many sectors.\<close>

definition round_length :: "fat_t \<Rightarrow> nat \<Rightarrow> nat \<Rightarrow> nat" where
  "round_length f offset n = min (n + offset mod cluster_bytes f) (cluster_bytes f) - offset mod cluster_bytes f"

definition round_sectors :: "fat_t \<Rightarrow> nat \<Rightarrow> nat \<Rightarrow> nat" where
  "round_sectors f offset n =
     (round_length f offset n + unat (bytes_per_sector (fat_bpb f)) - 1) div unat (bytes_per_sector (fat_bpb f))"

lemma round_length_props:
  assumes "sound_volume f" and "0 < n"
  shows "0 < round_length f off n" "round_length f off n \<le> n"
    "off mod cluster_bytes f + round_length f off n \<le> cluster_bytes f"
    "round_length f off n < n \<Longrightarrow> off mod cluster_bytes f + round_length f off n = cluster_bytes f"
proof -
  have "off mod cluster_bytes f < cluster_bytes f"
    using sound_volume_pos(3) [OF assms(1)] by simp
  then show "0 < round_length f off n" "round_length f off n \<le> n"
    "off mod cluster_bytes f + round_length f off n \<le> cluster_bytes f"
    "round_length f off n < n \<Longrightarrow> off mod cluster_bytes f + round_length f off n = cluster_bytes f"
    using assms(2) by (auto simp: round_length_def)
qed

lemma ceil_div:
  fixes l n k :: nat
  assumes "0 < n"
  shows "l \<le> (l + n - 1) div n * n" and "l \<le> k * n \<Longrightarrow> (l + n - 1) div n \<le> k"
    and "l mod n = 0 \<Longrightarrow> (l + n - 1) div n * n = l"
proof -
  have "l + n - 1 = (l + n - 1) div n * n + (l + n - 1) mod n" by simp
  moreover have "(l + n - 1) mod n < n" using assms by simp
  ultimately show le: "l \<le> (l + n - 1) div n * n" by linarith
  show k: "(l + n - 1) div n \<le> k" if "l \<le> k * n" for k
  proof -
    have "l + n - 1 < (k + 1) * n" using that assms by simp
    then show ?thesis by (simp add: div_less_iff_less_mult assms flip: less_Suc_eq_le)
  qed
  show "(l + n - 1) div n * n = l" if "l mod n = 0"
  proof -
    have "(l + n - 1) div n \<le> l div n" using that by (intro k) (simp add: mod_0_imp_dvd)
    then have "(l + n - 1) div n * n \<le> l" using that by (metis div_mult_mod_eq add_0_right mult_le_mono1)
    with le show ?thesis by simp
  qed
qed

lemma round_sectors_props:
  assumes "sound_volume f" and "0 < n"
  shows "round_length f off n \<le> round_sectors f off n * unat (bytes_per_sector (fat_bpb f))"
    "round_sectors f off n \<le> unat (sectors_per_cluster (fat_bpb f))"
    "round_sectors f off n * unat (bytes_per_sector (fat_bpb f)) \<le> cluster_bytes f"
    "round_length f off n mod unat (bytes_per_sector (fat_bpb f)) = 0 \<Longrightarrow>
     round_sectors f off n * unat (bytes_per_sector (fat_bpb f)) = round_length f off n"
proof -
  let ?n = "unat (bytes_per_sector (fat_bpb f))"
  have n: "0 < ?n" using sound_volume_pos(1) [OF assms(1)] by simp
  show "round_length f off n \<le> round_sectors f off n * ?n"
    "round_length f off n mod ?n = 0 \<Longrightarrow> round_sectors f off n * ?n = round_length f off n"
    unfolding round_sectors_def by (rule ceil_div(1,3) [OF n])+
  have "round_length f off n \<le> cluster_bytes f" using round_length_props(3) [OF assms, of off] by simp
  then show k: "round_sectors f off n \<le> unat (sectors_per_cluster (fat_bpb f))"
    unfolding round_sectors_def by (intro ceil_div(2) [OF n]) (simp add: cluster_bytes_def)
  then show "round_sectors f off n * ?n \<le> cluster_bytes f" by (simp add: cluster_bytes_def)
qed

text \<open>The words the code computes are these numbers.\<close>

lemma round_words:
  fixes off len :: u32
  assumes vol: "sound_volume f" and pos: "len \<noteq> 0" and small: "unat len + cluster_bytes f < 2 ^ 32"
  defines "bps \<equiv> ucast (bytes_per_sector (fat_bpb f)) :: u32"
  defines "bpc \<equiv> ucast (sectors_per_cluster (fat_bpb f)) * bps"
  defines "ltr \<equiv> min_u32 (len + off mod bpc) bpc - off mod bpc"
  shows "unat (off mod bpc) = unat off mod cluster_bytes f"
    and "unat (off mod bpc div bps) = unat off mod cluster_bytes f div unat (bytes_per_sector (fat_bpb f))"
    and "unat ltr = round_length f (unat off) (unat len)"
    and "unat (ucast ((ltr + bps - 1) div bps) :: u16) = round_sectors f (unat off) (unat len)"
    and "unat (off mod bps) = unat off mod unat (bytes_per_sector (fat_bpb f))"
    and "unat (ltr mod bps) = round_length f (unat off) (unat len) mod unat (bytes_per_sector (fat_bpb f))"
proof -
  let ?n = "unat (bytes_per_sector (fat_bpb f))" and ?l = "round_length f (unat off) (unat len)"
  have P: "unat bpc = cluster_bytes f" unfolding bpc_def bps_def by (rule unat_cluster_bytes)
  have n: "unat bps = ?n" by (simp add: bps_def)
  show o: "unat (off mod bpc) = unat off mod cluster_bytes f" by (simp add: unat_mod P)
  show "unat (off mod bpc div bps) = unat off mod cluster_bytes f div ?n" by (simp add: unat_div o n)
  show "unat (off mod bps) = unat off mod ?n" by (simp add: unat_mod n)
  have lt: "unat off mod cluster_bytes f < cluster_bytes f" using sound_volume_pos(3) [OF vol] by simp
  have sum: "unat (len + off mod bpc) = unat len + unat off mod cluster_bytes f"
    using small lt by (simp add: unat_word_ariths(1) o)
  have "off mod bpc \<le> min_u32 (len + off mod bpc) bpc"
    unfolding word_le_nat_alt by (simp add: sum o P less_imp_le lt)
  then show l: "unat ltr = ?l"
    unfolding ltr_def by (simp add: unat_sub sum o P round_length_def)
  have lP: "?l \<le> cluster_bytes f"
    using round_length_props(3) [OF vol, of "unat len" "unat off"] pos by (simp add: unat_gt_0)
  have n1: "512 \<le> ?n" "?n < 65536" using sound_volume_pos(1) [OF vol] u16_bound by auto
  have "unat (ltr + bps - 1) = ?l + ?n - 1"
  proof -
    have a: "unat (ltr + bps) = ?l + ?n"
      using lP sound_volume_pos(4) [OF vol] n1 by (simp add: unat_word_ariths l n)
    then have "1 \<le> ltr + bps" using n1 by (simp add: word_le_nat_alt)
    then show ?thesis by (simp add: unat_sub a)
  qed
  then have d: "unat ((ltr + bps - 1) div bps) = round_sectors f (unat off) (unat len)"
    by (simp add: unat_div n round_sectors_def)
  have "round_sectors f (unat off) (unat len) < 256"
    using round_sectors_props(2) [OF vol, of "unat len" "unat off"] pos
      u8_bound [of "sectors_per_cluster (fat_bpb f)"] by (simp add: unat_gt_0)
  then show "unat (ucast ((ltr + bps - 1) div bps) :: u16) = round_sectors f (unat off) (unat len)"
    by (simp add: unsigned_ucast_eq take_bit_nat_eq_self d)
  show "unat (ltr mod bps) = ?l mod ?n" by (simp add: unat_mod l n)
qed

section \<open>One round\<close>

text \<open>
  The buffer of a round holds its sectors. What a round copies from beyond its end comes from the
  memory above the top of the extended stack, unless the destination lies there itself.
\<close>

lemma copied_apart:
  fixes b bs bo len top :: u32
  assumes room: "0x40000 + unat bs \<le> unat top" and top: "unat top \<le> 0x80000" and small: "unat bo + unat len < 2 ^ 31"
    and b: "unat b + unat len \<le> 2 ^ 32" and above: "unat b + unat len \<le> 0x40000 \<or> unat top + (unat bo + unat len - unat bs) \<le> unat b"
  shows "separate (top - bs + bo) b (unat len)"
  unfolding separate_def
proof (intro allI impI)
  fix i j assume ij: "i < unat len" "j < unat len"
  have "unat (top - bs) = unat top - unat bs" using room by (simp add: unat_sub word_le_nat_alt)
  then have "unat (top - bs + of_nat (unat bo + i)) = unat top - unat bs + (unat bo + i)"
    using ij(1) small top by (subst unat_add_of_nat [of _ "unat bo + unat len"]) simp_all
  then have "unat (top - bs + bo + of_nat i) = unat top - unat bs + (unat bo + i)" by (simp add: add.assoc)
  moreover have "unat b + j \<noteq> unat top - unat bs + (unat bo + i)" using above room ij by linarith
  ultimately have "unat (top - bs + bo + of_nat i) \<noteq> unat (b + of_nat j)"
    using unat_add_of_nat [OF b ij(2)] by simp
  then show "top - bs + bo + of_nat i \<noteq> b + of_nat j" by metis
qed

lemma fetch_temp:
  fixes int13 :: "'e int13" and b bs bo len :: u32 and cnt :: u16
  assumes ready: "read_ready int13 f d (unat bs) s"
    and bs: "unat bs = unat cnt * unat (bytes_per_sector (fat_bpb f))"
    and small: "unat bo + unat len < 2 ^ 31" and clear: "clear_of_stack b (unat len) s"
    and above: "unat b + unat len \<le> 0x40000 \<or> unat (ext_stack_top s) + (unat bo + unat len - unat bs) \<le> unat b"
  shows "\<exists>t1 t2. push bs s = Some (Inr (ext_stack_top s - bs), s\<lparr>ext_stack_top := ext_stack_top s - bs\<rparr>)
    \<and> disk_read int13 (drive_number f) (of_nat (sec + q)) (ext_stack_top s - bs) cnt
        (s\<lparr>ext_stack_top := ext_stack_top s - bs\<rparr>) = Some (Inr DISK_SUCCESS, t1)
    \<and> memcpy b (ext_stack_top s - bs + bo) len t1 = Some (Inr b, t2)
    \<and> unat (ext_stack_top t2) + unat bs = unat (ext_stack_top s)
    \<and> filled b (unat len) (\<lambda>i. if unat bo + i < unat bs then disk_at d (unat (bytes_per_sector (fat_bpb f))) sec
          (q * unat (bytes_per_sector (fat_bpb f)) + unat bo + i) else mem s (ext_stack_top s + of_nat (unat bo + i - unat bs))) (unat bs) s (t2\<lparr>ext_stack_top := ext_stack_top s\<rparr>)"
proof -
  let ?n = "unat (bytes_per_sector (fat_bpb f))" and ?top = "unat (ext_stack_top s)"
  let ?tb = "ext_stack_top s - bs"
  let ?s1 = "s\<lparr>ext_stack_top := ?tb\<rparr>"
  have st: "ext_stack_ok s" and room: "0x40000 + unat bs \<le> ?top" and n: "0 < ?n"
    using ready sound_volume_pos(1) [of f] by (auto simp: read_ready_def)
  have er: "ext_room bs s" using ext_room_unat [OF st] room by simp
  have tb: "unat ?tb = ?top - unat bs" using room by (simp add: unat_sub word_le_nat_alt)
  have top: "?top \<le> 0x80000" using st by (simp add: ext_stack_ok_def memory_map word_le_nat_alt)
  have low: "\<not> ?tb > REAL_MODE_LIMIT"
    using top by (simp add: REAL_MODE_LIMIT_val word_less_nat_alt tb)
  have ready1: "read_ready int13 f d 0 ?s1"
    using ready push_keeps_ok [OF st er] room by (simp add: read_ready_def tb)
  have clear1: "clear_of_stack ?tb (unat cnt * ?n) ?s1"
    using bs room top by (simp add: clear_of_stack_def tb)
  obtain t1 where run1: "disk_read int13 (drive_number f) (of_nat (sec + q)) ?tb cnt ?s1 = Some (Inr DISK_SUCCESS, t1)"
    and f1: "filled ?tb (unat bs) (\<lambda>i. disk_at d ?n sec (q * ?n + i)) 0 ?s1 t1"
    using fetch_direct [OF ready1 low clear1, of sec q] bs by auto
  from f1 obtain e m where t1: "t1 = ?s1\<lparr>bios_env := e, mem := m\<rparr>"
    and m: "\<And>i. i < unat bs \<Longrightarrow> m (?tb + of_nat i) = disk_at d ?n sec (q * ?n + i)"
    and fm: "\<And>x. \<not> in_range ?tb (unat bs) x \<Longrightarrow> m x = mem s x"
    unfolding filled_def by auto
  have b: "unat b + unat len \<le> 2 ^ 32" using clear by (simp add: clear_of_stack_def)
  have sep: "separate (?tb + bo) b (unat len)" by (rule copied_apart [OF room top small b above])
  let ?m = "blit b (unat len) (\<lambda>i. m (?tb + bo + of_nat i)) m"
  let ?t2 = "?s1\<lparr>bios_env := e, mem := ?m\<rparr>"
  have run2: "memcpy b (?tb + bo) len t1 = Some (Inr b, ?t2)"
    by (simp add: memcpy_def exec_bind exec t1 memcpy_mem_blit [OF sep])
  have data: "?m (b + of_nat i) = (if unat bo + i < unat bs then disk_at d ?n sec (q * ?n + unat bo + i)
      else mem s (ext_stack_top s + of_nat (unat bo + i - unat bs)))" if i: "i < unat len" for i
  proof -
    let ?x = "?tb + of_nat (unat bo + i)"
    have copied: "?m (b + of_nat i) = m ?x" using i b by (simp add: blit_nth add.assoc)
    show ?thesis
    proof (cases "unat bo + i < unat bs")
      case True
      with copied m [OF True] show ?thesis by (simp add: add.assoc)
    next
      case False
      have "unat ?x = unat ?tb + (unat bo + i)"
        using i small top tb by (intro unat_add_of_nat [of _ "unat bo + unat len"]) simp_all
      moreover have "unat ?tb + unat bs \<le> 2 ^ 32" using room top by (simp add: tb)
      ultimately have "\<not> in_range ?tb (unat bs) ?x" using False in_range_nat [of ?tb "unat bs" ?x] by linarith
      with copied fm have "?m (b + of_nat i) = mem s ?x" by simp
      moreover have "?x = ext_stack_top s + of_nat (unat bo + i - unat bs)" using False by (simp add: of_nat_diff algebra_simps)
      ultimately show ?thesis using False by (simp only: if_False)
    qed
  qed
  have frame: "?m x = mem s x"
    if "\<not> in_range b (unat len) x" and "\<not> (unat x < ?top \<and> ?top \<le> unat x + unat bs)" for x
  proof -
    have "\<not> in_range ?tb (unat bs) x"
      using that(2) room in_range_below [of bs "ext_stack_top s" "unat bs" x] by auto
    with that(1) show ?thesis by (simp add: blit_out fm)
  qed
  have "?t2\<lparr>ext_stack_top := ext_stack_top s\<rparr> = s\<lparr>bios_env := e, mem := ?m\<rparr>" by simp
  with data frame have "filled b (unat len) (\<lambda>i. if unat bo + i < unat bs then disk_at d ?n sec (q * ?n + unat bo + i)
      else mem s (ext_stack_top s + of_nat (unat bo + i - unat bs))) (unat bs) s
      (?t2\<lparr>ext_stack_top := ext_stack_top s\<rparr>)"
    unfolding filled_def by blast
  moreover have "unat (ext_stack_top ?t2) + unat bs = ?top" using tb room by simp
  ultimately show ?thesis using push_run [OF er] run1 run2 by blast
qed

text \<open>The round does not straddle: its sectors hold the bytes before the offset too.\<close>

definition round_fits :: "fat_t \<Rightarrow> nat \<Rightarrow> nat \<Rightarrow> bool" where
  "round_fits f offset n \<longleftrightarrow>
     offset mod unat (bytes_per_sector (fat_bpb f)) + round_length f offset n
       \<le> round_sectors f offset n * unat (bytes_per_sector (fat_bpb f))"

lemma round_fits_aligned:
  "sound_volume f \<Longrightarrow> 0 < n \<Longrightarrow> offset mod unat (bytes_per_sector (fat_bpb f)) = 0 \<Longrightarrow> round_fits f offset n"
  using round_sectors_props(1) by (simp add: round_fits_def)

text \<open>
  A round that straddles: its last bytes lie behind its sectors, \<open>stray\<close> bytes above the stack
  top. \<open>delivered\<close> is what a round copies instead of the bytes it should.
\<close>

definition past_sectors :: "fat_t \<Rightarrow> nat \<Rightarrow> nat \<Rightarrow> nat \<Rightarrow> bool" where
  "past_sectors f offset n i \<longleftrightarrow> i < round_length f offset n
     \<and> round_sectors f offset n * unat (bytes_per_sector (fat_bpb f)) \<le> offset mod unat (bytes_per_sector (fat_bpb f)) + i"

definition stray :: "fat_t \<Rightarrow> nat \<Rightarrow> nat \<Rightarrow> nat \<Rightarrow> nat" where
  "stray f offset n i = offset mod unat (bytes_per_sector (fat_bpb f)) + i
     - round_sectors f offset n * unat (bytes_per_sector (fat_bpb f))"

definition delivered :: "fat_t \<Rightarrow> 'e machine \<Rightarrow> nat \<Rightarrow> nat \<Rightarrow> (nat \<Rightarrow> u8) \<Rightarrow> nat \<Rightarrow> u8" where
  "delivered f s offset n want i =
     (if past_sectors f offset n i then mem s (ext_stack_top s + of_nat (stray f offset n i)) else want i)"

definition clear_above :: "fat_t \<Rightarrow> nat \<Rightarrow> nat \<Rightarrow> u32 \<Rightarrow> 'e machine \<Rightarrow> bool" where
  "clear_above f offset n b s \<longleftrightarrow> unat b + round_length f offset n \<le> 0x40000
     \<or> unat (ext_stack_top s) + stray f offset n (round_length f offset n) \<le> unat b"

lemma round_fits_inside:
  assumes "round_fits f offset n"
  shows "\<not> past_sectors f offset n i" "stray f offset n (round_length f offset n) = 0"
  using assms by (simp_all add: round_fits_def past_sectors_def stray_def)

lemma delivered_fits: "round_fits f offset n \<Longrightarrow> delivered f s offset n want = want"
  by (simp add: fun_eq_iff delivered_def round_fits_inside)

lemma clear_above_fits:
  assumes "round_fits f offset n" and "clear_of_stack b n s" and "round_length f offset n \<le> n"
  shows "clear_above f offset n b s"
  using assms(2,3) by (auto simp: clear_above_def round_fits_inside(2) [OF assms(1)] clear_of_stack_def)

text \<open>At most one sector less a byte is taken from above the stack.\<close>

lemma stray_bound:
  assumes "sound_volume f" and "0 < n" and "i \<le> round_length f offset n"
  shows "stray f offset n i < unat (bytes_per_sector (fat_bpb f))"
proof -
  have "offset mod unat (bytes_per_sector (fat_bpb f)) < unat (bytes_per_sector (fat_bpb f))"
    using sound_volume_pos(1) [OF assms(1)] by simp
  with round_sectors_props(1) [OF assms(1,2), of offset] assms(3) show ?thesis by (auto simp: stray_def)
qed

lemma filled_cong: "(\<And>i. i < n \<Longrightarrow> g i = h i) \<Longrightarrow> filled b n g k s t = filled b n h k s t"
  by (simp add: filled_def)

text \<open>The three steps of a round: the bytes through a buffer or straight, the next cluster, the buffer given back.\<close>

lemma round_fetch:
  fixes int13 :: "'e int13" and b bs bo ltr :: u32 and cnt :: u16
  defines "n f \<equiv> unat (bytes_per_sector (fat_bpb f))"
  assumes ready: "read_ready int13 f d (unat bs) s" and bs: "unat bs = unat cnt * n f"
    and small: "unat bo + unat ltr < 2 ^ 31"
    and above: "unat b + unat ltr \<le> 0x40000 \<or> unat (ext_stack_top s) + (unat bo + unat ltr - unat bs) \<le> unat b"
    and direct: "\<not> tmp \<Longrightarrow> unat bo = 0 \<and> unat cnt * n f = unat ltr \<and> \<not> b > REAL_MODE_LIMIT"
    and clear: "clear_of_stack b (unat ltr) s"
  shows "\<exists>tb s1 s2 s3. (if tmp then push bs else ret b) s = Some (Inr tb, s1)
    \<and> disk_read int13 (drive_number f) (of_nat (sec + q)) tb cnt s1 = Some (Inr DISK_SUCCESS, s2)
    \<and> (if tmp then bind (memcpy b (tb + bo) ltr) (\<lambda>_. ret ()) else ret ()) s2 = Some (Inr (), s3)
    \<and> unat (ext_stack_top s3) + (if tmp then unat bs else 0) = unat (ext_stack_top s)
    \<and> filled b (unat ltr) (\<lambda>i. if unat bo + i < unat bs then disk_at d (n f) sec (q * n f + unat bo + i)
          else mem s (ext_stack_top s + of_nat (unat bo + i - unat bs))) (if tmp then unat bs else 0) s
        (s3\<lparr>ext_stack_top := ext_stack_top s\<rparr>)"
proof (cases tmp)
  case True
  from fetch_temp [OF ready bs [unfolded n_def] small clear above, of sec q] True show ?thesis
    unfolding n_def by (auto simp: exec_bind exec)
next
  case False
  have r: "read_ready int13 f d 0 s" using ready by (simp add: read_ready_def)
  from fetch_direct [OF r, of b cnt sec q] direct [OF False] clear obtain s2 where
    run: "disk_read int13 (drive_number f) (of_nat (sec + q)) b cnt s = Some (Inr DISK_SUCCESS, s2)"
    and fl: "filled b (unat ltr) (\<lambda>i. disk_at d (n f) sec (q * n f + unat bo + i)) 0 s s2"
    by (auto simp: n_def)
  have "s2\<lparr>ext_stack_top := ext_stack_top s\<rparr> = s2" using filled_frame(1) [OF fl] by simp
  then have "filled b (unat ltr) (\<lambda>i. if unat bo + i < unat bs then disk_at d (n f) sec (q * n f + unat bo + i)
      else mem s (ext_stack_top s + of_nat (unat bo + i - unat bs))) 0 s (s2\<lparr>ext_stack_top := ext_stack_top s\<rparr>)"
    using fl direct [OF False] bs by (subst filled_cong) simp_all
  with False run filled_frame(1) [OF fl] show ?thesis by (simp add: exec)
qed

lemma round_next:
  fixes int13 :: "'e int13" and len ltr c :: u32
  assumes "table_ready int13 f d s" and "unat c < 2 ^ 28" and "unat ltr \<le> unat len"
    and "unat ltr < unat len \<longrightarrow> next_cluster f d (unat c) = Some v"
  shows "\<exists>t. (if len - ltr \<noteq> 0 then fat_next_not_bad int13 f c else ret (FAT_CLUSTER_VALID, c)) s
      = Some (Inr (FAT_CLUSTER_VALID, if unat ltr < unat len then of_nat v else c), t)
    \<and> only_scratch (table_scratch f) s t"
proof -
  have left: "unat (len - ltr) = unat len - unat ltr" using assms(3) by (simp add: unat_sub word_le_nat_alt)
  show ?thesis
  proof (cases "unat ltr < unat len")
    case True
    then have "len - ltr \<noteq> 0" using left by (metis unsigned_0 zero_less_diff less_irrefl)
    then show ?thesis using fat_next_not_bad_next [OF assms(1,2)] assms(4) True by simp
  next
    case False
    then have "unat (len - ltr) = 0" using left by simp
    then have "len - ltr = 0" by (simp add: unsigned_eq_0_iff)
    with False show ?thesis by (auto simp: exec)
  qed
qed

lemma round_release:
  fixes t :: "'e machine"
  assumes "ext_stack_ok s" and "0x40000 + unat bs \<le> unat (ext_stack_top s)"
    and top: "unat (ext_stack_top t) + (if tmp then unat bs else 0) = unat (ext_stack_top s)"
  shows "(if tmp then pop bs else ret ()) t = Some (Inr (), t\<lparr>ext_stack_top := ext_stack_top s\<rparr>)"
proof (cases tmp)
  case True
  have "ext_room bs s" using ext_room_unat [OF assms(1)] assms(2) by simp
  moreover have "ext_stack_top t = ext_stack_top s - bs"
    using top True by (simp add: word_unat_eq_iff unat_sub word_le_nat_alt)
  ultimately show ?thesis using pop_after_push [OF assms(1)] True by simp
next
  case False
  then have "ext_stack_top t = ext_stack_top s" using top by (simp add: word_unat_eq_iff)
  with False show ?thesis by (cases t) (simp add: exec)
qed

text \<open>The arguments of these steps in numbers.\<close>

lemma round_arguments:
  fixes off len b c :: u32
  assumes vol: "sound_volume f" and pos: "len \<noteq> 0" and small: "unat len + cluster_bytes f < 2 ^ 32"
    and fitc: "cluster_fits f (unat c)" and nowrap: "unat b + round_length f (unat off) (unat len) < 2 ^ 32"
  defines "n \<equiv> unat (bytes_per_sector (fat_bpb f))"
  defines "o1 \<equiv> unat off mod cluster_bytes f"
  defines "bps \<equiv> ucast (bytes_per_sector (fat_bpb f)) :: u32"
  defines "bpc \<equiv> ucast (sectors_per_cluster (fat_bpb f)) * bps"
  defines "ltr \<equiv> min_u32 (len + off mod bpc) bpc - off mod bpc"
  defines "cnt \<equiv> ucast ((ltr + bps - 1) div bps) :: u16"
  defines "bs \<equiv> ucast cnt * bps"
  shows "unat ltr = round_length f (unat off) (unat len)" "0 < unat ltr" "unat ltr \<le> unat len"
    and "mul_u16 cnt (bytes_per_sector (fat_bpb f)) = Inr bs" "unat bs = unat cnt * n" "unat bs \<le> cluster_bytes f"
    and "ucast (cluster_to_lba f c + off mod bpc div bps) = (of_nat (cluster_sector f (unat c) + o1 div n) :: u64)"
    and "o1 div n * n + unat (off mod bps) = o1" "unat (off mod bps) = unat off mod n"
    and "unat bs = round_sectors f (unat off) (unat len) * n"
    and "\<not> (off mod bps \<noteq> 0 \<or> ltr mod bps \<noteq> 0 \<or> b + ltr > REAL_MODE_LIMIT) \<Longrightarrow>
      unat (off mod bps) = 0 \<and> unat cnt * n = unat ltr \<and> \<not> b > REAL_MODE_LIMIT"
proof -
  have len: "0 < unat len" using pos by (simp add: unat_gt_0)
  note words = round_words [OF vol pos small, of off, folded bps_def, folded bpc_def, folded ltr_def,
      folded cnt_def n_def o1_def]
  have n: "0 < n" using sound_volume_pos(1) [OF vol] by (simp add: n_def)
  show l: "unat ltr = round_length f (unat off) (unat len)" by (rule words(3))
  show "0 < unat ltr" "unat ltr \<le> unat len" unfolding l by (rule round_length_props(1,2) [OF vol len])+
  have cnt_n: "unat cnt * n \<le> cluster_bytes f" and cnt_l: "unat ltr mod n = 0 \<Longrightarrow> unat cnt * n = unat ltr"
    using round_sectors_props(3,4) [OF vol len, of "unat off"] words(4) by (simp_all add: l n_def)
  show "mul_u16 cnt (bytes_per_sector (fat_bpb f)) = Inr bs" and bs: "unat bs = unat cnt * n"
    using unat_mul_u16 [of cnt "bytes_per_sector (fat_bpb f)"] cnt_n sound_volume_pos(4) [OF vol]
    by (simp_all add: bs_def bps_def n_def)
  then show "unat bs \<le> cluster_bytes f" using cnt_n by simp
  have "unat off mod n = o1 mod n"
    using sound_volume_pos(5) [OF vol] by (simp add: o1_def n_def mod_mod_cancel)
  then show "o1 div n * n + unat (off mod bps) = o1" by (simp add: words(5))
  have "o1 div n < unat (sectors_per_cluster (fat_bpb f))"
    using sound_volume_pos(3) [OF vol] n by (simp add: o1_def n_def cluster_bytes_def div_less_iff_less_mult)
  then have "unat (cluster_to_lba f c + off mod bpc div bps) = cluster_sector f (unat c) + o1 div n"
    using fitc by (simp add: unat_word_ariths(1) unat_cluster_to_lba [OF vol fitc] words(2) cluster_fits_def)
  then show "ucast (cluster_to_lba f c + off mod bpc div bps) = (of_nat (cluster_sector f (unat c) + o1 div n) :: u64)"
    by (metis unat_ucast_32_64 of_nat_unat_id)
  show "unat (off mod bps) = unat off mod n" by (rule words(5))
  show "unat bs = round_sectors f (unat off) (unat len) * n" by (simp add: bs words(4))
  assume "\<not> (off mod bps \<noteq> 0 \<or> ltr mod bps \<noteq> 0 \<or> b + ltr > REAL_MODE_LIMIT)"
  then have al: "off mod bps = 0" "ltr mod bps = 0" and lim: "\<not> b + ltr > REAL_MODE_LIMIT" by simp_all
  have "unat (b + ltr) = unat b + unat ltr" using nowrap by (simp add: unat_word_ariths(1) l)
  with lim have "\<not> b > REAL_MODE_LIMIT" by (simp add: word_less_nat_alt)
  then show "unat (off mod bps) = 0 \<and> unat cnt * n = unat ltr \<and> \<not> b > REAL_MODE_LIMIT"
    using al words(6) cnt_l by (simp add: l)
qed

lemma round_small:
  fixes off len bo ltr :: u32
  assumes vol: "sound_volume f" and pos: "len \<noteq> 0" and l: "unat ltr = round_length f (unat off) (unat len)"
    and bo: "unat bo = unat off mod unat (bytes_per_sector (fat_bpb f))"
  shows "unat bo + unat ltr < 2 ^ 31"
proof -
  have "unat ltr \<le> cluster_bytes f"
    using round_length_props(3) [OF vol, of "unat len" "unat off"] pos by (simp add: l unat_gt_0)
  moreover have "unat bo < unat (bytes_per_sector (fat_bpb f))"
    unfolding bo using sound_volume_pos(1) [OF vol] by (intro mod_less_divisor) simp
  ultimately show ?thesis
    using sound_volume_pos(4) [OF vol] u16_bound [of "bytes_per_sector (fat_bpb f)"] by simp
qed

lemma round_run:
  fixes int13 :: "'e int13" and off len b c :: u32
  assumes ready: "read_ready int13 f d (cluster_bytes f + table_scratch f) s"
    and pos: "len \<noteq> 0" and small: "unat len + cluster_bytes f < 2 ^ 32"
    and fitc: "cluster_fits f (unat c)" and c: "unat c < 2 ^ 28"
    and clear: "clear_of_stack b (round_length f (unat off) (unat len)) s"
    and above: "clear_above f (unat off) (unat len) b s"
    and nowrap: "unat b + round_length f (unat off) (unat len) < 2 ^ 32"
    and more: "round_length f (unat off) (unat len) < unat len \<longrightarrow> next_cluster f d (unat c) = Some v"
  shows "\<exists>t. read_round int13 f (off, len, b, c) s = Some (Inr (Inl (0,
        len - of_nat (round_length f (unat off) (unat len)), b + of_nat (round_length f (unat off) (unat len)),
        if round_length f (unat off) (unat len) < unat len then of_nat v else c)), t)
    \<and> filled b (round_length f (unat off) (unat len)) (delivered f s (unat off) (unat len)
        (\<lambda>i. disk_at d (unat (bytes_per_sector (fat_bpb f))) (cluster_sector f (unat c)) (unat off mod cluster_bytes f + i)))
        (cluster_bytes f + table_scratch f) s t"
proof -
  define n where "n = unat (bytes_per_sector (fat_bpb f))"
  define o1 where "o1 = unat off mod cluster_bytes f"
  define sec where "sec = cluster_sector f (unat c)"
  define bps where "bps = (ucast (bytes_per_sector (fat_bpb f)) :: u32)"
  define bpc where "bpc = ucast (sectors_per_cluster (fat_bpb f)) * bps"
  define ltr where "ltr = min_u32 (len + off mod bpc) bpc - off mod bpc"
  define cnt where "cnt = (ucast ((ltr + bps - 1) div bps) :: u16)"
  define bs where "bs = (ucast cnt * bps)"
  define tmp where "tmp = (off mod bps \<noteq> 0 \<or> ltr mod bps \<noteq> 0 \<or> b + ltr > REAL_MODE_LIMIT)"
  have vol: "sound_volume f" and st: "ext_stack_ok s"
    and room: "0x40000 + (cluster_bytes f + 2 * n) \<le> unat (ext_stack_top s)"
    using ready by (simp_all add: read_ready_def n_def)
  note num = round_arguments [OF vol pos small fitc nowrap, folded bps_def, folded bpc_def, folded ltr_def,
      folded cnt_def n_def o1_def sec_def, folded bs_def tmp_def]
  have rb: "read_ready int13 f d (unat bs) s" using ready num(6) by (simp add: read_ready_def)
  note clear = clear [folded num(1)]
  let ?g = "delivered f s (unat off) (unat len) (\<lambda>i. disk_at d n sec (o1 + i))"
  have bo: "unat (off mod bps) + unat ltr < 2 ^ 31" by (rule round_small [OF vol pos num(1,9) [unfolded n_def]])
  have ab: "unat b + unat ltr \<le> 0x40000 \<or> unat (ext_stack_top s) + (unat (off mod bps) + unat ltr - unat bs) \<le> unat b"
    using above by (simp add: clear_above_def stray_def num(9,10) flip: num(1) n_def)
  have g: "filled b (unat ltr) (\<lambda>i. if unat (off mod bps) + i < unat bs then disk_at d n sec (o1 div n * n + unat (off mod bps) + i)
      else mem s (ext_stack_top s + of_nat (unat (off mod bps) + i - unat bs))) k s u = filled b (unat ltr) ?g k s u" for k u
    by (rule filled_cong) (simp add: delivered_def past_sectors_def stray_def num(8) flip: num(1,9,10) n_def)
  from round_fetch [OF rb num(5) [unfolded n_def] bo ab num(11) [unfolded n_def] clear, where sec = sec and q = "o1 div n"]
  obtain tb s1 s2 s3 where
    r1: "(if tmp then push bs else ret b) s = Some (Inr tb, s1)"
    and r2: "disk_read int13 (drive_number f) (of_nat (sec + o1 div n)) tb cnt s1 = Some (Inr DISK_SUCCESS, s2)"
    and r3: "(if tmp then bind (memcpy b (tb + off mod bps) ltr) (\<lambda>_. ret ()) else ret ()) s2 = Some (Inr (), s3)"
    and top3: "unat (ext_stack_top s3) + (if tmp then unat bs else 0) = unat (ext_stack_top s)"
    and fl3: "filled b (unat ltr) ?g (if tmp then unat bs else 0) s (s3\<lparr>ext_stack_top := ext_stack_top s\<rparr>)"
    unfolding n_def [symmetric] g by blast
  let ?k = "if tmp then unat bs else 0" and ?c = "if unat ltr < unat len then of_nat v else c"
  have kP: "?k \<le> cluster_bytes f" using num(6) by simp
  have "unat (ext_stack_top s3) \<le> unat (ext_stack_top s)" using top3 by simp
  then have r3': "read_ready int13 f d (2 * n) s3"
    using ready top3 kP room by (auto simp: read_ready_def ext_stack_ok_def memory_map word_le_nat_alt)
  from round_next [OF read_ready_table [OF r3'] c num(3) more [folded num(1)]] obtain s4 where
    r4: "(if len - ltr \<noteq> 0 then fat_next_not_bad int13 f c else ret (FAT_CLUSTER_VALID, c)) s3
      = Some (Inr (FAT_CLUSTER_VALID, ?c), s4)" and sc: "only_scratch (2 * n) s3 s4"
    by (auto simp: n_def)
  have top4: "unat (ext_stack_top s4) + ?k = unat (ext_stack_top s)"
    using only_scratch_frame(1) [OF sc] top3 by simp
  have r5: "(if tmp then pop bs else ret ()) s4 = Some (Inr (), s4\<lparr>ext_stack_top := ext_stack_top s\<rparr>)"
    by (rule round_release [OF st _ top4]) (use room num(6) in simp)
  have "read_round int13 f (off, len, b, c) s = Some (Inr (Inl (0, len - ltr, b + ltr, ?c)),
      s4\<lparr>ext_stack_top := ext_stack_top s\<rparr>)"
    unfolding read_round_def Let_def prod.case bps_def [symmetric]
    unfolding bpc_def [symmetric] unfolding ltr_def [symmetric] unfolding cnt_def [symmetric] tmp_def [symmetric]
    unfolding if_not_P [OF pos] num(4,7)
    by (rule bind_run, rule exec_lift_res(1), rule bind_run, rule r1, rule bind_run, rule r2,
        simp only: simp_thms if_False, rule bind_run, rule r3, rule bind_run, rule r4,
        simp only: prod.case simp_thms if_False, rule bind_run, rule r5, rule exec_basic)
  moreover have "filled b (unat ltr) ?g (?k + 2 * n) s (s4\<lparr>ext_stack_top := ext_stack_top s\<rparr>)"
    using filled_block [OF clear _ fl3 top3 sc] room kP by simp
  then have "filled b (unat ltr) ?g (cluster_bytes f + 2 * n) s (s4\<lparr>ext_stack_top := ext_stack_top s\<rparr>)"
    using filled_mono kP by fastforce
  moreover have "ltr = of_nat (unat ltr)" by simp
  ultimately show ?thesis unfolding num(1) by (auto simp: n_def o1_def sec_def)
qed

section \<open>A whole read\<close>

text \<open>Byte \<open>i\<close> of the file whose chain starts at a cluster, as the disk holds it.\<close>

definition file_byte :: "fat_t \<Rightarrow> disk \<Rightarrow> nat \<Rightarrow> nat \<Rightarrow> u8" where
  "file_byte f d start i =
     (case chain f d start (i div cluster_bytes f) of
       None \<Rightarrow> 0
     | Some c \<Rightarrow> disk_at d (unat (bytes_per_sector (fat_bpb f))) (cluster_sector f c) (i mod cluster_bytes f))"

text \<open>The chain has the clusters the bytes \<open>offset, \<dots>, offset + n - 1\<close> lie in, all on the volume.\<close>

definition readable :: "fat_t \<Rightarrow> disk \<Rightarrow> nat \<Rightarrow> nat \<Rightarrow> nat \<Rightarrow> bool" where
  "readable f d start offset n \<longleftrightarrow>
     (\<forall>k. k \<le> offset div cluster_bytes f \<or> k * cluster_bytes f < offset + n \<longrightarrow>
       (\<exists>c. chain f d start k = Some c \<and> cluster_fits f c))"

lemma skip_clusters_chain:
  fixes int13 :: "'e int13"
  assumes "table_ready int13 f d s" and "unat c < 2 ^ 28" and "chain f d (unat c) k = Some c'"
  shows "\<exists>t. skip_clusters int13 f k c s = Some (Inr (Some (of_nat c')), t) \<and> only_scratch (table_scratch f) s t"
  using assms
proof (induction k arbitrary: c s)
  case 0
  then show ?case by (auto simp: exec)
next
  case (Suc k)
  from Suc.prems(3) obtain v where v: "next_cluster f d (unat c) = Some v" and rest: "chain f d v k = Some c'"
    by (auto split: bind_splits)
  have vb: "v < 2 ^ 28" by (rule next_cluster_bound [OF v])
  then have uv: "unat (of_nat v :: u32) = v" by (simp add: unat_of_nat)
  obtain t where run: "fat_next_not_bad int13 f c s = Some (Inr (FAT_CLUSTER_VALID, of_nat v), t)"
    and t: "only_scratch (table_scratch f) s t"
    using fat_next_not_bad_next [OF Suc.prems(1,2) v] by blast
  have "table_ready int13 f d t" using Suc.prems(1) table_ready_scratch [OF t] by simp
  from Suc.IH [OF this, of "of_nat v"] vb rest obtain u where
    "skip_clusters int13 f k (of_nat v) t = Some (Inr (Some (of_nat c')), u)" "only_scratch (table_scratch f) t u"
    by (auto simp: uv)
  with run only_scratch_trans [OF t] show ?case by (auto simp: exec_bind)
qed

lemma div_mod_at: "(x :: nat) = r + q * m \<Longrightarrow> r < m \<Longrightarrow> x div m = q \<and> x mod m = r"
  by simp

lemma clear_of_stack_split:
  assumes "clear_of_stack b n s" and "l \<le> n" and "unat b + n < 2 ^ 32"
  shows "clear_of_stack b l s" "clear_of_stack (b + of_nat l) (n - l) s"
    "unat (b + of_nat l) + (n - l) < 2 ^ 32"
  using assms by (auto simp: clear_of_stack_def unat_word_ariths(1) unat_of_nat)

text \<open>Where a round at place \<open>p\<close> of the file ends: in its cluster, or at the start of the next one.\<close>

lemma round_position:
  assumes vol: "sound_volume f" and pos: "0 < n" and off: "off mod cluster_bytes f = p mod cluster_bytes f"
  shows "round_length f off n < n \<Longrightarrow> (p + round_length f off n) div cluster_bytes f = Suc (p div cluster_bytes f)"
    and "round_length f off n < n \<Longrightarrow> (p + round_length f off n) mod cluster_bytes f = 0"
    and "i < round_length f off n \<Longrightarrow> (p + i) div cluster_bytes f = p div cluster_bytes f"
    and "i < round_length f off n \<Longrightarrow> (p + i) mod cluster_bytes f = off mod cluster_bytes f + i"
proof -
  let ?P = "cluster_bytes f" and ?l = "round_length f off n"
  note l = round_length_props [OF vol pos, of off]
  have P: "0 < ?P" by (rule sound_volume_pos(3) [OF vol])
  have p: "p = p div ?P * ?P + off mod ?P" unfolding off by simp
  have "p + ?l = Suc (p div ?P) * ?P" if "?l < n" using l(4) [OF that] p by simp
  then show "?l < n \<Longrightarrow> (p + ?l) div ?P = Suc (p div ?P)" "?l < n \<Longrightarrow> (p + ?l) mod ?P = 0" using P by simp_all
  have "(p + i) div ?P = p div ?P \<and> (p + i) mod ?P = off mod ?P + i" if "i < ?l"
  proof (rule div_mod_at)
    show "p + i = off mod ?P + i + p div ?P * ?P" using p by simp
    show "off mod ?P + i < ?P" using that l(3) by simp
  qed
  then show "i < ?l \<Longrightarrow> (p + i) div ?P = p div ?P" "i < ?l \<Longrightarrow> (p + i) mod ?P = off mod ?P + i" by blast+
qed

text \<open>A round that stands at place \<open>p\<close> of a readable file delivers its bytes and goes on in its chain.\<close>

lemma file_round:
  fixes int13 :: "'e int13" and off len b c :: u32
  assumes ready: "read_ready int13 f d (read_scratch f) s" and small: "unat len + cluster_bytes f < 2 ^ 32"
    and start: "start < 2 ^ 28" and at: "chain f d start (p div cluster_bytes f) = Some (unat c)"
    and off: "unat off mod cluster_bytes f = p mod cluster_bytes f"
    and held: "readable f d start p0 n0" and upto: "p + unat len = p0 + n0"
    and above: "clear_above f (unat off) (unat len) b s" and pos: "len \<noteq> 0"
    and clear: "clear_of_stack b (unat len) s" and nowrap: "unat b + unat len < 2 ^ 32"
  defines "l \<equiv> round_length f (unat off) (unat len)"
  shows "\<exists>c' t. read_round int13 f (off, len, b, c) s = Some (Inr (Inl (0, len - of_nat l, b + of_nat l, c')), t)
    \<and> filled b l (delivered f s (unat off) (unat len) (\<lambda>i. file_byte f d start (p + i))) (read_scratch f) s t
    \<and> (l < unat len \<longrightarrow> chain f d start ((p + l) div cluster_bytes f) = Some (unat c') \<and> (p + l) mod cluster_bytes f = 0)"
proof -
  let ?P = "cluster_bytes f"
  have vol: "sound_volume f" using ready by (simp add: read_ready_def)
  have len: "0 < unat len" using pos by (simp add: unat_gt_0)
  have l: "l \<le> unat len" using round_length_props(2) [OF vol len] by (simp add: l_def)
  note place = round_position [OF vol len off, folded l_def]
  have "p div ?P * ?P \<le> p" by simp
  then have "p div ?P * ?P < p0 + n0" using upto len by linarith
  then have fitc: "cluster_fits f (unat c)" using held at by (auto simp: readable_def)
  define v where "v = the (next_cluster f d (unat c))"
  have more: "next_cluster f d (unat c) = Some v \<and> chain f d start ((p + l) div ?P) = Some v" if "l < unat len"
  proof -
    note nxt = place(1) [OF that]
    have "(p + l) div ?P * ?P \<le> p + l" by simp
    then have "Suc (p div ?P) * ?P < p0 + n0" using upto that unfolding nxt by linarith
    then obtain c' where c': "chain f d start (Suc (p div ?P)) = Some c'"
      using held unfolding readable_def by blast
    then have "next_cluster f d (unat c) = Some c'" by (simp only: chain_step at bind.bind_lunit)
    with c' show ?thesis by (simp add: nxt v_def)
  qed
  from round_run [OF ready pos small fitc chain_bound [OF start at] _ above, folded l_def, of v]
    clear_of_stack_split(1) [OF clear l nowrap] nowrap l more obtain t where
    run: "read_round int13 f (off, len, b, c) s = Some (Inr (Inl (0, len - of_nat l, b + of_nat l,
        if l < unat len then of_nat v else c)), t)"
    and fl: "filled b l (delivered f s (unat off) (unat len)
        (\<lambda>i. disk_at d (unat (bytes_per_sector (fat_bpb f))) (cluster_sector f (unat c)) (unat off mod ?P + i)))
        (read_scratch f) s t"
    by auto
  have "file_byte f d start (p + i) = disk_at d (unat (bytes_per_sector (fat_bpb f))) (cluster_sector f (unat c)) (unat off mod ?P + i)"
    if "i < l" for i using that by (simp add: file_byte_def place(3,4) at)
  with fl have "filled b l (delivered f s (unat off) (unat len) (\<lambda>i. file_byte f d start (p + i))) (read_scratch f) s t"
    by (subst filled_cong) (simp_all add: delivered_def)
  moreover have "unat (of_nat v :: u32) = v" if "l < unat len"
    using more [OF that] next_cluster_bound [of f d "unat c" v] by (simp add: unat_of_nat)
  ultimately show ?thesis using run more place(2) by (intro exI conjI) auto
qed

text \<open>The first round may straddle; those after it start at a sector and deliver the file.\<close>

lemma delivered_later:
  assumes "sound_volume f"
  shows "delivered f s 0 n want = want"
    and "round_length f off n \<le> i \<Longrightarrow> delivered f s off n want i = want i"
proof -
  show "delivered f s 0 n want = want"
  proof (cases "n = 0")
    case True
    then show ?thesis by (simp add: fun_eq_iff delivered_def past_sectors_def round_length_def)
  next
    case False
    then show ?thesis by (intro delivered_fits round_fits_aligned [OF assms]) simp_all
  qed
  show "round_length f off n \<le> i \<Longrightarrow> delivered f s off n want i = want i"
    by (simp add: delivered_def past_sectors_def)
qed

lemma read_loop:
  fixes int13 :: "'e int13" and off len b c :: u32
  assumes "read_ready int13 f d (read_scratch f) s"
    and "unat len + cluster_bytes f < 2 ^ 32"
    and "start < 2 ^ 28" and "chain f d start (p div cluster_bytes f) = Some (unat c)"
    and "unat off mod cluster_bytes f = p mod cluster_bytes f"
    and "readable f d start p0 n0" and "p + unat len = p0 + n0"
    and "len \<noteq> 0 \<Longrightarrow> clear_above f (unat off) (unat len) b s"
    and "clear_of_stack b (unat len) s" and "unat b + unat len < 2 ^ 32"
  shows "\<exists>t. iterate (read_round int13 f) (off, len, b, c) s = Some (Inr FAT_SUCCESS, t)
    \<and> filled b (unat len) (delivered f s (unat off) (unat len) (\<lambda>i. file_byte f d start (p + i))) (read_scratch f) s t"
  using assms(1,2,4,5,7-)
proof (induction "unat len" arbitrary: off len b c s p rule: less_induct)
  case less
  note ready = less.prems(1) and clear = less.prems(7) and nowrap = less.prems(8)
  have vol: "sound_volume f" using ready by (simp add: read_ready_def)
  have stop: "iterate (read_round int13 f) (o', 0, b', c') s' = Some (Inr FAT_SUCCESS, s')" for o' b' c' s'
    by (subst iterate_unfold) (simp add: read_round_def exec_bind exec)
  show ?case
  proof (cases "len = 0")
    case True
    then show ?thesis using stop by auto
  next
    case False
    define l where "l = round_length f (unat off) (unat len)"
    let ?g = "delivered f s (unat off) (unat len) (\<lambda>i. file_byte f d start (p + i))"
    have l: "0 < l" "l \<le> unat len" using round_length_props(1,2) [OF vol] False by (simp_all add: l_def unat_gt_0)
    from file_round [OF ready less.prems(2) assms(3) less.prems(3,4) assms(6) less.prems(5) less.prems(6) [OF False] False clear nowrap,
        folded l_def] obtain c' t where
      run: "read_round int13 f (off, len, b, c) s = Some (Inr (Inl (0, len - of_nat l, b + of_nat l, c')), t)"
      and fl: "filled b l ?g (read_scratch f) s t"
      and more: "l < unat len \<Longrightarrow> chain f d start ((p + l) div cluster_bytes f) = Some (unat c') \<and> (p + l) mod cluster_bytes f = 0"
      by auto
    have ul: "unat (len - of_nat l) = unat len - l"
      using l u32_bound [of len] by (simp add: unat_sub word_le_nat_alt unat_of_nat)
    note split = clear_of_stack_split(2,3) [OF clear l(2) nowrap]
    have "\<exists>u. iterate (read_round int13 f) (0, len - of_nat l, b + of_nat l, c') t = Some (Inr FAT_SUCCESS, u)
      \<and> filled (b + of_nat l) (unat len - l) (\<lambda>i. file_byte f d start (p + l + i)) (read_scratch f) t u"
    proof (cases "l < unat len")
      case True
      have clear': "clear_of_stack (b + of_nat l) (unat (len - of_nat l)) t"
        using split(1) ul filled_frame(1) [OF fl] by (simp add: clear_of_stack_def)
      have "clear_above f (unat (0 :: u32)) (unat (len - of_nat l)) (b + of_nat l) t"
        using ul True round_length_props(2) [OF vol, of "unat len - l" 0]
        by (intro clear_above_fits [OF round_fits_aligned [OF vol] clear']) simp_all
      moreover have "read_ready int13 f d (read_scratch f) t" using ready read_ready_filled [OF fl] by simp
      ultimately show ?thesis
        using less.hyps [of "len - of_nat l" t "p + l" c' 0 "b + of_nat l"] clear' more [OF True] less.prems(2,5) split(2) ul l
        by (simp add: delivered_later(1) [OF vol])
    next
      case False
      then have "unat (len - of_nat l) = 0" using ul by simp
      then have "len - of_nat l = 0" by (simp only: unsigned_eq_0_iff)
      with False stop show ?thesis by auto
    qed
    then obtain u where run2: "iterate (read_round int13 f) (0, len - of_nat l, b + of_nat l, c') t = Some (Inr FAT_SUCCESS, u)"
      and fu: "filled (b + of_nat l) (unat len - l) (\<lambda>i. ?g (l + i)) (read_scratch f) t u"
      by (auto simp: add.assoc delivered_later(2) [OF vol] l_def)
    have "iterate (read_round int13 f) (off, len, b, c) s = Some (Inr FAT_SUCCESS, u)"
      by (subst iterate_unfold, rule bind_run, rule run) (simp add: run2)
    moreover have "filled b (l + (unat len - l)) ?g (read_scratch f) s u"
      using ready l(2) clear by (intro filled_append [OF _ _ fl fu]) (simp_all add: read_ready_def)
    ultimately show ?thesis using l(2) by auto
  qed
qed

text \<open>What \<open>fat_read\<close> does, a first round that straddles included.\<close>

lemma fat_read_bytes:
  fixes int13 :: "'e int13" and off len b :: u32
  assumes ready: "read_ready int13 (file_fat file) d (read_scratch (file_fat file)) s"
    and start: "unat (dirent_cluster (file_entry file)) < 2 ^ 28"
    and covers: "readable (file_fat file) d (unat (dirent_cluster (file_entry file))) (unat off) (unat len)"
    and above: "len \<noteq> 0 \<Longrightarrow> clear_above (file_fat file) (unat off) (unat len) b s"
    and small: "unat len + cluster_bytes (file_fat file) < 2 ^ 32"
    and clear: "clear_of_stack b (unat len) s" and nowrap: "unat b + unat len < 2 ^ 32"
  shows "\<exists>t. fat_read int13 file off len b s = Some (Inr FAT_SUCCESS, t)
    \<and> filled b (unat len) (delivered (file_fat file) s (unat off) (unat len)
          (\<lambda>i. file_byte (file_fat file) d (unat (dirent_cluster (file_entry file))) (unat off + i)))
        (read_scratch (file_fat file)) s t"
proof -
  let ?f = "file_fat file" and ?c0 = "dirent_cluster (file_entry file)"
  let ?q = "unat off div cluster_bytes ?f" and ?want = "\<lambda>i. file_byte ?f d (unat ?c0) (unat off + i)"
  have vol: "sound_volume ?f" and st: "ext_stack_ok s" using ready by (simp_all add: read_ready_def)
  from covers obtain c where c: "chain ?f d (unat ?c0) ?q = Some c" unfolding readable_def by blast
  have cb: "c < 2 ^ 28" by (rule chain_bound [OF start c])
  then have uc: "unat (of_nat c :: u32) = c" by (simp add: unat_of_nat)
  from skip_clusters_chain [OF read_ready_table [OF ready] start c] obtain t1 where
    skip: "skip_clusters int13 ?f ?q ?c0 s = Some (Inr (Some (of_nat c)), t1)"
    and sc: "only_scratch (table_scratch ?f) s t1" by auto
  have sc': "only_scratch (read_scratch ?f) s t1" by (rule only_scratch_mono [OF sc]) simp
  note top1 = only_scratch_frame(1) [OF sc]
  have ready1: "read_ready int13 ?f d (read_scratch ?f) t1"
    using ready by (simp add: read_ready_def only_scratch_frame [OF sc])
  have clear1: "clear_of_stack b (unat len) t1" using clear by (simp add: clear_of_stack_def top1)
  have above1: "len \<noteq> 0 \<Longrightarrow> clear_above ?f (unat off) (unat len) b t1" using above by (simp add: clear_above_def top1)
  obtain t where run: "iterate (read_round int13 ?f) (off, len, b, of_nat c) t1 = Some (Inr FAT_SUCCESS, t)"
    and fl: "filled b (unat len) (delivered ?f t1 (unat off) (unat len) ?want) (read_scratch ?f) t1 t"
    using read_loop [OF ready1 small start _ refl covers refl above1 clear1 nowrap, of "of_nat c"] c uc by auto
  have "delivered ?f t1 (unat off) (unat len) ?want i = delivered ?f s (unat off) (unat len) ?want i" if "i < unat len" for i
  proof -
    have "unat (ext_stack_top s) \<le> unat (ext_stack_top s + of_nat (stray ?f (unat off) (unat len) i))"
      if "past_sectors ?f (unat off) (unat len) i"
    proof (subst unat_add_of_nat [of _ 65536])
      show "unat (ext_stack_top s) + 65536 \<le> 2 ^ 32"
        using st by (simp add: ext_stack_ok_def memory_map word_le_nat_alt)
      show "stray ?f (unat off) (unat len) i < 65536"
        using stray_bound [OF vol, of "unat len" i "unat off"] that \<open>i < unat len\<close>
          u16_bound [of "bytes_per_sector (fat_bpb ?f)"] by (simp add: past_sectors_def)
    qed simp
    then show ?thesis by (simp add: delivered_def top1 only_scratch_mem [OF sc])
  qed
  then have "filled b (unat len) (delivered ?f s (unat off) (unat len) ?want) (read_scratch ?f) t1 t"
    using fl by (simp add: filled_def)
  moreover have nz: "\<not> (ucast (sectors_per_cluster (fat_bpb ?f)) * ucast (bytes_per_sector (fat_bpb ?f)) = (0 :: u32))"
    using unat_cluster_bytes [of ?f] sound_volume_pos(3) [OF vol] by (metis less_irrefl unsigned_0)
  have "fat_read int13 file off len b s = Some (Inr FAT_SUCCESS, t)"
    unfolding fat_read_def Let_def if_not_P [OF nz] unat_div unat_cluster_bytes
    by (rule bind_run, rule skip, simp only: option.case run)
  ultimately show ?thesis using filled_scratch [OF sc'] by blast
qed

lemma fat_read_run:
  fixes int13 :: "'e int13" and off len b :: u32
  assumes ready: "read_ready int13 (file_fat file) d (read_scratch (file_fat file)) s"
    and start: "unat (dirent_cluster (file_entry file)) < 2 ^ 28"
    and covers: "readable (file_fat file) d (unat (dirent_cluster (file_entry file))) (unat off) (unat len)"
    and fits: "len \<noteq> 0 \<Longrightarrow> round_fits (file_fat file) (unat off) (unat len)"
    and small: "unat len + cluster_bytes (file_fat file) < 2 ^ 32"
    and clear: "clear_of_stack b (unat len) s" and nowrap: "unat b + unat len < 2 ^ 32"
  shows "\<exists>t. fat_read int13 file off len b s = Some (Inr FAT_SUCCESS, t)
    \<and> filled b (unat len) (\<lambda>i. file_byte (file_fat file) d (unat (dirent_cluster (file_entry file))) (unat off + i))
        (read_scratch (file_fat file)) s t"
proof -
  let ?want = "\<lambda>i. file_byte (file_fat file) d (unat (dirent_cluster (file_entry file))) (unat off + i)"
  have vol: "sound_volume (file_fat file)" using ready by (simp add: read_ready_def)
  have above: "clear_above (file_fat file) (unat off) (unat len) b s" if "len \<noteq> 0"
    using that round_length_props(2) [OF vol] by (intro clear_above_fits [OF fits clear]) (simp_all add: unat_gt_0)
  have same: "filled b (unat len) (delivered (file_fat file) s (unat off) (unat len) ?want) k s t
      = filled b (unat len) ?want k s t" for k t
  proof (rule filled_cong)
    fix i assume "i < unat len"
    then have "len \<noteq> 0" by auto
    then have "round_fits (file_fat file) (unat off) (unat len)" by (rule fits)
    then show "delivered (file_fat file) s (unat off) (unat len) ?want i = ?want i" by (simp add: delivered_fits)
  qed
  from fat_read_bytes [OF ready start covers above small clear nowrap] show ?thesis unfolding same .
qed

section \<open>Properties\<close>

text \<open>
  C2. \<open>fat_read\<close> is correct and terminates: on a working drive and a sound volume, for a file
  whose chain covers the bytes asked for, with a destination clear of the extended stack and
  room for one cluster and two sectors of scratch, and unless the first round straddles a
  sector, it returns success with byte \<open>offset + i\<close> of the file at \<open>buffer + i\<close> for every
  \<open>i < length\<close>, the stack top where it was, and all other memory outside the scratch unchanged.
\<close>

theorem fat_read_delivers_file:
  fixes int13 :: "'e int13" and off len b :: u32
  assumes "read_ready int13 f d (cluster_bytes f + 2 * unat (bytes_per_sector (fat_bpb f))) s"
    and "unat (dirent_cluster entry) < 2 ^ 28"
    and "readable f d (unat (dirent_cluster entry)) (unat off) (unat len)"
    and "len \<noteq> 0 \<longrightarrow> round_fits f (unat off) (unat len)"
    and "unat len + cluster_bytes f < 2 ^ 32"
    and "clear_of_stack b (unat len) s" and "unat b + unat len < 2 ^ 32"
  shows "\<exists>t. fat_read int13 \<lparr>file_fat = f, file_entry = entry\<rparr> off len b s = Some (Inr FAT_SUCCESS, t)
    \<and> (\<forall>i < unat len. mem t (b + of_nat i) = file_byte f d (unat (dirent_cluster entry)) (unat off + i))
    \<and> ext_stack_top t = ext_stack_top s
    \<and> (\<forall>x. \<not> in_range b (unat len) x \<and> (unat x < 0x40000 \<or> unat (ext_stack_top s) \<le> unat x) \<longrightarrow> mem t x = mem s x)"
proof -
  from fat_read_run [of int13 "\<lparr>file_fat = f, file_entry = entry\<rparr>" d s off len b] assms obtain t where
    run: "fat_read int13 \<lparr>file_fat = f, file_entry = entry\<rparr> off len b s = Some (Inr FAT_SUCCESS, t)"
    and fl: "filled b (unat len) (\<lambda>i. file_byte f d (unat (dirent_cluster entry)) (unat off + i)) (read_scratch f) s t"
    by auto
  have room: "0x40000 + read_scratch f \<le> unat (ext_stack_top s)"
    using assms(1) by (simp add: read_ready_def)
  from fl obtain e m where t: "t = s\<lparr>bios_env := e, mem := m\<rparr>"
    and data: "\<forall>i < unat len. m (b + of_nat i) = file_byte f d (unat (dirent_cluster entry)) (unat off + i)"
    and fm: "\<And>x. \<not> in_range b (unat len) x \<Longrightarrow>
      \<not> (unat x < unat (ext_stack_top s) \<and> unat (ext_stack_top s) \<le> unat x + read_scratch f) \<Longrightarrow> m x = mem s x"
    unfolding filled_def by blast
  have "m x = mem s x" if "\<not> in_range b (unat len) x" and "unat x < 0x40000 \<or> unat (ext_stack_top s) \<le> unat x" for x
    using that room by (intro fm) auto
  with run t data show ?thesis by auto
qed

text \<open>A file of two clusters on a floppy, read from its byte 100 on across both.\<close>

definition two_clusters :: disk where
  "two_clusters l i = (if l = 1 then (if i = 3 then 3 else if i = 4 then 0xF0 else if i = 5 then 0xFF else 0)
     else if l = 33 then 0xAA else 0xBB)"

definition second_dirent :: fat_dirent_t where
  "second_dirent = (root_dirent floppy)\<lparr>de_fst_clus_hi := 0, de_fst_clus_lo := 2\<rparr>"

theorem fat_read_delivers_file_witness:
  "\<exists>t. fat_read (perfect_int13 two_clusters 512) \<lparr>file_fat = floppy, file_entry = second_dirent\<rparr>
        100 700 0x100000 (boot_state (\<lambda>_. 0) ()) = Some (Inr FAT_SUCCESS, t)
    \<and> mem t 0x100000 = 0xAA \<and> mem t 0x1002BB = 0xBB"
proof -
  let ?i = "perfect_int13 two_clusters 512" and ?s = "boot_state (\<lambda>_. 0) ()"
  have P: "cluster_bytes floppy = 512" by (simp add: cluster_bytes_def floppy_fields)
  have start: "unat (dirent_cluster second_dirent) = 2"
    by (simp add: dirent_cluster_def second_dirent_def)
  have ready: "read_ready ?i floppy two_clusters (cluster_bytes floppy + table_scratch floppy) ?s"
    using floppy_ready [of two_clusters "\<lambda>_. 0" "()"]
    by (simp add: read_ready_def table_ready_def P floppy_fields boot_state_def memory_map)
  have nxt: "next_cluster floppy two_clusters 2 = Some 3"
    by (simp add: next_cluster_def table_entry_def fat_entry_def floppy_fields disk_at_def two_clusters_def
        link_of_def bad_mark_def)
  have fit: "cluster_fits floppy 2" "cluster_fits floppy 3"
    by (simp_all add: cluster_fits_def cluster_sector_def floppy_fields)
  have cov: "readable floppy two_clusters 2 100 700"
    unfolding readable_def
  proof (intro allI impI)
    fix k assume "k \<le> 100 div cluster_bytes floppy \<or> k * cluster_bytes floppy < 100 + 700"
    then have "k = 0 \<or> k = 1" by (auto simp: P)
    with nxt fit show "\<exists>c. chain floppy two_clusters 2 k = Some c \<and> cluster_fits floppy c" by auto
  qed
  have rf: "round_fits floppy 100 700"
    by (simp add: round_fits_def round_sectors_def round_length_def P floppy_fields)
  obtain t where run: "fat_read ?i \<lparr>file_fat = floppy, file_entry = second_dirent\<rparr> 100 700 0x100000 ?s
      = Some (Inr FAT_SUCCESS, t)"
    and data: "\<forall>i < 700. mem t (0x100000 + of_nat i) = file_byte floppy two_clusters 2 (100 + i)"
    using fat_read_delivers_file [of ?i floppy two_clusters ?s second_dirent 100 700 "0x100000"] ready cov rf
    by (auto simp: start P floppy_fields clear_of_stack_def boot_state_def memory_map)
  have "mem t 0x100000 = file_byte floppy two_clusters 2 100"
    "mem t 0x1002BB = file_byte floppy two_clusters 2 799"
    using data [THEN spec, of 0] data [THEN spec, of 699] by simp_all
  with run nxt show ?thesis
    by (simp add: file_byte_def P disk_at_def cluster_sector_def floppy_fields two_clusters_def)
qed

text \<open>
  C31. A read that straddles a sector is wrong: the number of sectors fetched in the first round
  leaves out the bytes before the offset. For every such read, on a working drive and a sound
  volume and under the conditions of a good read, \<open>fat_read\<close> still returns success; but the bytes
  of the first round that lie behind its sectors, of which there is at least one, are not the
  file's: they are what the memory above the top of the extended stack held. All other bytes
  are right.
\<close>

theorem fat_read_straddle:
  fixes int13 :: "'e int13" and off len b :: u32
  assumes "read_ready int13 f d (cluster_bytes f + 2 * unat (bytes_per_sector (fat_bpb f))) s"
    and "unat (dirent_cluster entry) < 2 ^ 28"
    and "readable f d (unat (dirent_cluster entry)) (unat off) (unat len)"
    and "len \<noteq> 0" and "\<not> round_fits f (unat off) (unat len)"
    and "unat len + cluster_bytes f < 2 ^ 32"
    and "unat b + unat len \<le> 0x40000 \<or> unat (ext_stack_top s) + unat (bytes_per_sector (fat_bpb f)) \<le> unat b"
    and "unat b + unat len < 2 ^ 32"
  defines "fetched \<equiv> round_sectors f (unat off) (unat len) * unat (bytes_per_sector (fat_bpb f))"
  defines "before \<equiv> unat off mod unat (bytes_per_sector (fat_bpb f))"
  shows "\<exists>t. fat_read int13 \<lparr>file_fat = f, file_entry = entry\<rparr> off len b s = Some (Inr FAT_SUCCESS, t)
    \<and> (\<forall>i < unat len. mem t (b + of_nat i) =
        (if i < round_length f (unat off) (unat len) \<and> fetched \<le> before + i
         then mem s (ext_stack_top s + of_nat (before + i - fetched))
         else file_byte f d (unat (dirent_cluster entry)) (unat off + i)))
    \<and> (\<exists>i < unat len. i < round_length f (unat off) (unat len) \<and> fetched \<le> before + i)
    \<and> ext_stack_top t = ext_stack_top s"
proof -
  let ?l = "round_length f (unat off) (unat len)"
  have vol: "sound_volume f" using assms(1) by (simp add: read_ready_def)
  have len: "0 < unat len" using assms(4) by (simp add: unat_gt_0)
  note l = round_length_props(1,2) [OF vol len, of "unat off"]
  have clear: "clear_of_stack b (unat len) s" using assms(7,8) by (auto simp: clear_of_stack_def)
  have above: "clear_above f (unat off) (unat len) b s"
    using assms(7) stray_bound [OF vol len order_refl, of "unat off"] l(2) by (auto simp: clear_above_def)
  from fat_read_bytes [of int13 "\<lparr>file_fat = f, file_entry = entry\<rparr>" d s off len b] assms(1-3,6,8) above clear obtain t where
    run: "fat_read int13 \<lparr>file_fat = f, file_entry = entry\<rparr> off len b s = Some (Inr FAT_SUCCESS, t)"
    and fl: "filled b (unat len) (delivered f s (unat off) (unat len)
      (\<lambda>i. file_byte f d (unat (dirent_cluster entry)) (unat off + i))) (read_scratch f) s t"
    by auto
  from fl have "\<forall>i < unat len. mem t (b + of_nat i) = delivered f s (unat off) (unat len)
      (\<lambda>i. file_byte f d (unat (dirent_cluster entry)) (unat off + i)) i"
    by (auto simp: filled_def)
  moreover have "fetched \<le> before + (?l - 1)"
    using assms(5) l(1) by (simp add: round_fits_def fetched_def before_def)
  then have "\<exists>i < unat len. i < ?l \<and> fetched \<le> before + i"
    using l by (intro exI [of _ "?l - 1"]) simp
  ultimately show ?thesis
    using run filled_frame(1) [OF fl]
    by (simp add: delivered_def past_sectors_def stray_def fetched_def before_def)
qed

text \<open>Clusters of two sectors, a disk that holds only ones, and two bytes read at 511 over memory full of zeros.\<close>

definition pair_floppy :: fat_t where
  "pair_floppy = floppy\<lparr>fat_bpb := (fat_bpb floppy)\<lparr>sectors_per_cluster := 2\<rparr>\<rparr>"

lemma pair_floppy_fields:
  "sectors_per_cluster (fat_bpb pair_floppy) = 2" "bytes_per_sector (fat_bpb pair_floppy) = 512"
  "drive_number pair_floppy = 0" "first_data_sector pair_floppy = 33"
  by (simp_all add: pair_floppy_def floppy_fields)

theorem fat_read_straddle_witness:
  "\<exists>t. fat_read (perfect_int13 (\<lambda>_ _. 1) 512) \<lparr>file_fat = pair_floppy, file_entry = second_dirent\<rparr>
        511 2 0x100000 (boot_state (\<lambda>_. 0) ()) = Some (Inr FAT_SUCCESS, t)
    \<and> mem t 0x100000 = 1 \<and> mem t 0x100001 = 0 \<and> file_byte pair_floppy (\<lambda>_ _. 1) 2 512 = 1"
proof -
  let ?d = "\<lambda>_ _. 1" and ?s = "boot_state (\<lambda>_. 0) () :: unit machine"
  let ?i = "perfect_int13 ?d 512"
  have P: "cluster_bytes pair_floppy = 1024" by (simp add: cluster_bytes_def pair_floppy_fields)
  have start: "unat (dirent_cluster second_dirent) = 2" by (simp add: dirent_cluster_def second_dirent_def)
  have "sound_volume pair_floppy" by (simp add: sound_volume_def pair_floppy_def floppy_fields)
  then have ready: "read_ready ?i pair_floppy ?d (cluster_bytes pair_floppy + 2 * unat (bytes_per_sector (fat_bpb pair_floppy))) ?s"
    using floppy_ready [of ?d "\<lambda>_. 0" "()"]
    by (simp add: read_ready_def table_ready_def P floppy_fields pair_floppy_fields boot_state_def memory_map)
  have cov: "readable pair_floppy ?d 2 511 2"
    unfolding readable_def
  proof (intro allI impI)
    fix k assume "k \<le> 511 div cluster_bytes pair_floppy \<or> k * cluster_bytes pair_floppy < 511 + 2"
    then have "k = 0" by (auto simp: P)
    then show "\<exists>c. chain pair_floppy ?d 2 k = Some c \<and> cluster_fits pair_floppy c"
      by (simp add: cluster_fits_def cluster_sector_def pair_floppy_fields)
  qed
  have round: "round_length pair_floppy 511 2 = 2" "round_sectors pair_floppy 511 2 = 1"
    by (simp_all add: round_length_def round_sectors_def P pair_floppy_fields)
  have one: "file_byte pair_floppy ?d 2 i = 1" if "i < 1024" for i
    using that by (simp add: file_byte_def P pair_floppy_fields disk_at_def)
  obtain t where run: "fat_read ?i \<lparr>file_fat = pair_floppy, file_entry = second_dirent\<rparr> 511 2 0x100000 ?s = Some (Inr FAT_SUCCESS, t)"
    and data: "\<forall>i < 2. mem t (0x100000 + of_nat i) = (if i < 2 \<and> 512 \<le> 511 + i
      then mem ?s (ext_stack_top ?s + of_nat (511 + i - 512)) else file_byte pair_floppy ?d 2 (511 + i))"
    using fat_read_straddle [of ?i pair_floppy ?d ?s second_dirent 511 2 "0x100000"] ready cov
    by (auto simp: start P round pair_floppy_fields round_fits_def boot_state_def memory_map)
  from data [THEN spec, of 0] data [THEN spec, of 1] run one show ?thesis by (auto simp: boot_state_def)
qed

lemma skip_clusters_end:
  fixes int13 :: "'e int13"
  assumes "table_ready int13 f d s" and "unat c < 2 ^ 28" and "chain f d (unat c) j = Some c'"
    and "link_of (fat_type f) (table_entry f d c') = FAT_CLUSTER_END" and "j < k"
  shows "\<exists>t. skip_clusters int13 f k c s = Some (Inr None, t) \<and> only_scratch (table_scratch f) s t"
  using assms
proof (induction j arbitrary: c s k)
  case 0
  then obtain k' where k: "k = Suc k'" by (cases k) auto
  from fat_next_not_bad_step [OF 0(1,2)] 0(3,4) obtain t where
    "fat_next_not_bad int13 f c s = Some (Inr (FAT_CLUSTER_END, of_nat (table_entry f d (unat c))), t)"
    "only_scratch (table_scratch f) s t" by auto
  then show ?case by (auto simp: k exec_bind exec)
next
  case (Suc j)
  then obtain k' where k: "k = Suc k'" by (cases k) auto
  from Suc.prems(3) obtain v where v: "next_cluster f d (unat c) = Some v" and rest: "chain f d v j = Some c'"
    by (auto split: bind_splits)
  have vb: "v < 2 ^ 28" by (rule next_cluster_bound [OF v])
  then have uv: "unat (of_nat v :: u32) = v" by (simp add: unat_of_nat)
  obtain t where run: "fat_next_not_bad int13 f c s = Some (Inr (FAT_CLUSTER_VALID, of_nat v), t)"
    and t: "only_scratch (table_scratch f) s t"
    using fat_next_not_bad_next [OF Suc.prems(1,2) v] by blast
  have "table_ready int13 f d t" using Suc.prems(1) table_ready_scratch [OF t] by simp
  from Suc.IH [OF this, of "of_nat v" k'] vb rest Suc.prems(4,5) obtain u where
    "skip_clusters int13 f k' (of_nat v) t = Some (Inr None, u)" "only_scratch (table_scratch f) t u"
    by (auto simp: uv k)
  with run only_scratch_trans [OF t] show ?case by (auto simp: exec_bind k)
qed

text \<open>
  C18. An offset behind the end of the chain is an error, not a wrong answer: when the chain
  ends before the cluster the offset lies in, \<open>fat_read\<close> returns \<open>FAT_OUT_OF_FILE_BOUNDS\<close> and
  only scratch has changed.
\<close>

theorem fat_read_past_chain:
  fixes int13 :: "'e int13" and off len b :: u32
  assumes "table_ready int13 f d s" and "unat (dirent_cluster entry) < 2 ^ 28"
    and "chain f d (unat (dirent_cluster entry)) j = Some c"
    and "link_of (fat_type f) (table_entry f d c) = FAT_CLUSTER_END"
    and "j < unat off div cluster_bytes f"
  shows "\<exists>t. fat_read int13 \<lparr>file_fat = f, file_entry = entry\<rparr> off len b s = Some (Inr FAT_OUT_OF_FILE_BOUNDS, t)
    \<and> ext_stack_top t = ext_stack_top s \<and> only_scratch (2 * unat (bytes_per_sector (fat_bpb f))) s t"
proof -
  have vol: "sound_volume f" using assms(1) by (simp add: table_ready_def)
  from skip_clusters_end [OF assms] obtain t where
    skip: "skip_clusters int13 f (unat off div cluster_bytes f) (dirent_cluster entry) s = Some (Inr None, t)"
    and t: "only_scratch (table_scratch f) s t" by blast
  have nz: "\<not> (ucast (sectors_per_cluster (fat_bpb f)) * ucast (bytes_per_sector (fat_bpb f)) = (0 :: u32))"
    using unat_cluster_bytes [of f] sound_volume_pos(3) [OF vol] by (metis less_irrefl unsigned_0)
  have "fat_read int13 \<lparr>file_fat = f, file_entry = entry\<rparr> off len b s = Some (Inr FAT_OUT_OF_FILE_BOUNDS, t)"
    unfolding fat_read_def Let_def fat_file_t.simps if_not_P [OF nz] unat_div unat_cluster_bytes
    by (rule bind_run, rule skip) (simp add: exec)
  with t only_scratch_frame(1) [OF t] show ?thesis by blast
qed

theorem fat_read_past_chain_witness:
  "\<exists>t. fat_read (perfect_int13 two_clusters 512) \<lparr>file_fat = floppy, file_entry = second_dirent\<rparr>
        1024 1 0x100000 (boot_state (\<lambda>_. 0) ()) = Some (Inr FAT_OUT_OF_FILE_BOUNDS, t)
    \<and> ext_stack_top t = 0x80000"
proof -
  have start: "unat (dirent_cluster second_dirent) = 2"
    by (simp add: dirent_cluster_def second_dirent_def)
  have tab: "table_entry floppy two_clusters 2 = 3" "table_entry floppy two_clusters 3 = 0xFFF"
    by (simp_all add: table_entry_def fat_entry_def floppy_fields disk_at_def two_clusters_def)
  then have "chain floppy two_clusters 2 1 = Some 3"
    by (simp add: next_cluster_def link_of_def bad_mark_def floppy_fields)
  moreover have "link_of (fat_type floppy) (table_entry floppy two_clusters 3) = FAT_CLUSTER_END"
    by (simp add: tab link_of_def bad_mark_def floppy_fields)
  ultimately show ?thesis
    using fat_read_past_chain [OF floppy_ready [of two_clusters "\<lambda>_. 0" "()"], of second_dirent 1 3 1024 1 "0x100000"]
    by (auto simp: start cluster_bytes_def floppy_fields boot_state_def memory_map)
qed

text \<open>
  C32. The error path of a direct read gives back a block that was never taken: with nothing on
  the extended stack, a disk error while reading whole sectors straight into the destination
  is not reported as \<open>FAT_DISK_ERROR\<close> but stops the machine with the panic of \<open>pop\<close>.
\<close>

theorem fat_read_direct_error_panics:
  fixes int13 :: "'e int13" and off len b :: u32
  assumes vol: "sound_volume f"
    and fails: "\<And>dap e m. \<exists>ax e' m'. int13 (drive_number f) dap e m = (True, ax, e', m')
      \<and> disk_status_of_byte (ucast (drop_bit 8 ax)) \<noteq> DISK_SUCCESS"
    and pos: "len \<noteq> 0" and small: "unat len + cluster_bytes f < 2 ^ 32"
    and aligned: "unat off < cluster_bytes f" "unat off mod unat (bytes_per_sector (fat_bpb f)) = 0"
      "round_length f (unat off) (unat len) mod unat (bytes_per_sector (fat_bpb f)) = 0"
    and low: "unat b + round_length f (unat off) (unat len) \<le> 0x10FFEF"
    and top: "ext_stack_top s = EXTENDED_STACK_BASE"
  shows "\<exists>t. fat_read int13 \<lparr>file_fat = f, file_entry = entry\<rparr> off len b s = Some (Inl (Panic ''Stack overflow''), t)"
proof -
  define n where "n = unat (bytes_per_sector (fat_bpb f))"
  define l where "l = round_length f (unat off) (unat len)"
  define bps where "bps = (ucast (bytes_per_sector (fat_bpb f)) :: u32)"
  define bpc where "bpc = ucast (sectors_per_cluster (fat_bpb f)) * bps"
  define ltr where "ltr = min_u32 (len + off mod bpc) bpc - off mod bpc"
  define cnt where "cnt = (ucast ((ltr + bps - 1) div bps) :: u16)"
  define bs where "bs = (ucast cnt * bps)"
  define tmp where "tmp = (off mod bps \<noteq> 0 \<or> ltr mod bps \<noteq> 0 \<or> b + ltr > REAL_MODE_LIMIT)"
  define c where "c = dirent_cluster entry"
  have pos': "0 < unat len" using pos by (simp add: unat_gt_0)
  note words = round_words [OF vol pos small, of off, folded bps_def, folded bpc_def, folded ltr_def,
      folded cnt_def n_def l_def]
  have l: "0 < l" using round_length_props(1) [OF vol pos'] by (simp add: l_def)
  have cnt_n: "l \<le> unat cnt * n" "unat cnt * n \<le> cluster_bytes f"
    using round_sectors_props(1,3) [OF vol pos', of "unat off"] words(4) by (simp_all add: l_def n_def)
  have mul: "mul_u16 cnt (bytes_per_sector (fat_bpb f)) = Inr bs" and bs: "unat bs = unat cnt * n"
    using unat_mul_u16 [of cnt "bytes_per_sector (fat_bpb f)"] cnt_n sound_volume_pos(4) [OF vol]
    by (simp_all add: bs_def bps_def n_def)
  have "off mod bps = 0" "ltr mod bps = 0"
    using aligned(2,3) words(5,6) by (simp_all add: unsigned_eq_0_iff n_def l_def)
  moreover have "unat (b + ltr) = unat b + l"
    using low words(3) by (simp add: unat_word_ariths(1) l_def)
  ultimately have direct: "\<not> tmp" and blow: "\<not> b > REAL_MODE_LIMIT"
    using low by (simp_all add: tmp_def REAL_MODE_LIMIT_val word_less_nat_alt l_def)
  let ?lba = "ucast (cluster_to_lba f c + off mod bpc div bps)"
  obtain st t1 where read: "disk_read int13 (drive_number f) ?lba b cnt s = Some (Inr st, t1)"
    and st: "st \<noteq> DISK_SUCCESS" and top1: "ext_stack_top t1 = EXTENDED_STACK_BASE"
  proof -
    obtain ax e' m' where i: "int13 (drive_number f) (dap_of b ?lba cnt) (bios_env s) (mem s) = (True, ax, e', m')"
      and e: "disk_status_of_byte (ucast (drop_bit 8 ax)) \<noteq> DISK_SUCCESS" using fails by blast
    show ?thesis
      by (rule that [OF disk_read_low [of b int13, OF blow i]]) (simp_all add: e top)
  qed
  have "0 < unat bs" using l cnt_n(1) bs by linarith
  then have "EXTENDED_STACK_BASE - ext_stack_top t1 < bs"
    by (simp add: top1 word_less_nat_alt)
  then obtain t where pop: "pop bs t1 = Some (Inl (Panic ''Stack overflow''), t)" using pop_under by blast
  have round: "read_round int13 f (off, len, b, c) s = Some (Inl (Panic ''Stack overflow''), t)"
    unfolding read_round_def Let_def prod.case bps_def [symmetric]
    unfolding bpc_def [symmetric] unfolding ltr_def [symmetric] unfolding cnt_def [symmetric] tmp_def [symmetric]
    unfolding if_not_P [OF pos] mul if_not_P [OF direct]
    by (rule bind_run, rule exec_lift_res(1), rule bind_run, rule exec_basic(1), rule bind_run, rule read,
        subst if_P [OF st], rule bind_halts, rule pop)
  have "unat off div cluster_bytes f = 0" using aligned(1) by simp
  then have skip: "skip_clusters int13 f (unat off div cluster_bytes f) c s = Some (Inr (Some c), s)"
    by (simp add: exec)
  have nz: "\<not> (ucast (sectors_per_cluster (fat_bpb f)) * ucast (bytes_per_sector (fat_bpb f)) = (0 :: u32))"
    using unat_cluster_bytes [of f] sound_volume_pos(3) [OF vol] by (metis less_irrefl unsigned_0)
  have "iterate (read_round int13 f) (off, len, b, c) s = Some (Inl (Panic ''Stack overflow''), t)"
    by (subst iterate_unfold, rule bind_halts, rule round)
  note loop = this
  have "fat_read int13 \<lparr>file_fat = f, file_entry = entry\<rparr> off len b s = Some (Inl (Panic ''Stack overflow''), t)"
    unfolding fat_read_def Let_def fat_file_t.simps if_not_P [OF nz] unat_div unat_cluster_bytes c_def [symmetric]
    by (rule bind_run, rule skip) (simp add: loop)
  then show ?thesis by blast
qed

theorem fat_read_direct_error_panics_witness:
  "\<exists>t. fat_read (\<lambda>drv dap e m. (True, 0x8000, e, m)) \<lparr>file_fat = floppy, file_entry = second_dirent\<rparr>
     0 512 0x10000 (boot_state (\<lambda>_. 0) ()) = Some (Inl (Panic ''Stack overflow''), t)"
proof (rule fat_read_direct_error_panics)
  show "sound_volume floppy" by (simp add: sound_volume_def floppy_fields)
  show "\<exists>ax e' m'. (True, 0x8000 :: u16, e, m) = (True, ax, e', m') \<and> disk_status_of_byte (ucast (drop_bit 8 ax)) \<noteq> DISK_SUCCESS"
    for e :: unit and m
    by (intro exI [of _ "0x8000"]) (simp add: disk_status_of_byte_def named_statuses_def)
qed (simp_all add: round_length_def cluster_bytes_def floppy_fields boot_state_def)

end
