(* ===== verification/Elf.thy ===== *)
theory Elf
  imports Region_Map Fat_Read
begin

text \<open>
  \<^verbatim>\<open>stage1/elf.c\<close>: the header of an ELF file read and checked, and its program segments loaded.
  The two structures are read into memory by \<open>fat_read\<close> and decoded from the bytes there; the
  addresses the compiler gave the two local variables are parameters. The loader is written
  over the function that reads the file, \<open>fat_read int13 file\<close>; the locale \<open>file_reader\<close> says
  what it relies on.
\<close>

section \<open>Structures\<close>

datatype elf_class_t =
    ELF_CLASS_NONE
  | ELF_CLASS_32
  | ELF_CLASS_64

fun elf_class_value :: "elf_class_t \<Rightarrow> u8" where
  "elf_class_value ELF_CLASS_NONE = 0"
| "elf_class_value ELF_CLASS_32 = 1"
| "elf_class_value ELF_CLASS_64 = 2"

datatype elf_type_t =
    ELF_TYPE_NONE
  | ELF_TYPE_REL
  | ELF_TYPE_EXEC
  | ELF_TYPE_DYN
  | ELF_TYPE_CORE

fun elf_type_value :: "elf_type_t \<Rightarrow> u16" where
  "elf_type_value ELF_TYPE_NONE = 0"
| "elf_type_value ELF_TYPE_REL = 1"
| "elf_type_value ELF_TYPE_EXEC = 2"
| "elf_type_value ELF_TYPE_DYN = 3"
| "elf_type_value ELF_TYPE_CORE = 4"

datatype elf_machine_t =
    ELF_MACHINE_NONE
  | ELF_MACHINE_M32
  | ELF_MACHINE_SPARC
  | ELF_MACHINE_386
  | ELF_MACHINE_68K
  | ELF_MACHINE_88K
  | ELF_MACHINE_880
  | ELF_MACHINE_860
  | ELF_MACHINE_MIPS
  | ELF_MACHINE_PARISC
  | ELF_MACHINE_SPARC32PLUS
  | ELF_MACHINE_PPC
  | ELF_MACHINE_PPC64
  | ELF_MACHINE_S390
  | ELF_MACHINE_ARM
  | ELF_MACHINE_SH
  | ELF_MACHINE_SPARCV9
  | ELF_MACHINE_IA_64
  | ELF_MACHINE_X86_64
  | ELF_MACHINE_VAX

fun elf_machine_value :: "elf_machine_t \<Rightarrow> u16" where
  "elf_machine_value ELF_MACHINE_NONE = 0"
| "elf_machine_value ELF_MACHINE_M32 = 1"
| "elf_machine_value ELF_MACHINE_SPARC = 2"
| "elf_machine_value ELF_MACHINE_386 = 3"
| "elf_machine_value ELF_MACHINE_68K = 4"
| "elf_machine_value ELF_MACHINE_88K = 5"
| "elf_machine_value ELF_MACHINE_880 = 6"
| "elf_machine_value ELF_MACHINE_860 = 7"
| "elf_machine_value ELF_MACHINE_MIPS = 8"
| "elf_machine_value ELF_MACHINE_PARISC = 9"
| "elf_machine_value ELF_MACHINE_SPARC32PLUS = 10"
| "elf_machine_value ELF_MACHINE_PPC = 11"
| "elf_machine_value ELF_MACHINE_PPC64 = 12"
| "elf_machine_value ELF_MACHINE_S390 = 13"
| "elf_machine_value ELF_MACHINE_ARM = 14"
| "elf_machine_value ELF_MACHINE_SH = 15"
| "elf_machine_value ELF_MACHINE_SPARCV9 = 16"
| "elf_machine_value ELF_MACHINE_IA_64 = 17"
| "elf_machine_value ELF_MACHINE_X86_64 = 18"
| "elf_machine_value ELF_MACHINE_VAX = 19"

datatype elf_program_header_type_t =
    ELF_PT_NULL
  | ELF_PT_LOAD
  | ELF_PT_DYNAMIC
  | ELF_PT_INTERP
  | ELF_PT_NOTE
  | ELF_PT_SHLIB
  | ELF_PT_PHDR

fun elf_program_header_type_value :: "elf_program_header_type_t \<Rightarrow> u32" where
  "elf_program_header_type_value ELF_PT_NULL = 0"
| "elf_program_header_type_value ELF_PT_LOAD = 1"
| "elf_program_header_type_value ELF_PT_DYNAMIC = 2"
| "elf_program_header_type_value ELF_PT_INTERP = 3"
| "elf_program_header_type_value ELF_PT_NOTE = 4"
| "elf_program_header_type_value ELF_PT_SHLIB = 5"
| "elf_program_header_type_value ELF_PT_PHDR = 6"

datatype elf_result_t =
    ELF_SUCCESS
  | ELF_NOT_RECOGNIZED
  | ELF_UNSUPPORTED_ARCH
  | ELF_NOT_EXECUTABLE
  | ELF_FAT_ERROR
  | ELF_LOAD_ON_RESERVED_MEMORY

fun elf_result_to_str :: "elf_result_t \<Rightarrow> string" where
  "elf_result_to_str ELF_SUCCESS = ''Success''"
| "elf_result_to_str ELF_NOT_RECOGNIZED = ''Not recognized as valid ELF''"
| "elf_result_to_str ELF_UNSUPPORTED_ARCH = ''Unsupported architecture''"
| "elf_result_to_str ELF_NOT_EXECUTABLE = ''Not executable''"
| "elf_result_to_str ELF_FAT_ERROR = ''FAT error''"
| "elf_result_to_str ELF_LOAD_ON_RESERVED_MEMORY = ''Load on a reserved region of memory''"

record elf_header_t =
  eh_magic :: "u8 list"
  efi_class :: u8
  endianness :: u8
  header_version :: u8
  abi :: u8
  eh_unused :: "u8 list"
  eh_type :: u16
  eh_machine :: u16
  elf_version :: u32
  entry_point :: u32
  program_header_table :: u32
  section_header_table :: u32
  eh_flags :: u32
  header_size :: u16
  program_entry_size :: u16
  program_entry_count :: u16
  section_entry_size :: u16
  section_entry_count :: u16
  string_table_section_index :: u16

record elf_program_header_t =
  p_type :: u32
  p_offset :: u32
  p_vaddr :: u32
  p_paddr :: u32
  p_filesz :: u32
  p_memsz :: u32
  p_flags :: u32
  p_align :: u32

definition SIZEOF_ELF_HEADER :: u32 where "SIZEOF_ELF_HEADER = 52"

text \<open>The packed structures at an address.\<close>

definition decode_elf_header :: "memory \<Rightarrow> u32 \<Rightarrow> elf_header_t" where
  "decode_elf_header m a =
     \<lparr>eh_magic = bytes_at m a 4,
      efi_class = m (a + 4),
      endianness = m (a + 5),
      header_version = m (a + 6),
      abi = m (a + 7),
      eh_unused = bytes_at m (a + 8) 8,
      eh_type = load16 m (a + 16),
      eh_machine = load16 m (a + 18),
      elf_version = load32 m (a + 20),
      entry_point = load32 m (a + 24),
      program_header_table = load32 m (a + 28),
      section_header_table = load32 m (a + 32),
      eh_flags = load32 m (a + 36),
      header_size = load16 m (a + 40),
      program_entry_size = load16 m (a + 42),
      program_entry_count = load16 m (a + 44),
      section_entry_size = load16 m (a + 46),
      section_entry_count = load16 m (a + 48),
      string_table_section_index = load16 m (a + 50)\<rparr>"

definition decode_program_header :: "memory \<Rightarrow> u32 \<Rightarrow> elf_program_header_t" where
  "decode_program_header m a =
     \<lparr>p_type = load32 m a,
      p_offset = load32 m (a + 4),
      p_vaddr = load32 m (a + 8),
      p_paddr = load32 m (a + 12),
      p_filesz = load32 m (a + 16),
      p_memsz = load32 m (a + 20),
      p_flags = load32 m (a + 24),
      p_align = load32 m (a + 28)\<rparr>"

text \<open>The structure \<^verbatim>\<open>elf_t\<close>: its file, and the address of its header.\<close>

record elf_t =
  elf_file :: fat_file_t
  elf_header :: u32

section \<open>Checking the header\<close>

definition ELF_MAGIC :: "u8 list" where
  "ELF_MAGIC = [0x7F, 0x45, 0x4C, 0x46, 0]"

definition validate_header :: "elf_header_t \<Rightarrow> elf_result_t res" where
  "validate_header header =
     rbind (streq ELF_MAGIC (eh_magic header @ [0])) (\<lambda>same.
     if \<not> same then Inr ELF_NOT_RECOGNIZED
     else if efi_class header \<noteq> elf_class_value ELF_CLASS_32 then Inr ELF_UNSUPPORTED_ARCH
     else if eh_machine header \<noteq> elf_machine_value ELF_MACHINE_386
         \<and> eh_machine header \<noteq> elf_machine_value ELF_MACHINE_X86_64 then Inr ELF_UNSUPPORTED_ARCH
     else if eh_type header \<noteq> elf_type_value ELF_TYPE_EXEC \<or> program_entry_count header = 0
         \<or> program_header_table header = 0 \<or> entry_point header = 0 then Inr ELF_NOT_EXECUTABLE
     else Inr ELF_SUCCESS)"

definition elf_open :: "'e int13 \<Rightarrow> u32 \<Rightarrow> fat_file_t \<Rightarrow> ('e machine, elf_result_t \<times> elf_t) cmd" where
  "elf_open int13 header_at file =
     (let elf = \<lparr>elf_file = file, elf_header = header_at\<rparr>
      in bind (fat_read int13 file 0 SIZEOF_ELF_HEADER header_at) (\<lambda>result.
         if result \<noteq> FAT_SUCCESS then ret (ELF_FAT_ERROR, elf)
         else bind (gets (\<lambda>s. decode_elf_header (mem s) header_at)) (\<lambda>header.
              bind (lift_res (validate_header header)) (\<lambda>r. ret (r, elf)))))"

section \<open>Loading\<close>

definition is_intersecting_used_memregions :: "elf_program_header_t \<Rightarrow> u32 \<Rightarrow> ('e machine, bool) cmd" where
  "is_intersecting_used_memregions prog_header memory_regions =
     (if p_memsz prog_header = 0 then ret True
      else
        iterate (\<lambda>memregion.
          if memregion = 0 then ret (Inr False)
          else
            bind (node memregion) (\<lambda>n.
            if mr_type n = SYSINFO_MT_USABLE then ret (Inl (mr_next n))
            else if mr_base_addr n < ucast (p_vaddr prog_header) then
              if mr_base_addr n + mr_size n > ucast (p_vaddr prog_header) then ret (Inr True)
              else ret (Inl (mr_next n))
            else
              if ucast (p_vaddr prog_header + p_memsz prog_header) > mr_base_addr n then ret (Inr True)
              else ret (Inl (mr_next n)))) memory_regions)"

definition append_memregion :: "elf_program_header_t \<Rightarrow> u32 \<Rightarrow> ('e machine, u32) cmd" where
  "append_memregion prog_header memory_regions =
     bind (static_alloc SIZEOF_MEMREGION) (\<lambda>memregion.
     bind (write_node memregion \<lparr>mr_next = 0, mr_base_addr = ucast (p_vaddr prog_header),
             mr_size = ucast (p_memsz prog_header), mr_type = SYSINFO_MT_ELF_EXECUTABLE,
             mr_is_volatile = False\<rparr>) (\<lambda>_.
     insert_sorted memory_regions memregion))"

text \<open>
  One round of the loop of \<open>elf_load\<close>. \<open>read\<close> reads the file, \<open>prog_at\<close> is the address of the
  local \<^verbatim>\<open>prog_header\<close>, which is looked at again after the segment has been read.
\<close>

type_synonym 'e reader = "u32 \<Rightarrow> u32 \<Rightarrow> u32 \<Rightarrow> ('e machine, fat_result_t) cmd"

definition load_segment :: "'e reader \<Rightarrow> u32 \<Rightarrow> elf_program_header_t \<Rightarrow> u32 \<Rightarrow> ('e machine, elf_result_t \<times> u32) cmd" where
  "load_segment read prog_at prog_header memory_regions =
     (if p_vaddr prog_header < REAL_MODE_LIMIT then ret (ELF_LOAD_ON_RESERVED_MEMORY, memory_regions)
      else
        bind (is_intersecting_used_memregions prog_header memory_regions) (\<lambda>intersecting.
        if intersecting then ret (ELF_LOAD_ON_RESERVED_MEMORY, memory_regions)
        else
          bind (append_memregion prog_header memory_regions) (\<lambda>memory_regions.
          bind (read (p_offset prog_header) (p_filesz prog_header) (p_vaddr prog_header)) (\<lambda>result.
          if result \<noteq> FAT_SUCCESS then ret (ELF_FAT_ERROR, memory_regions)
          else
            bind (gets (\<lambda>s. decode_program_header (mem s) prog_at)) (\<lambda>prog_header'.
            if p_memsz prog_header' > p_filesz prog_header' then
              bind (memset (p_vaddr prog_header + p_filesz prog_header') 0
                (p_memsz prog_header' - p_filesz prog_header')) (\<lambda>_.
              ret (ELF_SUCCESS, memory_regions))
            else ret (ELF_SUCCESS, memory_regions))))))"

definition load_round ::
  "'e reader \<Rightarrow> u32 \<Rightarrow> u16 \<Rightarrow> u16 \<Rightarrow> u32 \<Rightarrow> u16 \<times> u32 \<Rightarrow> ('e machine, (u16 \<times> u32) + elf_result_t \<times> u32) cmd"
where
  "load_round read prog_at entry_count entry_size offset = (\<lambda>(i, memory_regions).
     if \<not> i < entry_count then ret (Inr (ELF_SUCCESS, memory_regions))
     else
       bind (lift_res (mul_u16 entry_size i)) (\<lambda>k.
       bind (read (offset + k) (ucast entry_size) prog_at) (\<lambda>result.
       if result \<noteq> FAT_SUCCESS then ret (Inr (ELF_FAT_ERROR, memory_regions))
       else
         bind (gets (\<lambda>s. decode_program_header (mem s) prog_at)) (\<lambda>prog_header.
         if p_type prog_header \<noteq> elf_program_header_type_value ELF_PT_LOAD then ret (Inl (i + 1, memory_regions))
         else
           bind (load_segment read prog_at prog_header memory_regions) (\<lambda>(result, memory_regions).
           if result \<noteq> ELF_SUCCESS then ret (Inr (result, memory_regions))
           else ret (Inl (i + 1, memory_regions)))))))"

definition elf_load :: "'e int13 \<Rightarrow> u32 \<Rightarrow> elf_t \<Rightarrow> u32 \<Rightarrow> ('e machine, elf_result_t \<times> u32) cmd" where
  "elf_load int13 prog_at elf memory_regions =
     bind (gets (\<lambda>s. decode_elf_header (mem s) (elf_header elf))) (\<lambda>header.
     iterate (load_round (fat_read int13 (elf_file elf)) prog_at (program_entry_count header)
       (program_entry_size header) (program_header_table header)) (0, memory_regions))"

section \<open>Structures in a file\<close>

text \<open>What the structures say is in the bytes they were read from, wherever they are in memory.\<close>

definition header_of :: "(nat \<Rightarrow> u8) \<Rightarrow> elf_header_t" where
  "header_of g = decode_elf_header (\<lambda>a. g (unat a)) 0"

definition program_header_of :: "(nat \<Rightarrow> u8) \<Rightarrow> nat \<Rightarrow> elf_program_header_t" where
  "program_header_of g off = decode_program_header (\<lambda>a. g (off + unat a)) 0"

lemma word_bytes:
  assumes "\<forall>i<n. m (a + of_nat i) = g i" and "unat (c :: u32) < n"
  shows "m (a + c) = g (unat c)"
  using assms(1) [rule_format, OF assms(2)] by simp

lemma decode_elf_header_bytes:
  assumes "\<forall>i<52. m (a + of_nat i) = g i"
  shows "decode_elf_header m a = header_of g"
  by (simp add: decode_elf_header_def header_of_def load16_def load32_def bytes_at_def add.assoc
      word_bytes [OF assms] word_bytes [OF assms, of 0, simplified] upt_rec)

lemma decode_program_header_bytes:
  assumes "\<forall>i<32. m (a + of_nat i) = g (off + i)"
  shows "decode_program_header m a = program_header_of g off"
  by (simp add: decode_program_header_def program_header_of_def load32_def add.assoc
      word_bytes [OF assms] word_bytes [OF assms, of 0, simplified])

section \<open>What is accepted\<close>

text \<open>The bytes of a file that \<open>validate_header\<close> lets through, by their offsets in the file.\<close>

definition lsb16 :: "(nat \<Rightarrow> u8) \<Rightarrow> nat \<Rightarrow> nat" where
  "lsb16 g k = unat (g k) + 256 * unat (g (k + 1))"

definition lsb32 :: "(nat \<Rightarrow> u8) \<Rightarrow> nat \<Rightarrow> nat" where
  "lsb32 g k = lsb16 g k + 65536 * lsb16 g (k + 2)"

definition accepted_elf :: "(nat \<Rightarrow> u8) \<Rightarrow> bool" where
  "accepted_elf g \<longleftrightarrow> g 0 = 0x7F \<and> g 1 = 0x45 \<and> g 2 = 0x4C \<and> g 3 = 0x46 \<and> g 4 = 1
     \<and> lsb16 g 18 \<in> {3, 18} \<and> lsb16 g 16 = 2 \<and> lsb16 g 44 \<noteq> 0 \<and> lsb32 g 28 \<noteq> 0 \<and> lsb32 g 24 \<noteq> 0"

lemma header_of_fields:
  "unat (eh_machine (header_of g)) = lsb16 g 18" "unat (eh_type (header_of g)) = lsb16 g 16"
  "unat (program_entry_count (header_of g)) = lsb16 g 44" "unat (program_entry_size (header_of g)) = lsb16 g 42"
  "unat (program_header_table (header_of g)) = lsb32 g 28" "unat (entry_point (header_of g)) = lsb32 g 24"
  "efi_class (header_of g) = g 4" "eh_magic (header_of g) = [g 0, g 1, g 2, g 3]"
  by (simp_all add: header_of_def decode_elf_header_def unat_load16 unat_load32 lsb16_def lsb32_def bytes_at_def upt_rec)

lemma validate_header_total:
  "\<exists>r. validate_header (header_of g) = Inr r \<and> r \<noteq> ELF_FAT_ERROR \<and> r \<noteq> ELF_LOAD_ON_RESERVED_MEMORY"
  by (auto simp: validate_header_def ELF_MAGIC_def header_of_fields streq_cstr)

lemma validate_header_accepts: "validate_header (header_of g) = Inr ELF_SUCCESS \<longleftrightarrow> accepted_elf g"
proof -
  have magic: "streq ELF_MAGIC (eh_magic (header_of g) @ [0]) = Inr (g 0 = 0x7F \<and> g 1 = 0x45 \<and> g 2 = 0x4C \<and> g 3 = 0x46)"
    by (auto simp: header_of_fields ELF_MAGIC_def)
  have eq: "x = y \<longleftrightarrow> unat x = unat y" for x y :: "'b::len word" by (simp add: word_unat_eq_iff)
  show ?thesis
    unfolding validate_header_def magic accepted_elf_def
    by (auto simp: header_of_fields eq [of "eh_machine _"] eq [of "eh_type _"] eq [of "program_entry_count _"]
        eq [of "program_header_table _"] eq [of "entry_point _"])
qed

end
