(* ===== verification/Elf_Load.thy ===== *)
theory Elf_Load
  imports Elf
begin

text \<open>
  What \<open>elf_load\<close> does: the overlap test against the memory map, and the loop over the program
  headers. Inside the locale \<open>file_reader\<close> the loop is proved correct for any way of reading the
  file that delivers its bytes; the interpretation gives \<open>fat_read\<close>.
\<close>

section \<open>The overlap test\<close>

definition segment_region :: "elf_program_header_t \<Rightarrow> region" where
  "segment_region p = \<lparr>base = ucast (p_vaddr p), extent = ucast (p_memsz p), kind = SYSINFO_MT_ELF_EXECUTABLE, volatile = False\<rparr>"

lemma segment_region_simps [simp]:
  "base (segment_region p) = ucast (p_vaddr p)" "extent (segment_region p) = ucast (p_memsz p)"
  "kind (segment_region p) = SYSINFO_MT_ELF_EXECUTABLE"
  by (simp_all add: segment_region_def)

text \<open>The segment ends inside the 32-bit address space.\<close>

definition no_wrap :: "elf_program_header_t \<Rightarrow> bool" where
  "no_wrap p \<longleftrightarrow> unat (p_vaddr p) + unat (p_memsz p) < 2 ^ 32"

lemma limit_segment: "no_wrap p \<Longrightarrow> limit (segment_region p) = ucast (p_vaddr p + p_memsz p)"
  by (simp add: limit_def word_unat_eq_iff unat_word_ariths no_wrap_def)

lemma unat_limit_segment: "unat (limit (segment_region p)) = unat (p_vaddr p) + unat (p_memsz p)"
  using u32_bound [of "p_vaddr p"] u32_bound [of "p_memsz p"] by (simp add: limit_def unat_word_ariths)

definition overlaps :: "region \<Rightarrow> region \<Rightarrow> bool" where
  "overlaps r w \<longleftrightarrow> base w < limit r \<and> base r < limit w"

lemma overlaps_covers:
  assumes "proper r" "proper w"
  shows "overlaps r w \<longleftrightarrow> (\<exists>a. covers a r \<and> covers a w)"
proof
  assume "overlaps r w"
  then have "covers (max (base r) (base w)) r \<and> covers (max (base r) (base w)) w"
    using assms by (auto simp: overlaps_def covers_def proper_def max_def)
  then show "\<exists>a. covers a r \<and> covers a w" by blast
qed (auto simp: overlaps_def covers_def)

text \<open>What the loop asks of one region: the end of the segment is a 32-bit sum there.\<close>

definition met :: "elf_program_header_t \<Rightarrow> region \<Rightarrow> bool" where
  "met ph w \<longleftrightarrow> kind w \<noteq> SYSINFO_MT_USABLE \<and>
     (if base w < ucast (p_vaddr ph) then ucast (p_vaddr ph) < limit w else base w < ucast (p_vaddr ph + p_memsz ph))"

lemma intersecting_lseg:
  assumes "lseg (region_heap s) p xs 0" and "p_memsz ph \<noteq> 0"
  shows "is_intersecting_used_memregions ph p s = Some (Inr (\<exists>w \<in> snd ` set xs. met ph w), s)"
proof -
  let ?body = "\<lambda>memregion.
          if memregion = 0 then ret (Inr False)
          else
            bind (node memregion) (\<lambda>n.
            if mr_type n = SYSINFO_MT_USABLE then ret (Inl (mr_next n))
            else if mr_base_addr n < ucast (p_vaddr ph) then
              if mr_base_addr n + mr_size n > ucast (p_vaddr ph) then ret (Inr True)
              else ret (Inl (mr_next n))
            else
              if ucast (p_vaddr ph + p_memsz ph) > mr_base_addr n then ret (Inr True)
              else ret (Inl (mr_next n)))"
  have "iterate ?body p s = Some (Inr (\<exists>w \<in> snd ` set xs. met ph w), s)"
    using assms(1)
  proof (induction xs arbitrary: p)
    case Nil
    then show ?case by (subst iterate_unfold) (simp add: exec_bind exec_basic)
  next
    case (Cons x xs)
    then obtain r where p: "p = fst x" "p \<noteq> 0" "region_heap s p = Some (as_node r (snd x))" and r: "lseg (region_heap s) r xs 0"
      by auto
    have node: "node (fst x) s = Some (Inr (as_node r (snd x)), s)"
      using p(1,3) by (simp add: node_def exec_bind exec_basic)
    have hit: "?body p s = Some (Inr (if met ph (snd x) then Inr True else Inl r), s)"
      using p by (auto simp: exec_bind node exec_basic met_def limit_def)
    show ?case
      using hit Cons.IH [OF r] by (subst iterate_unfold) (auto simp: exec_bind exec_basic)
  qed
  then show ?thesis using assms(2) by (simp add: is_intersecting_used_memregions_def)
qed

lemma tiled_proper: "tiled zs \<Longrightarrow> z \<in> set zs \<Longrightarrow> proper z"
  by (induction zs) (auto simp: tiled_Cons)

lemma intersecting_met:
  assumes "regions_at s head zs" and "p_memsz ph \<noteq> 0"
  shows "is_intersecting_used_memregions ph head s = Some (Inr (\<exists>w \<in> set zs. met ph w), s)"
proof -
  from assms(1) obtain xs where "lseg (region_heap s) head xs 0" "map snd xs = zs"
    by (auto simp: regions_at_def segment_def)
  with intersecting_lseg [OF this(1) assms(2)] show ?thesis by (simp flip: set_map)
qed

lemma met_overlaps:
  assumes "p_memsz ph \<noteq> 0" and "no_wrap ph" and "proper w"
  shows "met ph w \<longleftrightarrow> kind w \<noteq> SYSINFO_MT_USABLE \<and> overlaps (segment_region ph) w"
proof -
  have "base (segment_region ph) < limit (segment_region ph)"
    using assms(1) by (auto simp: word_less_nat_alt unat_limit_segment unat_gt_0)
  then show ?thesis
    using assms(3) by (auto simp: met_def overlaps_def proper_def limit_segment [OF assms(2)])
qed

lemma intersecting_run:
  assumes "regions_at s head zs" and "tiled zs" and "p_memsz ph \<noteq> 0" and "no_wrap ph"
  shows "is_intersecting_used_memregions ph head s =
    Some (Inr (\<exists>w \<in> set zs. kind w \<noteq> SYSINFO_MT_USABLE \<and> overlaps (segment_region ph) w), s)"
  using intersecting_met [OF assms(1,3)] met_overlaps [OF assms(3,4)] tiled_proper [OF assms(2)] by auto

section \<open>Segments inside usable memory\<close>

definition inside_usable :: "region list \<Rightarrow> region \<Rightarrow> bool" where
  "inside_usable zs r \<longleftrightarrow> (\<exists>u\<in>set zs. kind u = SYSINFO_MT_USABLE \<and> base u < base r \<and> limit r < limit u)"

definition apart :: "region \<Rightarrow> region \<Rightarrow> bool" where
  "apart r r' \<longleftrightarrow> limit r < base r' \<or> limit r' < base r"

lemma inside_usable_free:
  assumes t: "tiled (us @ u # vs)" and r: "kind u = SYSINFO_MT_USABLE" "base u < base r" "limit r < limit u"
  shows "\<not> (\<exists>w \<in> set (us @ u # vs). kind w \<noteq> SYSINFO_MT_USABLE \<and> overlaps r w)"
proof -
  have "limit w \<le> base u" if "w \<in> set us" for w
  proof -
    have "us \<noteq> []" using that by auto
    with tiled_bounds [of us w] t that show ?thesis by (auto simp: tiled_append)
  qed
  moreover have "limit u \<le> base w" if "w \<in> set vs" for w
  proof -
    have "vs \<noteq> []" using that by auto
    with tiled_bounds [of vs w] t that show ?thesis by (auto simp: tiled_append tiled_Cons)
  qed
  ultimately show ?thesis using r by (fastforce simp: overlaps_def)
qed

lemma inside_usable_kept:
  assumes "inside_usable (us @ u # vs) r'" and r: "base u < base r" "limit r < limit u" and "apart r r'" and "proper r'"
  shows "inside_usable (us @ u\<lparr>extent := base r - base u\<rparr> # r # u\<lparr>base := limit r, extent := limit u - limit r\<rparr> # vs) r'"
proof -
  from assms(1) obtain w where w: "w \<in> set (us @ u # vs)" "kind w = SYSINFO_MT_USABLE" "base w < base r'" "limit r' < limit w"
    by (auto simp: inside_usable_def)
  show ?thesis
  proof (cases "w \<in> set (us @ vs)")
    case True
    with w show ?thesis by (auto simp: inside_usable_def)
  next
    case False
    then have "w = u" using w(1) by auto
    with w assms(4,5) show ?thesis by (auto simp: inside_usable_def apart_def proper_def)
  qed
qed

section \<open>Memory around a load\<close>

text \<open>
  Outside \<open>D\<close> and the area of the extended stack no byte changed; the stack top and the output
  are the same.
\<close>

definition touched :: "(u32 \<Rightarrow> bool) \<Rightarrow> 'e machine \<Rightarrow> 'e machine \<Rightarrow> bool" where
  "touched D s t \<longleftrightarrow> ext_stack_top t = ext_stack_top s \<and> int10_log t = int10_log s
     \<and> (\<forall>x. \<not> D x \<and> (unat x < 0x40000 \<or> 0x80000 \<le> unat x) \<longrightarrow> mem t x = mem s x)"

lemma touched_refl: "touched D s s"
  by (simp add: touched_def)

lemma touched_trans: "touched D s t \<Longrightarrow> touched D' t u \<Longrightarrow> touched (\<lambda>x. D x \<or> D' x) s u"
  by (auto simp: touched_def)

lemma touched_mono: "touched D s t \<Longrightarrow> (\<And>x. D x \<Longrightarrow> D' x) \<Longrightarrow> touched D' s t"
  by (auto simp: touched_def)

lemma touched_mem: "touched D s t \<Longrightarrow> \<not> D x \<Longrightarrow> unat x < 0x40000 \<or> 0x80000 \<le> unat x \<Longrightarrow> mem t x = mem s x"
  by (simp add: touched_def)

lemma touched_nodes: "only_nodes k s t \<Longrightarrow> touched D s t"
  by (simp add: touched_def only_nodes_frame)

lemma touched_filled:
  assumes "filled b n g k s t" and "ext_stack_ok s" and "0x40000 + k \<le> unat (ext_stack_top s)"
  shows "touched (in_range b n) s t"
proof -
  from assms(1) obtain e m where t: "t = s\<lparr>bios_env := e, mem := m\<rparr>"
    and m: "\<And>x. \<not> in_range b n x \<Longrightarrow> \<not> (unat x < unat (ext_stack_top s) \<and> unat (ext_stack_top s) \<le> unat x + k) \<Longrightarrow> m x = mem s x"
    unfolding filled_def by blast
  have top: "unat (ext_stack_top s) \<le> 0x80000" using assms(2) by (simp add: ext_stack_ok_def memory_map word_le_nat_alt)
  have "m x = mem s x" if "\<not> in_range b n x" "unat x < 0x40000 \<or> 0x80000 \<le> unat x" for x
    using that assms(3) top by (intro m) auto
  then show ?thesis by (simp add: touched_def t)
qed

lemma regions_at_frame:
  "region_heap t = region_heap s \<Longrightarrow> static_stack_top t = static_stack_top s \<Longrightarrow> regions_at t head zs = regions_at s head zs"
  by (simp add: regions_at_def)

lemma node_room_frame: "static_stack_top t = static_stack_top s \<Longrightarrow> node_room t k = node_room s k"
  by (simp add: node_room_def)

lemma decode_program_header_cong:
  assumes "\<And>i. i < 32 \<Longrightarrow> m (a + of_nat i) = m' (a + of_nat i)"
  shows "decode_program_header m a = decode_program_header m' a"
proof -
  have "decode_program_header m a = program_header_of (\<lambda>k. m' (a + of_nat k)) 0"
    by (rule decode_program_header_bytes) (simp add: assms)
  also have "\<dots> = decode_program_header m' a" by (rule decode_program_header_bytes [symmetric]) simp
  finally show ?thesis .
qed

text \<open>A segment as it should be in memory: its bytes of the file, then zeroes.\<close>

definition segment_loaded :: "(nat \<Rightarrow> u8) \<Rightarrow> elf_program_header_t \<Rightarrow> memory \<Rightarrow> bool" where
  "segment_loaded g p m \<longleftrightarrow> (\<forall>i < unat (p_memsz p). m (p_vaddr p + of_nat i)
     = (if i < unat (p_filesz p) then g (unat (p_offset p) + i) else 0))"

abbreviation in_segment :: "elf_program_header_t \<Rightarrow> u32 \<Rightarrow> bool" where
  "in_segment p \<equiv> in_range (p_vaddr p) (unat (p_memsz p))"

lemma append_memregion_add: "append_memregion p head = add_region head (segment_region p)"
  by (simp add: append_memregion_def add_region_def as_node_def segment_region_def)

text \<open>A segment that can be loaded from a file that \<open>holds\<close> the ranges of bytes it says.\<close>

definition segment_fits :: "(nat \<Rightarrow> nat \<Rightarrow> bool) \<Rightarrow> elf_program_header_t \<Rightarrow> bool" where
  "segment_fits holds p \<longleftrightarrow> REAL_MODE_LIMIT \<le> p_vaddr p \<and> p_memsz p \<noteq> 0 \<and> p_filesz p \<le> p_memsz p \<and> no_wrap p
     \<and> holds (unat (p_offset p)) (unat (p_filesz p))"

text \<open>The program headers from number \<open>k\<close> on that are to be loaded.\<close>

definition load_headers :: "(nat \<Rightarrow> u8) \<Rightarrow> nat \<Rightarrow> nat \<Rightarrow> nat \<Rightarrow> elf_program_header_t list" where
  "load_headers byte off k n =
     filter (\<lambda>p. p_type p = elf_program_header_type_value ELF_PT_LOAD) (map (\<lambda>i. program_header_of byte (off + 32 * i)) [k..<n])"

text \<open>They can be placed: each strictly inside a usable region, and apart from each other.\<close>

definition placeable :: "(nat \<Rightarrow> nat \<Rightarrow> bool) \<Rightarrow> region list \<Rightarrow> elf_program_header_t list \<Rightarrow> bool" where
  "placeable holds zs ps \<longleftrightarrow> (\<forall>p\<in>set ps. segment_fits holds p \<and> inside_usable zs (segment_region p))
     \<and> sorted_wrt (\<lambda>p q. apart (segment_region p) (segment_region q)) ps"

text \<open>
  What loading the segments \<open>ps\<close> into the map \<open>zs\<close> from \<open>s\<close> leads to: the map with them marked,
  the segments in memory, and nothing touched but them and the buffer for the program headers.
\<close>

definition loads ::
  "(nat \<Rightarrow> u8) \<Rightarrow> u32 \<Rightarrow> elf_program_header_t list \<Rightarrow> region list \<Rightarrow> 'e machine \<Rightarrow> u32 \<Rightarrow> region list \<Rightarrow> 'e machine \<Rightarrow> bool"
where
  "loads byte prog_at ps zs s head' zs' t \<longleftrightarrow> regions_at t head' zs' \<and> memory_layout zs'
    \<and> (\<forall>a. kind_at zs' a = (if \<exists>p\<in>set ps. covers a (segment_region p) then Some SYSINFO_MT_ELF_EXECUTABLE else kind_at zs a))
    \<and> (zs \<noteq> [] \<longrightarrow> zs' \<noteq> [] \<and> base (hd zs') = base (hd zs) \<and> kind (hd zs') = kind (hd zs))
    \<and> (\<forall>p\<in>set ps. segment_loaded byte p (mem t))
    \<and> touched (\<lambda>x. in_range prog_at 32 x \<or> (\<exists>p\<in>set ps. in_segment p x)) s t"

lemma loads_Nil: "regions_at s head zs \<Longrightarrow> memory_layout zs \<Longrightarrow> loads byte prog_at [] zs s head zs s"
  using touched_refl by (simp add: loads_def)

lemma loads_header: "touched (in_range prog_at 32) s t \<Longrightarrow> loads byte prog_at ps zs t head' zs' u \<Longrightarrow> loads byte prog_at ps zs s head' zs' u"
  using touched_mono [OF touched_trans] by (fastforce simp: loads_def)

section \<open>Loading through a reader of the file\<close>

text \<open>
  What the loader relies on: on a state that is \<open>ready\<close>, reading a range that the file \<open>holds\<close> to a
  place clear of the extended stack succeeds and fills it with the bytes of the file.
\<close>

locale file_reader =
  fixes read :: "'e reader"
    and ready :: "'e machine \<Rightarrow> bool"
    and holds :: "nat \<Rightarrow> nat \<Rightarrow> bool"
    and byte :: "nat \<Rightarrow> u8"
    and scratch :: nat
  assumes read_fills: "ready s \<Longrightarrow> holds (unat off) (unat len) \<Longrightarrow> clear_of_stack b (unat len) s \<Longrightarrow>
      unat b + unat len < 2 ^ 32 \<Longrightarrow>
      \<exists>t. read off len b s = Some (Inr FAT_SUCCESS, t) \<and> filled b (unat len) (\<lambda>i. byte (unat off + i)) scratch s t"
    and ready_top: "ready s \<Longrightarrow> ext_stack_top t = ext_stack_top s \<Longrightarrow> ready t"
    and ready_room: "ready s \<Longrightarrow> ext_stack_ok s \<and> 0x40000 + scratch \<le> unat (ext_stack_top s)"
begin

lemma ready_touched: "ready s \<Longrightarrow> touched D s t \<Longrightarrow> ready t"
  using ready_top by (simp add: touched_def)

text \<open>A read, with its frame in terms of \<open>touched\<close>.\<close>

lemma read_run:
  assumes "ready s" and "holds (unat off) (unat len)" and "unat b + unat len < 2 ^ 32"
    and "unat b + unat len \<le> 0x40000 \<or> 0x80000 \<le> unat b"
  shows "\<exists>t. read off len b s = Some (Inr FAT_SUCCESS, t) \<and> (\<forall>i < unat len. mem t (b + of_nat i) = byte (unat off + i))
    \<and> touched (in_range b (unat len)) s t \<and> region_heap t = region_heap s \<and> static_stack_top t = static_stack_top s"
proof -
  have room: "ext_stack_ok s" "0x40000 + scratch \<le> unat (ext_stack_top s)" using ready_room [OF assms(1)] by simp_all
  then have "clear_of_stack b (unat len) s"
    using assms(3,4) by (auto simp: clear_of_stack_def ext_stack_ok_def memory_map word_le_nat_alt)
  from read_fills [OF assms(1,2) this assms(3)] obtain t where
    "read off len b s = Some (Inr FAT_SUCCESS, t)" and fl: "filled b (unat len) (\<lambda>i. byte (unat off + i)) scratch s t" by blast
  with touched_filled [OF fl room] filled_frame [OF fl] show ?thesis by (auto simp: filled_def)
qed

lemma segment_high: "segment_fits holds p \<Longrightarrow> in_segment p x \<Longrightarrow> 0x80000 \<le> unat x"
  by (auto simp: segment_fits_def no_wrap_def in_range_nat REAL_MODE_LIMIT_val word_le_nat_alt)

lemma proper_segment: "segment_fits holds p \<Longrightarrow> proper (segment_region p)"
  by (simp add: segment_fits_def proper_def word_less_nat_alt unat_limit_segment unat_gt_0)

text \<open>A write high in memory leaves the program header alone; zeroes behind the bytes complete a segment.\<close>

lemma header_untouched:
  assumes "unat prog_at + 32 \<le> 0x40000" and "0x80000 \<le> unat b" "unat b + n < 2 ^ 32" and tt: "touched (in_range b n) s t"
  shows "decode_program_header (mem t) prog_at = decode_program_header (mem s) prog_at"
proof (rule decode_program_header_cong)
  fix i :: nat assume "i < 32"
  then have u: "unat (prog_at + of_nat i) = unat prog_at + i" using assms(1) by (simp add: unat_word_ariths unat_of_nat)
  show "mem t (prog_at + of_nat i) = mem s (prog_at + of_nat i)"
    by (rule touched_mem [OF tt]) (use u assms(1-3) \<open>i < 32\<close> in \<open>auto simp: in_range_nat\<close>)
qed

lemma zeroes_complete:
  assumes fits: "segment_fits holds p" and data: "\<And>i. i < unat (p_filesz p) \<Longrightarrow> mem t (p_vaddr p + of_nat i) = byte (unat (p_offset p) + i)"
    and tt: "touched (in_range (p_vaddr p) (unat (p_filesz p))) s t"
  defines "t' \<equiv> if p_memsz p > p_filesz p
    then t\<lparr>mem := blit (p_vaddr p + p_filesz p) (unat (p_memsz p - p_filesz p)) (\<lambda>_. 0) (mem t)\<rparr> else t"
  shows "segment_loaded byte p (mem t')" "touched (in_segment p) s t'"
proof -
  let ?v = "unat (p_vaddr p)" and ?f = "unat (p_filesz p)" and ?m = "unat (p_memsz p)"
  let ?b = "p_vaddr p + p_filesz p" and ?n = "unat (p_memsz p - p_filesz p)"
  have le: "?f \<le> ?m" and nw: "?v + ?m < 2 ^ 32"
    using fits by (auto simp: segment_fits_def no_wrap_def word_le_nat_alt)
  have n: "?n = ?m - ?f" using le by (simp add: unat_sub word_le_nat_alt)
  have b: "unat ?b = ?v + ?f" using le nw by (simp add: unat_word_ariths)
  have rest: "in_range ?b ?n x \<longleftrightarrow> ?v + ?f \<le> unat x \<and> unat x < ?v + ?m" for x
    using le nw by (subst in_range_nat) (simp_all add: b n)
  have mt: "mem t' x = (if ?v + ?f \<le> unat x \<and> unat x < ?v + ?m then 0 else mem t x)" for x
    by (auto simp: t'_def rest blit_in blit_out not_less word_less_nat_alt)
  show "segment_loaded byte p (mem t')"
    unfolding segment_loaded_def
  proof (intro allI impI)
    fix i assume "i < ?m"
    then have "unat (p_vaddr p + of_nat i) = ?v + i" using nw by (intro unat_add_of_nat) simp_all
    with \<open>i < ?m\<close> show "mem t' (p_vaddr p + of_nat i) = (if i < ?f then byte (unat (p_offset p) + i) else 0)"
      by (simp add: mt data)
  qed
  have "touched (in_segment p) s t" using tt by (rule touched_mono) (auto simp: in_range_def intro: less_le_trans [OF _ le])
  moreover have "touched (in_segment p) t t'"
  proof -
    have "mem t' x = mem t x" if "\<not> in_segment p x" for x using that nw by (auto simp: mt in_range_nat)
    then show ?thesis by (simp add: touched_def) (simp add: t'_def)
  qed
  ultimately show "touched (in_segment p) s t'" by (rule touched_mono [OF touched_trans]) simp
qed

text \<open>The two writes of a segment: the read of its bytes and the zeroes behind them.\<close>

lemma segment_written:
  assumes rdy: "ready s" and fits: "segment_fits holds p" and low: "unat prog_at + 32 \<le> 0x40000"
    and dec: "decode_program_header (mem s) prog_at = p"
  shows "\<exists>t. bind (read (p_offset p) (p_filesz p) (p_vaddr p)) (\<lambda>result.
        if result \<noteq> FAT_SUCCESS then ret (ELF_FAT_ERROR, head)
        else bind (gets (\<lambda>s. decode_program_header (mem s) prog_at)) (\<lambda>p'.
          if p_memsz p' > p_filesz p' then
            bind (memset (p_vaddr p + p_filesz p') 0 (p_memsz p' - p_filesz p')) (\<lambda>_. ret (ELF_SUCCESS, head))
          else ret (ELF_SUCCESS, head))) s = Some (Inr (ELF_SUCCESS, head), t)
    \<and> segment_loaded byte p (mem t) \<and> touched (in_segment p) s t
    \<and> region_heap t = region_heap s \<and> static_stack_top t = static_stack_top s"
proof -
  let ?v = "unat (p_vaddr p)" and ?f = "unat (p_filesz p)" and ?m = "unat (p_memsz p)"
  have le: "?f \<le> ?m" and nw: "?v + ?m < 2 ^ 32" and hi: "0x80000 \<le> ?v"
    using fits by (auto simp: segment_fits_def no_wrap_def word_le_nat_alt REAL_MODE_LIMIT_val)
  have holds: "holds (unat (p_offset p)) ?f" using fits by (simp add: segment_fits_def)
  have "?v + ?f < 2 ^ 32" "?v + ?f \<le> 0x40000 \<or> 0x80000 \<le> ?v" using le nw hi by simp_all
  from read_run [OF rdy holds this] obtain t where
    run: "read (p_offset p) (p_filesz p) (p_vaddr p) s = Some (Inr FAT_SUCCESS, t)"
    and data: "\<And>i. i < ?f \<Longrightarrow> mem t (p_vaddr p + of_nat i) = byte (unat (p_offset p) + i)"
    and tt: "touched (in_range (p_vaddr p) ?f) s t" and fr: "region_heap t = region_heap s" "static_stack_top t = static_stack_top s"
    by blast
  have dec': "decode_program_header (mem t) prog_at = p"
    using header_untouched [OF low hi _ tt] le nw dec by simp
  define t' where "t' = (if p_memsz p > p_filesz p
    then t\<lparr>mem := blit (p_vaddr p + p_filesz p) (unat (p_memsz p - p_filesz p)) (\<lambda>_. 0) (mem t)\<rparr> else t)"
  have "segment_loaded byte p (mem t')" "touched (in_segment p) s t'"
    unfolding t'_def by (rule zeroes_complete [OF fits data tt]; assumption)+
  moreover have "region_heap t' = region_heap s" "static_stack_top t' = static_stack_top s" using fr by (simp_all add: t'_def)
  moreover have "bind (read (p_offset p) (p_filesz p) (p_vaddr p)) (\<lambda>result.
        if result \<noteq> FAT_SUCCESS then ret (ELF_FAT_ERROR, head)
        else bind (gets (\<lambda>s. decode_program_header (mem s) prog_at)) (\<lambda>p'.
          if p_memsz p' > p_filesz p' then
            bind (memset (p_vaddr p + p_filesz p') 0 (p_memsz p' - p_filesz p')) (\<lambda>_. ret (ELF_SUCCESS, head))
          else ret (ELF_SUCCESS, head))) s = Some (Inr (ELF_SUCCESS, head), t')"
    by (rule bind_run, rule run)
      (simp add: exec_bind exec_basic dec' memset_def memset_mem_blit t'_def)
  ultimately show ?thesis by blast
qed

lemma load_segment_run:
  assumes rdy: "ready s" and fits: "segment_fits holds p" and low: "unat prog_at + 32 \<le> 0x40000"
    and dec: "decode_program_header (mem s) prog_at = p"
    and reg: "regions_at s head zs" and lay: "memory_layout zs" and room: "node_room s (length zs + 3 + l)"
    and ins: "inside_usable zs (segment_region p)"
  shows "\<exists>t head' zs'. load_segment read prog_at p head s = Some (Inr (ELF_SUCCESS, head'), t)
    \<and> regions_at t head' zs' \<and> memory_layout zs' \<and> length zs' = length zs + 2 \<and> node_room t l
    \<and> (\<forall>a. kind_at zs' a = (if covers a (segment_region p) then Some SYSINFO_MT_ELF_EXECUTABLE else kind_at zs a))
    \<and> (\<forall>r. inside_usable zs r \<and> apart (segment_region p) r \<and> proper r \<longrightarrow> inside_usable zs' r)
    \<and> (zs \<noteq> [] \<longrightarrow> zs' \<noteq> [] \<and> base (hd zs') = base (hd zs) \<and> kind (hd zs') = kind (hd zs))
    \<and> segment_loaded byte p (mem t) \<and> touched (in_segment p) s t"
proof -
  let ?r = "segment_region p"
  from ins obtain us u vs where zs: "zs = us @ u # vs" and u: "kind u = SYSINFO_MT_USABLE" "base u < base ?r" "limit ?r < limit u"
    unfolding inside_usable_def by (metis split_list)
  have pr: "proper ?r" by (rule proper_segment [OF fits])
  have "node_room s (length vs + 3)" using room by (auto simp: node_room_def zs intro: room_mono)
  moreover have "kind u < kind ?r" by (simp add: u(1) usable_below_program)
  ultimately obtain head' t1 zs' where add: "add_region head ?r s = Some (Inr head', t1)" and t1: "regions_at t1 head' zs'"
      "only_nodes (length vs + 3) s t1" and lay': "memory_layout zs'"
      and zs': "zs' = us @ u\<lparr>extent := base ?r - base u\<rparr> # ?r # u\<lparr>base := limit ?r, extent := limit u - limit ?r\<rparr> # vs"
      and k: "\<forall>a. kind_at zs' a = (if covers a ?r then Some (kind ?r) else kind_at (us @ u # vs) a)"
    using node_list.add_inside [OF reg [unfolded zs] lay [unfolded zs] _ pr u(2,3)] by blast
  have nz: "p_memsz p \<noteq> 0" "no_wrap p" and hi: "\<not> p_vaddr p < REAL_MODE_LIMIT"
    using fits by (auto simp: segment_fits_def)
  have "\<not> (\<exists>w\<in>set zs. kind w \<noteq> SYSINFO_MT_USABLE \<and> overlaps ?r w)"
    unfolding zs by (rule inside_usable_free) (use lay u in \<open>simp_all add: memory_layout_def zs\<close>)
  then have free: "is_intersecting_used_memregions p head s = Some (Inr False, s)"
    using intersecting_run [OF reg _ nz] lay by (simp add: memory_layout_def)
  have tt1: "touched (\<lambda>_. False) s t1" by (rule touched_nodes [OF t1(2)])
  have "decode_program_header (mem t1) prog_at = p" using dec only_nodes_frame(1) [OF t1(2)] by simp
  from segment_written [OF ready_touched [OF rdy tt1] fits low this, of head'] obtain t where
    wr: "bind (read (p_offset p) (p_filesz p) (p_vaddr p)) (\<lambda>result.
        if result \<noteq> FAT_SUCCESS then ret (ELF_FAT_ERROR, head')
        else bind (gets (\<lambda>s. decode_program_header (mem s) prog_at)) (\<lambda>p'.
          if p_memsz p' > p_filesz p' then
            bind (memset (p_vaddr p + p_filesz p') 0 (p_memsz p' - p_filesz p')) (\<lambda>_. ret (ELF_SUCCESS, head'))
          else ret (ELF_SUCCESS, head'))) t1 = Some (Inr (ELF_SUCCESS, head'), t)"
    and ld: "segment_loaded byte p (mem t)" and tt: "touched (in_segment p) t1 t"
    and fr: "region_heap t = region_heap t1" "static_stack_top t = static_stack_top t1" by blast
  have "load_segment read prog_at p head s = Some (Inr (ELF_SUCCESS, head'), t)"
    unfolding load_segment_def append_memregion_add using hi
    by (simp only: if_False) (rule bind_run, rule free, simp only: if_False, rule bind_run, rule add, rule wr)
  moreover have "regions_at t head' zs'" using t1(1) regions_at_frame [OF fr] by simp
  moreover have "node_room t l"
  proof -
    have "node_room s (length vs + 3 + l)" using room by (auto simp: node_room_def zs intro: room_mono)
    from only_nodes_room [OF t1(2) this] show ?thesis by (simp add: node_room_frame [OF fr(2)])
  qed
  moreover have "touched (in_segment p) s t" by (rule touched_mono [OF touched_trans [OF tt1 tt]]) simp
  moreover have "inside_usable zs' r" if "inside_usable zs r" "apart ?r r" "proper r" for r
    unfolding zs' by (rule inside_usable_kept) (use that u zs in simp_all)
  moreover have "zs' \<noteq> [] \<and> base (hd zs') = base (hd zs) \<and> kind (hd zs') = kind (hd zs)"
    by (cases us) (simp_all add: zs zs')
  moreover have "length zs' = length zs + 2" by (simp add: zs zs')
  ultimately show ?thesis using lay' k ld zs by auto
qed

lemma in_segment_iff: "segment_fits holds p \<Longrightarrow> in_segment p x \<longleftrightarrow> unat (p_vaddr p) \<le> unat x \<and> unat x < unat (p_vaddr p) + unat (p_memsz p)"
  by (rule in_range_nat) (simp add: segment_fits_def no_wrap_def)

lemma apart_disjoint:
  assumes "apart (segment_region p) (segment_region q)" and "segment_fits holds p" "segment_fits holds q"
    and "in_segment p x"
  shows "\<not> in_segment q x"
  using assms by (auto simp: apart_def in_segment_iff word_less_nat_alt unat_limit_segment)

lemma segment_loaded_kept:
  assumes "segment_loaded byte p (mem s)" and "segment_fits holds p" and "touched D s t"
    and "\<And>x. in_segment p x \<Longrightarrow> \<not> D x"
  shows "segment_loaded byte p (mem t)"
  unfolding segment_loaded_def
proof (intro allI impI)
  fix i assume i: "i < unat (p_memsz p)"
  then have "unat (p_vaddr p + of_nat i) = unat (p_vaddr p) + i"
    using assms(2) by (intro unat_add_of_nat) (auto simp: segment_fits_def no_wrap_def)
  with i have "in_segment p (p_vaddr p + of_nat i)" by (simp add: in_segment_iff [OF assms(2)])
  then have "mem t (p_vaddr p + of_nat i) = mem s (p_vaddr p + of_nat i)"
    using assms(3,4) segment_high [OF assms(2)] by (intro touched_mem [OF assms(3)]) auto
  with assms(1) i show "mem t (p_vaddr p + of_nat i)
      = (if i < unat (p_filesz p) then byte (unat (p_offset p) + i) else 0)"
    by (simp add: segment_loaded_def)
qed

lemma load_headers_rec:
  "k < n \<Longrightarrow> load_headers byte off k n =
     (let p = program_header_of byte (off + 32 * k)
      in if p_type p = elf_program_header_type_value ELF_PT_LOAD then p # load_headers byte off (Suc k) n
         else load_headers byte off (Suc k) n)"
  by (simp add: load_headers_def upt_conv_Cons Let_def)

text \<open>A round reads its program header; what it does then.\<close>

lemma load_round_header:
  fixes n :: u16
  assumes rdy: "ready s" and low: "unat prog_at + 32 \<le> 0x40000" and k: "k < unat n"
    and tab: "unat off + 32 * unat n < 2 ^ 32" and holds: "holds (unat off + 32 * k) 32"
  shows "\<exists>t. decode_program_header (mem t) prog_at = program_header_of byte (unat off + 32 * k)
    \<and> touched (in_range prog_at 32) s t \<and> region_heap t = region_heap s \<and> static_stack_top t = static_stack_top s
    \<and> load_round read prog_at n 32 off (of_nat k, head) s =
      (let p = program_header_of byte (unat off + 32 * k)
       in if p_type p \<noteq> elf_program_header_type_value ELF_PT_LOAD then ret (Inl (of_nat k + 1, head))
          else bind (load_segment read prog_at p head) (\<lambda>(result, memory_regions).
            if result \<noteq> ELF_SUCCESS then ret (Inr (result, memory_regions))
            else ret (Inl (of_nat k + 1, memory_regions)))) t"
proof -
  have uk: "unat (of_nat k :: u16) = k" using k u16_bound [of n] by (simp add: unat_of_nat)
  have off: "unat (off + of_nat (32 * k)) = unat off + 32 * k"
    using tab k by (simp add: unat_word_ariths unat_of_nat)
  have mul: "mul_u16 32 (of_nat k) = Inr (of_nat (32 * k))"
  proof -
    have "ucast (of_nat k :: u16) = (of_nat k :: u32)"
      using k u16_bound [of n] by (simp add: word_unat_eq_iff unat_of_nat uk)
    then show ?thesis using k u16_bound [of n] by (simp add: mul_u16_def uk)
  qed
  have "unat prog_at + 32 < 2 ^ 32" using low by simp
  with read_run [OF rdy, of "off + of_nat (32 * k)" "32" prog_at] holds low off obtain t where
    run: "read (off + of_nat (32 * k)) 32 prog_at s = Some (Inr FAT_SUCCESS, t)"
    and data: "\<forall>i<32. mem t (prog_at + of_nat i) = byte (unat off + 32 * k + i)"
    and tt: "touched (in_range prog_at 32) s t" "region_heap t = region_heap s" "static_stack_top t = static_stack_top s"
    by auto
  have dec: "decode_program_header (mem t) prog_at = program_header_of byte (unat off + 32 * k)"
    by (rule decode_program_header_bytes [OF data])
  have lt: "(of_nat k :: u16) < n" using k by (simp add: word_less_nat_alt uk)
  have "load_round read prog_at n 32 off (of_nat k, head) s =
      (let p = program_header_of byte (unat off + 32 * k)
       in if p_type p \<noteq> elf_program_header_type_value ELF_PT_LOAD then ret (Inl (of_nat k + 1, head))
          else bind (load_segment read prog_at p head) (\<lambda>(result, memory_regions).
            if result \<noteq> ELF_SUCCESS then ret (Inr (result, memory_regions))
            else ret (Inl (of_nat k + 1, memory_regions)))) t"
    unfolding load_round_def using lt run
    by (simp add: exec_bind [of "lift_res _"] exec_bind [of "read _ _ _"] exec_bind [of "gets _"] exec_basic exec_lift_res
        mul dec Let_def)
  with dec tt show ?thesis by blast
qed

text \<open>One more segment in front, clear of the others and of the buffer.\<close>

lemma loads_segment:
  assumes ld: "segment_loaded byte p (mem s)" and fits: "segment_fits holds p" and tt: "touched (in_segment p) r s"
    and k: "\<forall>a. kind_at zs1 a = (if covers a (segment_region p) then Some SYSINFO_MT_ELF_EXECUTABLE else kind_at zs a)"
    and hd: "zs \<noteq> [] \<longrightarrow> zs1 \<noteq> [] \<and> base (hd zs1) = base (hd zs) \<and> kind (hd zs1) = kind (hd zs)"
    and rest: "loads byte prog_at ps zs1 s head' zs' t" and low: "unat prog_at + 32 \<le> 0x40000"
    and ps: "\<forall>q\<in>set ps. segment_fits holds q \<and> apart (segment_region p) (segment_region q)"
  shows "loads byte prog_at (p # ps) zs r head' zs' t"
proof -
  have t3: "touched (\<lambda>x. in_range prog_at 32 x \<or> (\<exists>q\<in>set ps. in_segment q x)) s t" using rest by (simp add: loads_def)
  have "segment_loaded byte p (mem t)"
  proof (rule segment_loaded_kept [OF ld fits t3])
    fix x assume x: "in_segment p x"
    have "\<not> in_range prog_at 32 x" using segment_high [OF fits x] low by (auto simp: in_range_nat)
    with ps apart_disjoint [OF _ fits _ x] show "\<not> (in_range prog_at 32 x \<or> (\<exists>q\<in>set ps. in_segment q x))" by blast
  qed
  moreover have "touched (\<lambda>x. in_range prog_at 32 x \<or> (\<exists>q\<in>set (p # ps). in_segment q x)) r t"
    by (rule touched_mono [OF touched_trans [OF tt t3]]) auto
  ultimately show ?thesis using rest k hd by (simp add: loads_def)
qed

lemma load_loop:
  fixes n :: u16
  assumes "k + j = unat n" and "ready s" and "regions_at s head zs" and "memory_layout zs"
    and "node_room s (j * (length zs + 2 * j + 3))"
    and "placeable holds zs (load_headers byte (unat off) k (unat n))"
    and low: "unat prog_at + 32 \<le> 0x40000" and tab: "unat off + 32 * unat n < 2 ^ 32"
    and holds: "\<forall>i < unat n. holds (unat off + 32 * i) 32"
  shows "\<exists>t head' zs'. iterate (load_round read prog_at n 32 off) (of_nat k, head) s = Some (Inr (ELF_SUCCESS, head'), t)
    \<and> loads byte prog_at (load_headers byte (unat off) k (unat n)) zs s head' zs' t"
  using assms(1-6)
proof (induction j arbitrary: k s head zs)
  case 0
  then have "\<not> of_nat k < n" by (simp add: word_less_nat_alt)
  then have "iterate (load_round read prog_at n 32 off) (of_nat k, head) s = Some (Inr (ELF_SUCCESS, head), s)"
    by (subst iterate_unfold) (simp add: load_round_def exec_bind exec_basic)
  moreover have "load_headers byte (unat off) k (unat n) = []" using 0 by (simp add: load_headers_def)
  ultimately show ?case using loads_Nil [OF 0(3,4)] by auto
next
  case (Suc j)
  let ?p = "program_header_of byte (unat off + 32 * k)" and ?L = "\<lambda>k. load_headers byte (unat off) k (unat n)"
  let ?run = "\<lambda>k head s. iterate (load_round read prog_at n 32 off) (of_nat k, head) s"
  have k: "k < unat n" using Suc.prems(1) by simp
  from load_round_header [OF Suc.prems(2) low k tab holds [rule_format, OF k], of head] obtain s1 where
    dec: "decode_program_header (mem s1) prog_at = ?p" and t1: "touched (in_range prog_at 32) s s1"
    and fr: "region_heap s1 = region_heap s" "static_stack_top s1 = static_stack_top s"
    and rnd: "load_round read prog_at n 32 off (of_nat k, head) s =
      (let p = ?p
       in if p_type p \<noteq> elf_program_header_type_value ELF_PT_LOAD then ret (Inl (of_nat k + 1, head))
          else bind (load_segment read prog_at p head) (\<lambda>(result, memory_regions).
            if result \<noteq> ELF_SUCCESS then ret (Inr (result, memory_regions))
            else ret (Inl (of_nat k + 1, memory_regions)))) s1" by blast
  have go: "?run k head s = ?run (Suc k) head2 s2"
    if "load_round read prog_at n 32 off (of_nat k, head) s = Some (Inr (Inl (of_nat (Suc k), head2)), s2)" for head2 s2
    by (subst iterate_unfold, rule bind_run, rule that) (simp del: of_nat_Suc)
  have suc: "(of_nat k :: u16) + 1 = of_nat (Suc k)" by (simp add: add.commute)
  have rdy1: "ready s1" by (rule ready_touched [OF Suc.prems(2) t1])
  have reg1: "regions_at s1 head zs" using Suc.prems(3) by (simp add: regions_at_frame [OF fr])
  show ?case
  proof (cases "p_type ?p = elf_program_header_type_value ELF_PT_LOAD")
    case False
    then have L: "?L k = ?L (Suc k)" using k by (simp add: load_headers_rec Let_def)
    have step: "load_round read prog_at n 32 off (of_nat k, head) s = Some (Inr (Inl (of_nat (Suc k), head)), s1)"
      using False unfolding rnd Let_def suc by (simp add: exec_basic)
    have "node_room s1 (j * (length zs + 2 * j + 3))"
      using Suc.prems(5) unfolding node_room_def fr(2) by (rule room_mono) (intro mult_le_mono, simp_all)
    from Suc.IH [OF _ rdy1 reg1 Suc.prems(4) this, of "Suc k"] Suc.prems(1,6) loads_header [OF t1]
    show ?thesis unfolding go [OF step] L by fastforce
  next
    case True
    then have L: "?L k = ?p # ?L (Suc k)" using k by (simp add: load_headers_rec Let_def)
    have fits: "segment_fits holds ?p" and ins: "inside_usable zs (segment_region ?p)"
      and ap: "\<forall>q\<in>set (?L (Suc k)). apart (segment_region ?p) (segment_region q)"
      and pl: "placeable holds zs (?L (Suc k))" using Suc.prems(6) by (simp_all add: L placeable_def)
    have "node_room s1 (length zs + 3 + j * (length zs + 2 + 2 * j + 3))"
      using Suc.prems(5) unfolding node_room_def fr(2)
      by (rule room_mono) (simp add: algebra_simps)
    from load_segment_run [OF rdy1 fits low dec reg1 Suc.prems(4) this ins] obtain s2 head1 zs1 where
      seg: "load_segment read prog_at ?p head s1 = Some (Inr (ELF_SUCCESS, head1), s2)" and reg2: "regions_at s2 head1 zs1"
      and lay1: "memory_layout zs1" and len1: "length zs1 = length zs + 2" and room2: "node_room s2 (j * (length zs + 2 + 2 * j + 3))"
      and k1: "\<forall>a. kind_at zs1 a = (if covers a (segment_region ?p) then Some SYSINFO_MT_ELF_EXECUTABLE else kind_at zs a)"
      and ins1: "\<forall>r. inside_usable zs r \<and> apart (segment_region ?p) r \<and> proper r \<longrightarrow> inside_usable zs1 r"
      and hd1: "zs \<noteq> [] \<longrightarrow> zs1 \<noteq> [] \<and> base (hd zs1) = base (hd zs) \<and> kind (hd zs1) = kind (hd zs)"
      and ld: "segment_loaded byte ?p (mem s2)" and t2: "touched (in_segment ?p) s1 s2" by blast
    have step: "load_round read prog_at n 32 off (of_nat k, head) s = Some (Inr (Inl (of_nat (Suc k), head1)), s2)"
      using True unfolding rnd Let_def suc by (simp add: exec_bind seg exec_basic del: of_nat_Suc)
    have "placeable holds zs1 (?L (Suc k))"
      using pl ap ins1 proper_segment unfolding placeable_def by blast
    moreover have "node_room s2 (j * (length zs1 + 2 * j + 3))" using room2 by (simp add: len1 algebra_simps)
    ultimately obtain t head' zs' where
      run: "?run (Suc k) head1 s2 = Some (Inr (ELF_SUCCESS, head'), t)" and l: "loads byte prog_at (?L (Suc k)) zs1 s2 head' zs' t"
      using Suc.IH [OF _ ready_touched [OF rdy1 t2] reg2 lay1, of "Suc k"] Suc.prems(1) by auto
    have "\<forall>q\<in>set (?L (Suc k)). segment_fits holds q \<and> apart (segment_region ?p) (segment_region q)"
      using pl ap by (simp add: placeable_def)
    with loads_header [OF t1 loads_segment [OF ld fits t2 k1 hd1 l low]] run show ?thesis
      unfolding go [OF step] L by blast
  qed
qed

end

section \<open>Files of the FAT file system\<close>

definition file_ready :: "'e int13 \<Rightarrow> fat_file_t \<Rightarrow> disk \<Rightarrow> 'e machine \<Rightarrow> bool" where
  "file_ready int13 fl d s \<longleftrightarrow>
     read_ready int13 (file_fat fl) d (read_scratch (file_fat fl)) s \<and> unat (dirent_cluster (file_entry fl)) < 2 ^ 28"

definition file_holds :: "fat_file_t \<Rightarrow> disk \<Rightarrow> nat \<Rightarrow> nat \<Rightarrow> bool" where
  "file_holds fl d off n \<longleftrightarrow> readable (file_fat fl) d (unat (dirent_cluster (file_entry fl))) off n
     \<and> (n \<noteq> 0 \<longrightarrow> round_fits (file_fat fl) off n) \<and> n + cluster_bytes (file_fat fl) < 2 ^ 32"

definition file_bytes :: "fat_file_t \<Rightarrow> disk \<Rightarrow> nat \<Rightarrow> u8" where
  "file_bytes fl d = file_byte (file_fat fl) d (unat (dirent_cluster (file_entry fl)))"

interpretation fat_file: file_reader "fat_read int13 fl" "file_ready int13 fl d" "file_holds fl d"
  "file_bytes fl d" "read_scratch (file_fat fl)" for int13 :: "'e int13" and fl d
proof
  fix s t :: "'e machine" and off len b :: u32
  show "file_ready int13 fl d s \<Longrightarrow> file_holds fl d (unat off) (unat len) \<Longrightarrow> clear_of_stack b (unat len) s \<Longrightarrow>
      unat b + unat len < 2 ^ 32 \<Longrightarrow> \<exists>t. fat_read int13 fl off len b s = Some (Inr FAT_SUCCESS, t)
        \<and> filled b (unat len) (\<lambda>i. file_bytes fl d (unat off + i)) (read_scratch (file_fat fl)) s t"
    using fat_read_run [of int13 fl d s off len b]
    by (simp add: file_ready_def file_holds_def file_bytes_def unat_gt_0 [symmetric] word_gt_0)
  show "file_ready int13 fl d s \<Longrightarrow> ext_stack_top t = ext_stack_top s \<Longrightarrow> file_ready int13 fl d t"
    by (simp add: file_ready_def read_ready_def ext_stack_ok_def)
  show "file_ready int13 fl d s \<Longrightarrow> ext_stack_ok s \<and> 0x40000 + read_scratch (file_fat fl) \<le> unat (ext_stack_top s)"
    by (simp add: file_ready_def read_ready_def)
qed

lemma elf_open_run:
  fixes int13 :: "'e int13"
  assumes "file_ready int13 fl d s" and "file_holds fl d 0 52" and "unat header_at + 52 \<le> 0x40000"
  shows "\<exists>t r. elf_open int13 header_at fl s = Some (Inr (r, \<lparr>elf_file = fl, elf_header = header_at\<rparr>), t)
    \<and> validate_header (header_of (file_bytes fl d)) = Inr r
    \<and> decode_elf_header (mem t) header_at = header_of (file_bytes fl d)
    \<and> touched (in_range header_at 52) s t \<and> region_heap t = region_heap s \<and> static_stack_top t = static_stack_top s"
proof -
  from fat_file.read_run [OF assms(1), of 0 52 header_at] assms(2,3) obtain t where
    run: "fat_read int13 fl 0 52 header_at s = Some (Inr FAT_SUCCESS, t)"
    and data: "\<forall>i<52. mem t (header_at + of_nat i) = file_bytes fl d i"
    and t: "touched (in_range header_at 52) s t" "region_heap t = region_heap s" "static_stack_top t = static_stack_top s"
    by auto
  note dec = decode_elf_header_bytes [OF data]
  obtain r where r: "validate_header (header_of (file_bytes fl d)) = Inr r" using validate_header_total by blast
  have "elf_open int13 header_at fl s = Some (Inr (r, \<lparr>elf_file = fl, elf_header = header_at\<rparr>), t)"
    by (simp add: elf_open_def SIZEOF_ELF_HEADER_def Let_def exec_bind run exec_basic exec_lift_res dec r)
  with r dec t show ?thesis by blast
qed

lemma elf_load_run:
  fixes int13 :: "'e int13"
  assumes "file_ready int13 (elf_file elf) d s" and "decode_elf_header (mem s) (elf_header elf) = h"
    and "program_entry_size h = 32"
    and "regions_at s head zs" and "memory_layout zs"
    and "node_room s (unat (program_entry_count h) * (length zs + 2 * unat (program_entry_count h) + 3))"
    and "placeable (file_holds (elf_file elf) d) zs
      (load_headers (file_bytes (elf_file elf) d) (unat (program_header_table h)) 0 (unat (program_entry_count h)))"
    and "unat prog_at + 32 \<le> 0x40000"
    and "unat (program_header_table h) + 32 * unat (program_entry_count h) < 2 ^ 32"
    and "\<forall>i < unat (program_entry_count h). file_holds (elf_file elf) d (unat (program_header_table h) + 32 * i) 32"
  shows "\<exists>t head' zs'. elf_load int13 prog_at elf head s = Some (Inr (ELF_SUCCESS, head'), t)
    \<and> regions_at t head' zs' \<and> memory_layout zs'
    \<and> (\<forall>a. kind_at zs' a = (if \<exists>p\<in>set (load_headers (file_bytes (elf_file elf) d) (unat (program_header_table h)) 0 (unat (program_entry_count h))).
           covers a (segment_region p) then Some SYSINFO_MT_ELF_EXECUTABLE else kind_at zs a))
    \<and> (zs \<noteq> [] \<longrightarrow> zs' \<noteq> [] \<and> base (hd zs') = base (hd zs) \<and> kind (hd zs') = kind (hd zs))
    \<and> (\<forall>p\<in>set (load_headers (file_bytes (elf_file elf) d) (unat (program_header_table h)) 0 (unat (program_entry_count h))).
           segment_loaded (file_bytes (elf_file elf) d) p (mem t))
    \<and> touched (\<lambda>x. in_range prog_at 32 x \<or> (\<exists>p\<in>set (load_headers (file_bytes (elf_file elf) d) (unat (program_header_table h)) 0 (unat (program_entry_count h))).
           in_segment p x)) s t"
  using fat_file.load_loop [of 0 "unat (program_entry_count h)" "program_entry_count h" int13 "elf_file elf" d s head zs
      "program_header_table h" prog_at, unfolded loads_def] assms
  by (simp add: elf_load_def exec_bind exec_basic)

section \<open>An image for witnesses\<close>

text \<open>A file of one program header, 0x1000 bytes to be loaded at 0x200000, 4 of them in the file.\<close>

definition elf_image :: "u8 list" where
  "elf_image =
    [0x7F, 0x45, 0x4C, 0x46, 1, 1, 1, 0, 0, 0, 0, 0, 0, 0, 0, 0, 2, 0, 3, 0, 1, 0, 0, 0, 0, 0, 0x20, 0, 0x34, 0, 0, 0,
     0, 0, 0, 0, 0, 0, 0, 0, 0x34, 0, 0x20, 0, 1, 0, 0, 0, 0, 0, 0, 0,
     1, 0, 0, 0, 0x54, 0, 0, 0, 0, 0, 0x20, 0, 0, 0, 0, 0, 4, 0, 0, 0, 0, 0x10, 0, 0, 0, 0, 0, 0, 0, 0, 0, 0,
     0xEB, 0xFE, 0x90, 0x90]"

definition elf_disk :: disk where
  "elf_disk l i = (if l = 1 then (if i = 3 then 3 else if i = 4 then 0xF0 else if i = 5 then 0xFF else 0)
     else if l = 33 \<and> i < length elf_image then elf_image ! i else 0)"

definition elf_file_entry :: fat_file_t where
  "elf_file_entry = \<lparr>file_fat = floppy, file_entry = second_dirent\<rparr>"

lemma floppy_cluster: "cluster_bytes floppy = 512"
  by (simp add: cluster_bytes_def floppy_fields)

text \<open>A file on the floppy that lies in one cluster.\<close>

lemma one_cluster_bytes:
  assumes "unat (dirent_cluster e) = c" and "2 \<le> c" and "i < 512"
  shows "file_bytes \<lparr>file_fat = floppy, file_entry = e\<rparr> d i = d (of_nat (31 + c)) i"
proof -
  have "cluster_sector floppy c = 31 + c" using assms(2) by (simp add: cluster_sector_def floppy_fields)
  with assms(1,3) show ?thesis
    by (simp add: file_bytes_def file_byte_def floppy_cluster disk_at_def floppy_fields del: of_nat_add)
qed

lemma one_cluster_holds:
  assumes "unat (dirent_cluster e) = c" and "2 \<le> c" "c < 1000" and "off + n < 512"
  shows "file_holds \<lparr>file_fat = floppy, file_entry = e\<rparr> d off n"
proof -
  have fit: "cluster_fits floppy c" using assms by (simp add: cluster_fits_def cluster_sector_def floppy_fields)
  have "readable floppy d c off n"
    unfolding readable_def floppy_cluster
  proof (intro allI impI)
    fix k assume "k \<le> off div 512 \<or> k * 512 < off + n"
    with assms(4) have "k = 0" by auto
    with fit show "\<exists>x. chain floppy d c k = Some x \<and> cluster_fits floppy x" by simp
  qed
  moreover have "round_fits floppy off n" if "n \<noteq> 0"
  proof -
    have "(511 + n) div 512 = 1" using assms(4) that by simp
    then show ?thesis
      using assms(4) by (simp add: round_fits_def round_sectors_def round_length_def floppy_cluster floppy_fields)
  qed
  ultimately show ?thesis using assms(1,4) by (simp add: file_holds_def floppy_cluster)
qed

text \<open>The bytes of the image, wherever they come from.\<close>

definition is_image :: "(nat \<Rightarrow> u8) \<Rightarrow> bool" where
  "is_image g \<longleftrightarrow> (\<forall>i<88. g i = elf_image ! i)"

lemma image_byte: "is_image g \<Longrightarrow> i < 88 \<Longrightarrow> g i = elf_image ! i"
  by (simp add: is_image_def)

lemma image_header:
  assumes "is_image g"
  shows "lsb16 g 18 = 3" "lsb16 g 16 = 2" "lsb16 g 44 = 1" "lsb16 g 42 = 32" "lsb32 g 28 = 52" "lsb32 g 24 = 0x200000"
  by (simp_all add: lsb16_def lsb32_def image_byte [OF assms] elf_image_def)

lemma image_accepted: "is_image g \<Longrightarrow> accepted_elf g"
  by (simp add: accepted_elf_def image_header) (simp add: image_byte elf_image_def)

lemma image_program_header:
  "is_image g \<Longrightarrow> program_header_of g 52 =
    \<lparr>p_type = 1, p_offset = 84, p_vaddr = 0x200000, p_paddr = 0, p_filesz = 4, p_memsz = 0x1000, p_flags = 0, p_align = 0\<rparr>"
  by (simp add: program_header_of_def decode_program_header_def load32_def image_byte elf_image_def)

lemma elf_start: "unat (dirent_cluster second_dirent) = 2"
  by (simp add: dirent_cluster_def second_dirent_def)

lemma elf_file_bytes: "i < 88 \<Longrightarrow> file_bytes elf_file_entry elf_disk i = elf_image ! i"
  using one_cluster_bytes [OF elf_start, of i elf_disk]
  by (simp add: elf_file_entry_def elf_disk_def) (simp add: elf_image_def)

lemma elf_file_holds: "off + n \<le> 88 \<Longrightarrow> file_holds elf_file_entry elf_disk off n"
  unfolding elf_file_entry_def by (rule one_cluster_holds [OF elf_start]) simp_all

lemmas elf_is_image = is_image_def [THEN iffD2, rule_format, OF elf_file_bytes]

text \<open>The loader's state for witnesses: the small map, and the header in memory at 0x7E00.\<close>

definition elf_state :: "unit machine" where
  "elf_state = two_region_state\<lparr>mem := blit 0x7E00 52 (\<lambda>i. elf_image ! i) (\<lambda>_. 0)\<rparr>"

lemma elf_file_ready:
  "ext_stack_top s = EXTENDED_STACK_BASE \<Longrightarrow> file_ready (perfect_int13 elf_disk 512) elf_file_entry elf_disk s"
proof -
  assume top: "ext_stack_top s = EXTENDED_STACK_BASE"
  have P: "cluster_bytes floppy = 512" by (simp add: cluster_bytes_def floppy_fields)
  have start: "unat (dirent_cluster second_dirent) = 2" by (simp add: dirent_cluster_def second_dirent_def)
  have "read_ready (perfect_int13 elf_disk 512) floppy elf_disk (read_scratch floppy) s"
    using floppy_ready [of elf_disk "\<lambda>_. 0" "()"] perfect_int13_ok(1) [of elf_disk 512] top
    by (simp add: read_ready_def table_ready_def P floppy_fields ext_stack_ok_def memory_map perfect_int13_ok(2))
  then show ?thesis by (simp add: file_ready_def elf_file_entry_def start)
qed

lemma elf_state_top [simp]: "ext_stack_top elf_state = EXTENDED_STACK_BASE"
  by (simp add: elf_state_def two_region_state_def heaped_def boot_state_def)

lemmas elf_header_fields = image_header [OF elf_is_image]
lemmas elf_accepted = image_accepted [OF elf_is_image]
lemmas elf_program_header = image_program_header [OF elf_is_image]

section \<open>Properties\<close>

text \<open>
  C11. \<open>elf_open\<close> terminates, reads the header to where it is told, touching no other memory
  outside the extended stack, and accepts the file exactly when its bytes have the ELF magic,
  the 32-bit class, machine number 3 or 18, the executable type, and a program header table
  and an entry point.
\<close>

theorem elf_open_accepts:
  fixes int13 :: "'e int13"
  assumes "file_ready int13 fl d s" and "file_holds fl d 0 52" and "unat header_at + 52 \<le> 0x40000"
  shows "\<exists>t r. elf_open int13 header_at fl s = Some (Inr (r, \<lparr>elf_file = fl, elf_header = header_at\<rparr>), t)
    \<and> (r = ELF_SUCCESS \<longleftrightarrow> accepted_elf (file_bytes fl d))
    \<and> decode_elf_header (mem t) header_at = header_of (file_bytes fl d)
    \<and> touched (in_range header_at 52) s t"
  using elf_open_run [OF assms] validate_header_accepts [of "file_bytes fl d"] by auto

theorem elf_open_accepts_witness:
  "\<exists>t. elf_open (perfect_int13 elf_disk 512) 0x7E00 elf_file_entry (boot_state (\<lambda>_. 0) ())
      = Some (Inr (ELF_SUCCESS, \<lparr>elf_file = elf_file_entry, elf_header = 0x7E00\<rparr>), t)
    \<and> entry_point (decode_elf_header (mem t) 0x7E00) = 0x200000"
proof -
  have "unat (0x7E00 :: u32) + 52 \<le> 0x40000" by simp
  moreover have "file_ready (perfect_int13 elf_disk 512) elf_file_entry elf_disk (boot_state (\<lambda>_. 0) ())"
    by (rule elf_file_ready) (simp add: boot_state_def)
  moreover have "file_holds elf_file_entry elf_disk 0 52" by (rule elf_file_holds) simp
  moreover have "entry_point (header_of (file_bytes elf_file_entry elf_disk)) = 0x200000"
    using header_of_fields(6) [of "file_bytes elf_file_entry elf_disk"] by (simp add: elf_header_fields word_unat_eq_iff)
  ultimately show ?thesis
    using elf_open_accepts [of "perfect_int13 elf_disk 512" elf_file_entry elf_disk "boot_state (\<lambda>_. 0) ()" "0x7E00"]
      elf_accepted by force
qed

text \<open>
  C6. \<open>elf_load\<close> loads the program: when every program header to be loaded lies strictly inside
  a usable region above the real-mode limit, apart from the others, it terminates with
  success; each segment's bytes of the file are at its address, followed by zeroes up to its
  size in memory; the memory map has exactly the segments' addresses turned into program
  memory and is otherwise as before; and no other memory changed, except the local program
  header and the area of the extended stack.
\<close>

theorem elf_load_loads_segments:
  fixes int13 :: "'e int13"
  assumes "file_ready int13 (elf_file elf) d s" and "decode_elf_header (mem s) (elf_header elf) = h"
    and "program_entry_size h = 32"
    and "regions_at s head zs" and "memory_layout zs"
    and "node_room s (unat (program_entry_count h) * (length zs + 2 * unat (program_entry_count h) + 3))"
    and "placeable (file_holds (elf_file elf) d) zs
      (load_headers (file_bytes (elf_file elf) d) (unat (program_header_table h)) 0 (unat (program_entry_count h)))"
    and "unat prog_at + 32 \<le> 0x40000"
    and "unat (program_header_table h) + 32 * unat (program_entry_count h) < 2 ^ 32"
    and "\<forall>i < unat (program_entry_count h). file_holds (elf_file elf) d (unat (program_header_table h) + 32 * i) 32"
  shows "\<exists>t head' zs'. elf_load int13 prog_at elf head s = Some (Inr (ELF_SUCCESS, head'), t)
    \<and> (\<forall>p\<in>set (load_headers (file_bytes (elf_file elf) d) (unat (program_header_table h)) 0 (unat (program_entry_count h))).
           segment_loaded (file_bytes (elf_file elf) d) p (mem t))
    \<and> regions_at t head' zs' \<and> memory_layout zs'
    \<and> (\<forall>a. kind_at zs' a = (if \<exists>p\<in>set (load_headers (file_bytes (elf_file elf) d) (unat (program_header_table h)) 0 (unat (program_entry_count h))).
           covers a (segment_region p) then Some SYSINFO_MT_ELF_EXECUTABLE else kind_at zs a))
    \<and> touched (\<lambda>x. in_range prog_at 32 x \<or> (\<exists>p\<in>set (load_headers (file_bytes (elf_file elf) d) (unat (program_header_table h)) 0 (unat (program_entry_count h))).
           in_segment p x)) s t"
  using elf_load_run [OF assms] by blast

theorem elf_load_loads_segments_witness:
  "\<exists>t head' zs'. elf_load (perfect_int13 elf_disk 512) 0x7D00 \<lparr>elf_file = elf_file_entry, elf_header = 0x7E00\<rparr> 0x3FFE4 elf_state
      = Some (Inr (ELF_SUCCESS, head'), t) \<and> regions_at t head' zs'
    \<and> mem t 0x200000 = 0xEB \<and> mem t 0x200001 = 0xFE \<and> mem t 0x200004 = 0
    \<and> kind_at zs' 0x200FFF = Some SYSINFO_MT_ELF_EXECUTABLE \<and> kind_at zs' 0x201000 = Some SYSINFO_MT_USABLE"
proof -
  let ?g = "file_bytes elf_file_entry elf_disk" and ?elf = "\<lparr>elf_file = elf_file_entry, elf_header = 0x7E00\<rparr>"
  let ?p = "program_header_of ?g 52" and ?h = "header_of ?g"
  have h: "program_entry_size ?h = 32" "unat (program_entry_count ?h) = 1" "unat (program_header_table ?h) = 52"
    using header_of_fields [of ?g] by (simp_all add: elf_header_fields word_unat_eq_iff)
  have dec: "decode_elf_header (mem elf_state) (elf_header ?elf) = ?h"
    by (rule decode_elf_header_bytes) (simp add: elf_state_def blit_nth elf_file_bytes)
  have L: "load_headers ?g 52 0 1 = [?p]" by (simp add: load_headers_def elf_program_header)
  have reg: "regions_at elf_state 0x3FFE4 two_regions"
    using two_regions_ok(1) by (simp add: elf_state_def regions_at_def)
  have "segment_fits (file_holds elf_file_entry elf_disk) ?p"
    by (simp add: segment_fits_def elf_program_header REAL_MODE_LIMIT_val no_wrap_def elf_file_holds)
  moreover have "inside_usable two_regions (segment_region ?p)"
    by (simp add: inside_usable_def two_regions_def elf_program_header limit_def)
  ultimately have pl: "placeable (file_holds elf_file_entry elf_disk) two_regions (load_headers ?g 52 0 1)"
    unfolding L by (simp add: placeable_def)
  have room: "node_room elf_state (1 * (length two_regions + 2 * 1 + 3))"
    by (simp add: elf_state_def two_region_state_def node_room_def room_def two_regions_def)
  have rdy: "file_ready (perfect_int13 elf_disk 512) (elf_file ?elf) elf_disk elf_state"
    using elf_file_ready [of elf_state] by simp
  have hold: "file_holds elf_file_entry elf_disk (52 + 32 * i) 32" if "i < 1" for i using that by (simp add: elf_file_holds)
  have low: "unat (0x7D00 :: u32) + 32 \<le> 0x40000" by simp
  obtain t head' zs' where run: "elf_load (perfect_int13 elf_disk 512) 0x7D00 ?elf 0x3FFE4 elf_state = Some (Inr (ELF_SUCCESS, head'), t)"
    "regions_at t head' zs'" and ld: "segment_loaded ?g ?p (mem t)"
    and k: "\<And>a. kind_at zs' a = (if covers a (segment_region ?p) then Some SYSINFO_MT_ELF_EXECUTABLE else kind_at two_regions a)"
    using elf_load_loads_segments [OF rdy dec h(1) reg two_regions_ok(2) _ _ low, unfolded h] room pl hold by (auto simp: L [simplified])
  have data: "mem t (0x200000 + of_nat i) = (if i < 4 then ?g (84 + i) else 0)" if "i < 4096" for i
    using ld that by (simp add: segment_loaded_def elf_program_header)
  have "mem t 0x200000 = 0xEB" "mem t 0x200001 = 0xFE" "mem t 0x200004 = 0"
    using data [of 0] data [of 1] data [of 4] by (simp_all add: elf_file_bytes elf_image_def)
  moreover have "kind_at zs' 0x200FFF = Some SYSINFO_MT_ELF_EXECUTABLE" "kind_at zs' 0x201000 = Some SYSINFO_MT_USABLE"
    by (simp_all add: k covers_def limit_def elf_program_header two_regions_def)
  ultimately show ?thesis using run by blast
qed

text \<open>
  C10. The test against the memory map is interval overlap: for a segment that is not empty and
  does not wrap around, \<open>is_intersecting_used_memregions\<close> terminates, changes nothing, and says
  whether some address belongs both to the segment and to a region that is not usable; an
  empty segment always counts as intersecting.
\<close>

theorem overlap_test_exact:
  assumes "regions_at s head zs" and "tiled zs" and "no_wrap p"
  shows "is_intersecting_used_memregions p head s = Some (Inr (p_memsz p = 0 \<or>
    (\<exists>w\<in>set zs. kind w \<noteq> SYSINFO_MT_USABLE \<and> (\<exists>a. covers a (segment_region p) \<and> covers a w))), s)"
proof (cases "p_memsz p = 0")
  case True
  then show ?thesis by (simp add: is_intersecting_used_memregions_def exec_basic)
next
  case False
  then have "proper (segment_region p)" by (simp add: proper_def word_less_nat_alt unat_limit_segment unat_gt_0)
  with intersecting_run [OF assms(1,2) False assms(3)] overlaps_covers tiled_proper [OF assms(2)] False
  show ?thesis by (auto cong: conj_cong bex_cong)
qed

definition wrapping_header :: "u32 \<Rightarrow> u32 \<Rightarrow> elf_program_header_t" where
  "wrapping_header v n = \<lparr>p_type = 1, p_offset = 0, p_vaddr = v, p_paddr = 0, p_filesz = 0, p_memsz = n, p_flags = 0, p_align = 0\<rparr>"

theorem overlap_test_exact_witness:
  "is_intersecting_used_memregions (wrapping_header 0x10F000 0x2000) 0x3FFE4 two_region_state = Some (Inr True, two_region_state)
   \<and> is_intersecting_used_memregions (wrapping_header 0x110000 0x2000) 0x3FFE4 two_region_state = Some (Inr False, two_region_state)"
proof -
  have t: "tiled two_regions" using two_regions_ok(2) by (simp add: memory_layout_def)
  have "no_wrap (wrapping_header 0x10F000 0x2000)" "no_wrap (wrapping_header 0x110000 0x2000)"
    by (simp_all add: no_wrap_def wrapping_header_def)
  note run = overlap_test_exact [OF two_regions_ok(1) t this(1)] overlap_test_exact [OF two_regions_ok(1) t this(2)]
  have "covers 0x10F000 (segment_region (wrapping_header 0x10F000 0x2000)) \<and> covers 0x10F000 (low_region 0x110000)"
    by (simp add: covers_def limit_def wrapping_header_def)
  moreover have "\<not> (covers a (segment_region (wrapping_header 0x110000 0x2000)) \<and> covers a (low_region 0x110000))" for a
    by (auto simp: covers_def wrapping_header_def)
  ultimately show ?thesis unfolding run by (auto simp: two_regions_def wrapping_header_def)
qed

text \<open>
  A segment is refused, with no node allocated and no byte written, when it begins below the
  real-mode limit, is empty, or meets a region that is not usable.
\<close>

theorem load_segment_refuses:
  assumes "regions_at s head zs" and "tiled zs" and "no_wrap p"
    and "p_vaddr p < REAL_MODE_LIMIT \<or> p_memsz p = 0
      \<or> (\<exists>w\<in>set zs. kind w \<noteq> SYSINFO_MT_USABLE \<and> overlaps (segment_region p) w)"
  shows "load_segment read prog_at p head s = Some (Inr (ELF_LOAD_ON_RESERVED_MEMORY, head), s)"
proof (cases "p_vaddr p < REAL_MODE_LIMIT")
  case True
  then show ?thesis by (simp add: load_segment_def exec_basic)
next
  case False
  have "is_intersecting_used_memregions p head s = Some (Inr True, s)"
  proof (cases "p_memsz p = 0")
    case True
    then show ?thesis by (simp add: is_intersecting_used_memregions_def exec_basic)
  next
    case nz: False
    with False assms(4) intersecting_run [OF assms(1,2) nz assms(3)] show ?thesis by simp
  qed
  with False show ?thesis by (simp add: load_segment_def exec_bind exec_basic)
qed

theorem load_segment_refuses_witness:
  "load_segment (\<lambda>_ _ _. ret FAT_SUCCESS) 0x7D00 (wrapping_header 0x10FFEF 0x2000) 0x3FFE4 two_region_state
    = Some (Inr (ELF_LOAD_ON_RESERVED_MEMORY, 0x3FFE4), two_region_state)"
proof (rule load_segment_refuses [OF two_regions_ok(1)])
  show "tiled two_regions" using two_regions_ok(2) by (simp add: memory_layout_def)
  show "no_wrap (wrapping_header 0x10FFEF 0x2000)" by (simp add: no_wrap_def wrapping_header_def)
  have "overlaps (segment_region (wrapping_header 0x10FFEF 0x2000)) (low_region 0x110000)"
    by (simp add: overlaps_def limit_def wrapping_header_def)
  then show "p_vaddr (wrapping_header 0x10FFEF 0x2000) < REAL_MODE_LIMIT \<or> p_memsz (wrapping_header 0x10FFEF 0x2000) = 0
      \<or> (\<exists>w\<in>set two_regions. kind w \<noteq> SYSINFO_MT_USABLE \<and> overlaps (segment_region (wrapping_header 0x10FFEF 0x2000)) w)"
    by (simp add: two_regions_def)
qed

text \<open>A segment that wraps around ends below its start, so only the regions its start lies in are met.\<close>

lemma met_wrapped:
  assumes "2 ^ 32 \<le> unat (p_vaddr ph) + unat (p_memsz ph)"
  shows "met ph w \<longleftrightarrow> kind w \<noteq> SYSINFO_MT_USABLE \<and> base w < ucast (p_vaddr ph) \<and> ucast (p_vaddr ph) < limit w"
proof -
  have "unat (p_vaddr ph + p_memsz ph) = unat (p_vaddr ph) + unat (p_memsz ph) - 2 ^ 32"
    using assms u32_bound [of "p_vaddr ph"] u32_bound [of "p_memsz ph"] by (simp add: unat_word_ariths mod_if)
  then have "unat (p_vaddr ph + p_memsz ph) < unat (p_vaddr ph)"
    using assms u32_bound [of "p_memsz ph"] by simp
  then have "(ucast (p_vaddr ph + p_memsz ph) :: u64) < ucast (p_vaddr ph)" by (simp add: word_less_nat_alt)
  then show ?thesis by (auto simp: met_def)
qed

text \<open>
  C39. The end of a segment is computed in 32 bits. For a segment that wraps around the top of the
  address space the test answers yes only when the segment begins strictly inside a region that
  is not usable. Every region that starts at or above the segment's start and below 4 GiB
  shares addresses with the segment, yet has no part in the answer: when all reserved memory
  from the segment's start on lies there, the answer is that there is none in the way.
\<close>

theorem wrapped_segment_not_detected:
  assumes "regions_at s head zs" and "tiled zs" and "2 ^ 32 \<le> unat (p_vaddr p) + unat (p_memsz p)"
  shows "is_intersecting_used_memregions p head s = Some (Inr (\<exists>w\<in>set zs. kind w \<noteq> SYSINFO_MT_USABLE
      \<and> base w < ucast (p_vaddr p) \<and> ucast (p_vaddr p) < limit w), s)
    \<and> (\<forall>w\<in>set zs. ucast (p_vaddr p) \<le> base w \<and> base w < 2 ^ 32 \<longrightarrow>
        overlaps (segment_region p) w \<and> covers (base w) (segment_region p) \<and> covers (base w) w)
    \<and> ((\<forall>w\<in>set zs. kind w \<noteq> SYSINFO_MT_USABLE \<longrightarrow> limit w \<le> ucast (p_vaddr p) \<or> ucast (p_vaddr p) \<le> base w) \<longrightarrow>
        is_intersecting_used_memregions p head s = Some (Inr False, s))"
proof -
  have "p_memsz p \<noteq> 0" using assms(3) u32_bound [of "p_vaddr p"] by auto
  from intersecting_met [OF assms(1) this] met_wrapped [OF assms(3)]
  have test: "is_intersecting_used_memregions p head s = Some (Inr (\<exists>w\<in>set zs. kind w \<noteq> SYSINFO_MT_USABLE
      \<and> base w < ucast (p_vaddr p) \<and> ucast (p_vaddr p) < limit w), s)" by simp
  moreover have "overlaps (segment_region p) w \<and> covers (base w) (segment_region p) \<and> covers (base w) w"
    if "w \<in> set zs" "ucast (p_vaddr p) \<le> base w" "base w < 2 ^ 32" for w
  proof -
    have "base w < limit (segment_region p)"
      using that(3) assms(3) by (simp add: word_less_nat_alt unat_limit_segment)
    then show ?thesis
      using that(2) tiled_proper [OF assms(2) that(1)] by (auto simp: overlaps_def covers_def proper_def)
  qed
  ultimately show ?thesis by (auto simp: not_less)
qed

text \<open>A map whose last megabyte below 4 GiB is reserved, as it is for the firmware.\<close>

definition firmware_regions :: "region list" where
  "firmware_regions = [low_region 0xFFF00000 \<lparr>kind := SYSINFO_MT_USABLE\<rparr>,
     \<lparr>base = 0xFFF00000, extent = 0x100000, kind = SYSINFO_MT_RESERVED, volatile = False\<rparr>]"

definition firmware_state :: "unit machine" where
  "firmware_state = heaped [0x3FFE4 \<mapsto> as_node 0x3FFC8 (firmware_regions ! 0), 0x3FFC8 \<mapsto> as_node 0 (firmware_regions ! 1)] 0x3FFC8
     (boot_state (\<lambda>_. 0) ())"

theorem wrapped_segment_not_detected_witness:
  "is_intersecting_used_memregions (wrapping_header 0xFFE00000 0x200000) 0x3FFE4 firmware_state = Some (Inr False, firmware_state)
   \<and> covers 0xFFF00000 (segment_region (wrapping_header 0xFFE00000 0x200000)) \<and> covers 0xFFF00000 (firmware_regions ! 1)"
proof -
  have at: "regions_at firmware_state 0x3FFE4 firmware_regions"
    by (auto simp: regions_at_def firmware_state_def firmware_regions_def segment_Cons segment_Nil
        intro!: exI [of _ "[(0x3FFE4, firmware_regions ! 0), (0x3FFC8, firmware_regions ! 1)]"])
  have t: "tiled firmware_regions" by (simp add: firmware_regions_def proper_def limit_def low_region_def)
  have "is_intersecting_used_memregions (wrapping_header 0xFFE00000 0x200000) 0x3FFE4 firmware_state = Some (Inr False, firmware_state)"
    and "covers 0xFFF00000 (segment_region (wrapping_header 0xFFE00000 0x200000)) \<and> covers 0xFFF00000 (firmware_regions ! 1)"
    using wrapped_segment_not_detected [OF at t, of "wrapping_header 0xFFE00000 0x200000"]
    by (simp_all add: firmware_regions_def wrapping_header_def limit_def)
  then show ?thesis by simp
qed

text \<open>
  C40. The size of a program header is taken from the file: \<open>elf_load\<close> reads that many bytes over
  its local structure of 32 bytes, so with a larger size the bytes of the file run on over
  whatever the stack holds behind the structure.
\<close>

theorem program_header_size_unchecked:
  fixes int13 :: "'e int13"
  assumes "file_ready int13 fl d s" and "file_holds fl d (unat off) (unat entry_size)" and "0 < n"
    and "32 \<le> unat entry_size" and "unat prog_at + unat entry_size \<le> 0x40000"
    and "p_type (program_header_of (file_bytes fl d) (unat off)) \<noteq> elf_program_header_type_value ELF_PT_LOAD"
  shows "\<exists>t. load_round (fat_read int13 fl) prog_at n entry_size off (0, head) s = Some (Inr (Inl (1, head)), t)
    \<and> (\<forall>i < unat entry_size. mem t (prog_at + of_nat i) = file_bytes fl d (unat off + i))"
proof -
  have u: "unat (ucast entry_size :: u32) = unat entry_size" by simp
  have "unat prog_at + unat (ucast entry_size :: u32) < 2 ^ 32" using assms(5) by simp
  with fat_file.read_run [OF assms(1), of off "ucast entry_size" prog_at] assms(2,5) obtain t where
    run: "fat_read int13 fl off (ucast entry_size) prog_at s = Some (Inr FAT_SUCCESS, t)"
    and data: "\<forall>i < unat entry_size. mem t (prog_at + of_nat i) = file_bytes fl d (unat off + i)"
    by (auto simp: u)
  have "decode_program_header (mem t) prog_at = program_header_of (file_bytes fl d) (unat off)"
    by (rule decode_program_header_bytes) (use data assms(4) in simp)
  moreover have "mul_u16 entry_size 0 = Inr 0" by (simp add: mul_u16_def)
  ultimately have "load_round (fat_read int13 fl) prog_at n entry_size off (0, head) s = Some (Inr (Inl (1, head)), t)"
    using assms(3,6) run by (simp add: load_round_def exec_bind exec_basic exec_lift_res)
  with data show ?thesis by blast
qed

theorem program_header_size_unchecked_witness:
  "\<exists>t. load_round (fat_read (perfect_int13 elf_disk 512) elf_file_entry) 0x7D00 2 40 12 (0, 0) (boot_state (\<lambda>_. 0) ())
      = Some (Inr (Inl (1, 0)), t) \<and> mem t (0x7D00 + 32) = 1"
proof -
  have rdy: "file_ready (perfect_int13 elf_disk 512) elf_file_entry elf_disk (boot_state (\<lambda>_. 0) ())"
    by (rule elf_file_ready) (simp add: boot_state_def)
  have hold: "file_holds elf_file_entry elf_disk (unat (12 :: u32)) (unat (40 :: u16))" by (simp add: elf_file_holds)
  have ty: "p_type (program_header_of (file_bytes elf_file_entry elf_disk) (unat (12 :: u32)))
      \<noteq> elf_program_header_type_value ELF_PT_LOAD"
    by (simp add: program_header_of_def decode_program_header_def load32_def elf_file_bytes elf_image_def)
  obtain t where "load_round (fat_read (perfect_int13 elf_disk 512) elf_file_entry) 0x7D00 2 40 12 (0, 0) (boot_state (\<lambda>_. 0) ())
      = Some (Inr (Inl (1, 0)), t)"
    and data: "\<And>i. i < 40 \<Longrightarrow> mem t (0x7D00 + of_nat i) = file_bytes elf_file_entry elf_disk (12 + i)"
    using program_header_size_unchecked [OF rdy hold, of 2 "0x7D00" 0] ty by auto
  moreover have "mem t (0x7D00 + 32) = 1" using data [of 32] by (simp add: elf_file_bytes elf_image_def)
  ultimately show ?thesis by blast
qed

end
