(* ===== verification/Prot.thy ===== *)
theory Prot
  imports Region_Map
begin

text \<open>
  \<^verbatim>\<open>stage1/prot.c\<close>: the choice of the stack for the loaded program and the jump to it. The
  assembly that enters protected mode leaves memory alone but for the two pushes on the new
  stack; control then goes to the entry point and never comes back, which is how a run of the
  boot loader that works ends: \<open>Control_Transferred\<close> with the entry point and \<open>esp\<close>.
\<close>

datatype control_result_t = CONTROL_SUCCESS | CONTROL_NO_SPACE_FOR_STACK

fun control_result_to_str :: "control_result_t \<Rightarrow> string" where
  "control_result_to_str CONTROL_SUCCESS = ''Success (something really bad happened).''"
| "control_result_to_str CONTROL_NO_SPACE_FOR_STACK = ''Not enough space in memory to place stack pointer''"

section \<open>The stack pointer\<close>

definition largest_loop :: "u32 \<Rightarrow> ('e machine, u32) cmd" where
  "largest_loop mem_regions =
     iterate (\<lambda>(largest, current).
       if current = 0 then ret (Inr largest)
       else
         bind (node current) (\<lambda>c.
         bind (node largest) (\<lambda>l.
         ret (Inl (if mr_size c \<ge> mr_size l then current else largest, mr_next c)))))
     (mem_regions, mem_regions)"

text \<open>The pointer is set by the first assignment and kept when the second test fails; it is returned beside the result.\<close>

definition get_stack_pointer :: "u32 \<Rightarrow> u8 \<Rightarrow> u32 \<Rightarrow> ('e machine, control_result_t \<times> u32 option) cmd" where
  "get_stack_pointer mem_regions alignment reserve_space =
     bind (largest_loop mem_regions) (\<lambda>largest.
     if largest = 0 then ret (CONTROL_NO_SPACE_FOR_STACK, None)
     else
       bind (node largest) (\<lambda>l.
       let stack_pointer = ucast (mr_base_addr l + mr_size l - 1 - ucast reserve_space) :: u32;
           stack_pointer = stack_pointer AND push_bit (unat alignment) 0xffffffff
       in if ucast stack_pointer < mr_base_addr l then ret (CONTROL_NO_SPACE_FOR_STACK, Some stack_pointer)
          else ret (CONTROL_SUCCESS, Some (stack_pointer + reserve_space))))"

text \<open>\<^verbatim>\<open>sizeof(const sysinfo_t *) + sizeof(long)\<close> with 32-bit pointers and longs.\<close>

definition STACK_RESERVE :: u32 where "STACK_RESERVE = 8"

definition push32 :: "u32 \<Rightarrow> u32 \<Rightarrow> ('e machine, u32) cmd" where
  "push32 esp v = bind (modify (\<lambda>s. s\<lparr>mem := store32 (esp - 4) v (mem s)\<rparr>)) (\<lambda>_. ret (esp - 4))"

text \<open>\<open>info_at\<close> is the address of the structure \<open>info\<close>.\<close>

definition transfer_control :: "u32 \<Rightarrow> sysinfo_t \<Rightarrow> u32 \<Rightarrow> ('e machine, control_result_t) cmd" where
  "transfer_control entry_point info info_at =
     bind (get_stack_pointer (si_mem_regions info) ELF_STACK_ALIGNMENT STACK_RESERVE) (\<lambda>(result, stack_pointer).
     case (result, stack_pointer) of
       (CONTROL_SUCCESS, Some sp) \<Rightarrow>
         bind (push32 sp info_at) (\<lambda>esp.
         bind (push32 esp 0) (\<lambda>esp.
         halt (Control_Transferred entry_point esp)))
     | _ \<Rightarrow> ret result)"

section \<open>The largest region\<close>

fun largest_from :: "region \<Rightarrow> region list \<Rightarrow> region" where
  "largest_from l [] = l"
| "largest_from l (x # xs) = largest_from (if extent l \<le> extent x then x else l) xs"

text \<open>The last one of the largest regions of a list.\<close>

definition largest_region :: "region list \<Rightarrow> region" where
  "largest_region xs = largest_from (hd xs) xs"

lemma largest_from_in: "largest_from l xs \<in> insert l (set xs)"
  by (induction xs arbitrary: l) auto

lemma largest_from_ge: "x \<in> insert l (set xs) \<Longrightarrow> extent x \<le> extent (largest_from l xs)"
proof (induction xs arbitrary: l x)
  case (Cons y ys)
  let ?l = "if extent l \<le> extent y then y else l"
  have "extent l \<le> extent ?l" "extent y \<le> extent ?l" by auto
  moreover have "extent ?l \<le> extent (largest_from ?l ys)" by (rule Cons.IH) simp
  ultimately show ?case using Cons.prems Cons.IH [of x ?l] by (auto intro: order_trans)
qed simp

lemma largest_region_props:
  assumes "xs \<noteq> []"
  shows "largest_region xs \<in> set xs" "x \<in> set xs \<Longrightarrow> extent x \<le> extent (largest_region xs)"
  using largest_from_in [of "hd xs" xs] largest_from_ge [of x "hd xs" xs] assms by (auto simp: largest_region_def)

lemma largest_loop_from:
  assumes "lseg (region_heap s) c xs 0" and "region_heap s l = Some (as_node q r)" "l \<noteq> 0"
  shows "\<exists>l' q'. l' \<noteq> 0 \<and> region_heap s l' = Some (as_node q' (largest_from r (map snd xs))) \<and>
    iterate (\<lambda>(largest, current).
       if current = 0 then ret (Inr largest)
       else
         bind (node current) (\<lambda>c.
         bind (node largest) (\<lambda>l.
         ret (Inl (if mr_size c \<ge> mr_size l then current else largest, mr_next c))))) (l, c) s = Some (Inr l', s)"
  using assms
proof (induction xs arbitrary: c l q r)
  case Nil
  then show ?case by (subst iterate_unfold) (auto simp: exec_bind exec_basic)
next
  case (Cons x xs)
  then obtain q1 where c: "c = fst x" "fst x \<noteq> 0" "region_heap s (fst x) = Some (as_node q1 (snd x))"
    and q1: "lseg (region_heap s) q1 xs 0" by auto
  have nodes: "node (fst x) s = Some (Inr (as_node q1 (snd x)), s)" "node l s = Some (Inr (as_node q r), s)"
    using c Cons.prems by (simp_all add: node_def exec_bind exec_basic)
  show ?case
  proof (cases "extent r \<le> extent (snd x)")
    case True
    with Cons.IH [OF q1 c(3,2)] show ?thesis
      by (subst iterate_unfold) (simp add: c exec_bind nodes exec_basic)
  next
    case False
    with Cons.IH [OF q1 Cons.prems(2,3)] show ?thesis
      by (subst iterate_unfold) (simp add: c exec_bind nodes exec_basic)
  qed
qed

lemma largest_loop_run:
  assumes "regions_at s head zs" and "zs \<noteq> []"
  shows "\<exists>l q. l \<noteq> 0 \<and> region_heap s l = Some (as_node q (largest_region zs)) \<and> largest_loop head s = Some (Inr l, s)"
proof -
  from assms(1) obtain xs where xs: "lseg (region_heap s) head xs 0" "map snd xs = zs"
    by (auto simp: regions_at_def segment_def)
  with assms(2) obtain x ys where "xs = x # ys" by (cases xs) auto
  with xs(1) obtain q where "region_heap s head = Some (as_node q (snd x))" "head \<noteq> 0" by auto
  from largest_loop_from [OF xs(1) this] \<open>xs = x # ys\<close> xs(2) show ?thesis
    by (auto simp: largest_loop_def largest_region_def)
qed

lemma largest_loop_empty: "largest_loop 0 s = Some (Inr 0, s)"
  by (simp add: largest_loop_def) (subst iterate_unfold, simp add: exec_bind exec_basic)

text \<open>Where the pointer goes: the last address of the region, 8 bytes kept free, rounded down to 16.\<close>

definition stack_base :: "region \<Rightarrow> nat" where
  "stack_base r = (unat (limit r) - 9) div 16 * 16"

lemma and_mask_16: "unat (x AND push_bit 4 0xffffffff :: u32) = unat x div 16 * 16"
proof -
  have "x AND push_bit 4 0xffffffff = push_bit 4 (drop_bit 4 x)"
  proof -
    have "(0xffffffff :: u32) = - 1" by simp
    then show ?thesis by (simp only:) (rule bit_word_eqI, auto simp: bit_simps)
  qed
  then have "unat (x AND push_bit 4 0xffffffff) = unat (push_bit 4 (drop_bit 4 x))" by simp
  also have "\<dots> = unat x div 16 * 16"
  proof -
    have "unat (drop_bit 4 x) = unat x div 16" by (simp add: unat_drop_bit_eq drop_bit_eq_div [of _ "unat _"])
    moreover have "unat x div 16 * 16 < 2 ^ 32"
      using u32_bound [of x] div_times_less_eq_dividend [of "unat x" 16] by simp
    ultimately show ?thesis by (simp add: push_bit_eq_mult unat_word_ariths mult.commute)
  qed
  finally show ?thesis .
qed

lemma get_stack_pointer_run:
  assumes "regions_at s head zs" and "zs \<noteq> []" and "r = largest_region zs"
    and "proper r" "9 \<le> unat (extent r)" "unat (limit r) \<le> 2 ^ 32"
  shows "get_stack_pointer head ELF_STACK_ALIGNMENT STACK_RESERVE s = Some (Inr
    (if unat (base r) \<le> stack_base r then (CONTROL_SUCCESS, Some (of_nat (stack_base r + 8)))
     else (CONTROL_NO_SPACE_FOR_STACK, Some (of_nat (stack_base r)))), s)"
proof -
  from largest_loop_run [OF assms(1,2)] obtain l q where
    l: "l \<noteq> 0" "region_heap s l = Some (as_node q r)" "largest_loop head s = Some (Inr l, s)" by (auto simp: assms(3))
  have node: "node l s = Some (Inr (as_node q r), s)" using l(2) by (simp add: node_def exec_bind exec_basic)
  have ext: "unat (limit r) = unat (base r) + unat (extent r)"
  proof -
    have "base r \<le> limit r" using assms(4) by (simp add: proper_def)
    then show ?thesis by (simp add: extent_eq unat_sub word_le_nat_alt)
  qed
  have u: "unat (ucast (limit r - 1 - 8) :: u32) = unat (limit r) - 9"
  proof -
    have "limit r - 1 - 8 = limit r - 9" by simp
    moreover have "unat (limit r - 9) = unat (limit r) - 9"
      using ext assms(5) by (subst unat_sub) (simp_all add: word_le_nat_alt)
    ultimately show ?thesis using assms(6) ext assms(5)
      by (simp add: unsigned_ucast_eq take_bit_nat_eq_self)
  qed
  let ?sp = "ucast (limit r - 1 - 8) AND push_bit 4 0xffffffff :: u32"
  have sp: "unat ?sp = stack_base r" unfolding and_mask_16 u stack_base_def ..
  then have sp': "?sp = of_nat (stack_base r)" by (simp add: sp [symmetric])
  have "ucast ?sp < base r \<longleftrightarrow> \<not> unat (base r) \<le> stack_base r"
    using sp by (simp add: word_less_nat_alt not_le)
  then show ?thesis
    using l(1) unfolding get_stack_pointer_def
    by (simp add: exec_bind l(3) node exec_basic Let_def STACK_RESERVE_def ELF_STACK_ALIGNMENT_def sp' [symmetric]
        limit_def [symmetric])
qed

lemma load32_store32: "load32 (store32 a v m) a = v"
proof -
  let ?w = "unat v"
  have b: "?w < 4294967296" by (rule u32_bound)
  have byte: "unat (ucast (drop_bit k v) :: u8) = ?w div 2 ^ k mod 256" for k
    by (simp add: unsigned_ucast_eq take_bit_eq_mod unat_drop_bit_eq drop_bit_eq_div [of _ "unat _"])
  have "unat (load32 (store32 a v m) a)
      = ?w mod 256 + 256 * (?w div 256 mod 256) + 65536 * (?w div 65536 mod 256) + 16777216 * (?w div 16777216 mod 256)"
    using byte [of 0] byte [of 8] byte [of 16] byte [of 24] by (simp add: unat_load32 store32_def)
  also have "\<dots> = ?w"
  proof -
    have horner: "w = 256 * p + r0 \<Longrightarrow> p = 256 * q + r1 \<Longrightarrow> q = 256 * r + r2 \<Longrightarrow>
        r0 + 256 * r1 + 65536 * r2 + 16777216 * r = w" for w p q r r0 r1 r2 :: nat by simp
    have d: "?w div 65536 = ?w div 256 div 256" "?w div 16777216 = ?w div 256 div 256 div 256"
      by (simp_all flip: div_mult2_eq)
    have "?w div 256 div 256 div 256 < 256" using b by (simp flip: div_mult2_eq)
    note top = mod_less [OF this]
    show ?thesis unfolding d top
      by (rule horner) (rule mult_div_mod_eq [symmetric])+
  qed
  finally show ?thesis by (simp add: word_unat_eq_iff)
qed

lemma store32_other:
  assumes "unat a + 4 \<le> 2 ^ 32" and "unat x < unat a \<or> unat a + 4 \<le> unat x"
  shows "store32 a v m x = m x"
proof -
  have "unat (a + 1) = unat a + 1" "unat (a + 2) = unat a + 2" "unat (a + 3) = unat a + 3"
    using assms(1) by (simp_all add: unat_word_ariths)
  then have "x \<noteq> a" "x \<noteq> a + 1" "x \<noteq> a + 2" "x \<noteq> a + 3" using assms(2) by auto
  then show ?thesis by (simp add: store32_def)
qed

lemma load32_cong: "m a = m' a \<Longrightarrow> m (a + 1) = m' (a + 1) \<Longrightarrow> m (a + 2) = m' (a + 2) \<Longrightarrow> m (a + 3) = m' (a + 3) \<Longrightarrow>
    load32 m a = load32 m' a"
  by (simp add: load32_def)

text \<open>Two words pushed below \<open>n + 8\<close>.\<close>

lemma two_pushes:
  fixes n :: nat
  assumes "n + 8 \<le> 2 ^ 32"
  shows "load32 (store32 (of_nat n) 0 (store32 (of_nat n + 4) v m)) (of_nat n) = 0"
    and "load32 (store32 (of_nat n) 0 (store32 (of_nat n + 4) v m)) (of_nat n + 4) = v"
    and "unat x < n \<or> n + 8 \<le> unat x \<Longrightarrow> store32 (of_nat n) 0 (store32 (of_nat n + 4) v m) x = m x"
proof -
  have u: "unat (of_nat n :: u32) = n" using assms by (simp add: unat_of_nat)
  then have u4: "unat (of_nat n + 4 :: u32) = n + 4" using assms by (simp add: unat_word_ariths)
  have lo: "unat (of_nat n :: u32) + 4 \<le> 2 ^ 32" and hi: "unat (of_nat n + 4 :: u32) + 4 \<le> 2 ^ 32"
    using assms by (simp_all only: u u4)
  show "load32 (store32 (of_nat n) 0 (store32 (of_nat n + 4) v m)) (of_nat n) = 0" by (rule load32_store32)
  have up: "store32 (of_nat n) 0 m' (of_nat n + 4 + of_nat i) = m' (of_nat n + 4 + of_nat i)" if "i < 4" for i m'
  proof (rule store32_other [OF lo])
    have "unat (of_nat n + 4 + of_nat i :: u32) = n + 4 + i"
      using that assms u4 by (simp add: unat_word_ariths unat_of_nat add.assoc)
    then show "unat (of_nat n + 4 + of_nat i :: u32) < unat (of_nat n :: u32) \<or>
        unat (of_nat n :: u32) + 4 \<le> unat (of_nat n + 4 + of_nat i :: u32)" using u by simp
  qed
  have "load32 (store32 (of_nat n) 0 (store32 (of_nat n + 4) v m)) (of_nat n + 4) = load32 (store32 (of_nat n + 4) v m) (of_nat n + 4)"
    using up [of 0] up [of 1] up [of 2] up [of 3] by (intro load32_cong) simp_all
  then show "load32 (store32 (of_nat n) 0 (store32 (of_nat n + 4) v m)) (of_nat n + 4) = v" by (simp add: load32_store32)
  show "store32 (of_nat n) 0 (store32 (of_nat n + 4) v m) x = m x" if "unat x < n \<or> n + 8 \<le> unat x"
    using that store32_other [OF lo, of x] store32_other [OF hi, of x] by (auto simp: u u4)
qed

text \<open>The stack fits: above the base of the region.\<close>

definition stack_fits :: "region \<Rightarrow> bool" where
  "stack_fits r \<longleftrightarrow> proper r \<and> 9 \<le> unat (extent r) \<and> unat (limit r) \<le> 2 ^ 32 \<and> unat (base r) \<le> stack_base r"

lemma stack_base_bounds:
  assumes "stack_fits r"
  shows "16 dvd stack_base r" "unat (base r) \<le> stack_base r" "stack_base r + 8 < unat (limit r)"
proof -
  show "16 dvd stack_base r" by (simp add: stack_base_def)
  show "unat (base r) \<le> stack_base r" using assms by (simp add: stack_fits_def)
  have "base r \<le> limit r" using assms by (auto simp: stack_fits_def proper_def)
  then have "9 \<le> unat (limit r)" using assms by (auto simp: stack_fits_def extent_eq unat_sub word_le_nat_alt)
  moreover have "stack_base r \<le> unat (limit r) - 9" unfolding stack_base_def by (rule div_times_less_eq_dividend)
  ultimately show "stack_base r + 8 < unat (limit r)" by simp
qed

lemma transfer_control_run:
  assumes "regions_at s (si_mem_regions info) zs" and "zs \<noteq> []" and fits: "stack_fits (largest_region zs)"
  shows "transfer_control entry info info_at s = Some (Inl (Control_Transferred entry (of_nat (stack_base (largest_region zs)))),
    s\<lparr>mem := store32 (of_nat (stack_base (largest_region zs))) 0
        (store32 (of_nat (stack_base (largest_region zs)) + 4) info_at (mem s))\<rparr>)"
proof -
  let ?n = "stack_base (largest_region zs)"
  have "get_stack_pointer (si_mem_regions info) ELF_STACK_ALIGNMENT STACK_RESERVE s
      = Some (Inr (CONTROL_SUCCESS, Some (of_nat (?n + 8))), s)"
    using get_stack_pointer_run [OF assms(1,2) refl] fits by (simp add: stack_fits_def)
  moreover have "(of_nat (?n + 8) :: u32) - 4 = of_nat ?n + 4" "(of_nat ?n + 4 :: u32) - 4 = of_nat ?n" by simp_all
  ultimately show ?thesis
    by (simp add: transfer_control_def push32_def exec_bind exec_basic add.commute del: of_nat_add)
qed

text \<open>In a tiled list an address has the kind of the region it lies in.\<close>

lemma tiled_kind_of: "tiled zs \<Longrightarrow> r \<in> set zs \<Longrightarrow> covers a r \<Longrightarrow> kind_at zs a = Some (kind r)"
proof (induction zs)
  case (Cons z zs)
  then show ?case
    using tiled_bounds [of zs r] by (auto simp: tiled_Cons covers_def dest: order_less_le_trans)
qed simp

section \<open>Properties\<close>

text \<open>
  C7. The transfer of control happens: with a memory map whose largest region is large enough and
  lies below 4 GiB, \<open>transfer_control\<close> ends in the jump to the entry point and nowhere else, with
  a stack pointer aligned to 16 bytes that points to a zero return address followed by the
  address of the system information; both words lie inside the largest region, and no other
  byte of memory has changed.
\<close>

theorem control_is_transferred:
  assumes "regions_at s (si_mem_regions info) zs" and "zs \<noteq> []" and "r = largest_region zs" and "stack_fits r"
  shows "\<exists>esp t. transfer_control entry info info_at s = Some (Inl (Control_Transferred entry esp), t)
    \<and> 16 dvd unat esp \<and> unat (base r) \<le> unat esp \<and> unat esp + 8 < unat (limit r)
    \<and> load32 (mem t) esp = 0 \<and> load32 (mem t) (esp + 4) = info_at
    \<and> (\<forall>x. unat x < unat esp \<or> unat esp + 8 \<le> unat x \<longrightarrow> mem t x = mem s x)"
proof -
  note b = stack_base_bounds [OF assms(4)]
  have lim: "unat (limit r) \<le> 2 ^ 32" using assms(4) by (simp add: stack_fits_def)
  then have u: "unat (of_nat (stack_base r) :: u32) = stack_base r" using b(3) by (simp add: unat_of_nat)
  have le: "stack_base r + 8 \<le> 2 ^ 32" using b(3) lim by simp
  from transfer_control_run [OF assms(1,2) assms(4) [unfolded assms(3)], folded assms(3), of entry info_at]
  show ?thesis
    using b u two_pushes(1,2) [OF le, of info_at "mem s"] two_pushes(3) [OF le, of _ info_at "mem s"]
    by (intro exI [of _ "of_nat (stack_base r)"]) auto
qed

definition info_for_two :: sysinfo_t where
  "info_for_two = \<lparr>si_boot_drive = 0x80, si_mem_regions = 0x3FFE4, si_rsdp = 0\<rparr>"

lemma two_regions_largest: "largest_region two_regions = usable_region 0x110000 0xEF0000"
  by (simp add: largest_region_def two_regions_def)

theorem control_is_transferred_witness:
  "\<exists>t. transfer_control 0x200000 info_for_two 0x7F00 two_region_state = Some (Inl (Control_Transferred 0x200000 0xFFFFF0), t)
    \<and> load32 (mem t) 0xFFFFF0 = 0 \<and> load32 (mem t) 0xFFFFF4 = 0x7F00"
proof -
  have at: "regions_at two_region_state (si_mem_regions info_for_two) two_regions"
    using two_regions_ok(1) by (simp add: info_for_two_def)
  have fits: "stack_fits (usable_region 0x110000 0xEF0000)" by (simp add: stack_fits_def stack_base_def proper_def)
  have ne: "two_regions \<noteq> []" by (simp add: two_regions_def)
  from control_is_transferred [OF at ne two_regions_largest [symmetric] fits, of "0x200000" "0x7F00"]
  obtain esp t where run: "transfer_control 0x200000 info_for_two 0x7F00 two_region_state = Some (Inl (Control_Transferred 0x200000 esp), t)"
    and m: "load32 (mem t) esp = 0" "load32 (mem t) (esp + 4) = 0x7F00" by blast
  have "esp = of_nat (stack_base (usable_region 0x110000 0xEF0000))"
    using run transfer_control_run [OF at ne, of "0x200000" "0x7F00"] fits by (simp add: two_regions_largest)
  then have "esp = 0xFFFFF0" by (simp add: stack_base_def)
  with run m show ?thesis by auto
qed

text \<open>
  C38. The stack is taken from the largest region of the map whatever its type: when that region is
  not usable memory, the first two words of the program's stack are pushed into it.
\<close>

theorem stack_ignores_region_type:
  assumes "regions_at s (si_mem_regions info) zs" and "tiled zs" and "stack_fits (largest_region zs)"
    and "zs \<noteq> []" and "kind (largest_region zs) \<noteq> SYSINFO_MT_USABLE"
  shows "\<exists>esp t. transfer_control entry info info_at s = Some (Inl (Control_Transferred entry esp), t)
    \<and> kind_at zs (ucast esp) \<noteq> Some SYSINFO_MT_USABLE \<and> kind_at zs (ucast esp) \<noteq> None"
proof -
  let ?r = "largest_region zs" and ?esp = "of_nat (stack_base (largest_region zs)) :: u32"
  note b = stack_base_bounds [OF assms(3)]
  have "unat (limit ?r) \<le> 2 ^ 32" using assms(3) by (simp add: stack_fits_def)
  then have "unat ?esp = stack_base ?r" using b(3) by (simp add: unat_of_nat)
  then have c: "covers (ucast ?esp) ?r" using b by (simp add: covers_def word_le_nat_alt word_less_nat_alt)
  have "kind_at zs (ucast ?esp) = Some (kind ?r)"
    by (rule tiled_kind_of [OF assms(2) largest_region_props(1) [OF assms(4)] c])
  with transfer_control_run [OF assms(1,4,3)] assms(5) show ?thesis by auto
qed

definition reserved_regions :: "region list" where
  "reserved_regions = [low_region 0x800000, usable_region 0x800000 0x100000]"

definition reserved_state :: "unit machine" where
  "reserved_state = heaped [0x3FFE4 \<mapsto> as_node 0x3FFC8 (low_region 0x800000),
     0x3FFC8 \<mapsto> as_node 0 (usable_region 0x800000 0x100000)] 0x3FFC8 (boot_state (\<lambda>_. 0) ())"

theorem stack_ignores_region_type_witness:
  "\<exists>esp t. transfer_control 0x800000 info_for_two 0x7F00 reserved_state = Some (Inl (Control_Transferred 0x800000 esp), t)
    \<and> kind_at reserved_regions (ucast esp) \<noteq> Some SYSINFO_MT_USABLE \<and> kind_at reserved_regions (ucast esp) \<noteq> None"
proof -
  have big: "largest_region reserved_regions = low_region 0x800000"
    by (simp add: largest_region_def reserved_regions_def)
  have fits: "stack_fits (low_region 0x800000)" by (simp add: stack_fits_def stack_base_def proper_def)
  show ?thesis
  proof (rule stack_ignores_region_type)
    show "regions_at reserved_state (si_mem_regions info_for_two) reserved_regions"
      by (auto simp: regions_at_def reserved_state_def reserved_regions_def info_for_two_def segment_Cons segment_Nil
          intro!: exI [of _ "[(0x3FFE4, low_region 0x800000), (0x3FFC8, usable_region 0x800000 0x100000)]"])
    show "tiled reserved_regions" by (simp add: reserved_regions_def proper_def)
    show "stack_fits (largest_region reserved_regions)" "kind (largest_region reserved_regions) \<noteq> SYSINFO_MT_USABLE"
      by (simp_all add: big fits)
    show "reserved_regions \<noteq> []" by (simp add: reserved_regions_def)
  qed
qed

text \<open>
  C37. When the largest region begins at 4 GiB or above, as memory beyond the 32-bit address space
  does on a large machine, or when there is no region, \<open>transfer_control\<close> gives up for lack of
  space for the stack and changes nothing, whatever usable memory there is below.
\<close>

theorem high_memory_refused:
  assumes "regions_at s (si_mem_regions info) zs" and "zs = [] \<or> 2 ^ 32 \<le> unat (base (largest_region zs))"
  shows "transfer_control entry info info_at s = Some (Inr CONTROL_NO_SPACE_FOR_STACK, s)"
proof (cases "zs = []")
  case True
  with assms(1) have "si_mem_regions info = 0" by (auto simp: regions_at_def segment_Nil)
  then show ?thesis by (simp add: transfer_control_def get_stack_pointer_def exec_bind exec_basic largest_loop_empty)
next
  case False
  from largest_loop_run [OF assms(1) False] obtain l q where l: "l \<noteq> 0"
    "region_heap s l = Some (as_node q (largest_region zs))" "largest_loop (si_mem_regions info) s = Some (Inr l, s)" by blast
  have node: "node l s = Some (Inr (as_node q (largest_region zs)), s)" using l(2) by (simp add: node_def exec_bind exec_basic)
  have "ucast sp < base (largest_region zs)" for sp :: u32
    using assms(2) False u32_bound [of sp] by (simp add: word_less_nat_alt)
  then show ?thesis
    using l(1) by (simp add: transfer_control_def get_stack_pointer_def exec_bind exec_basic l(3) node Let_def)
qed

definition high_regions :: "region list" where
  "high_regions = [usable_region 0x110000 0xBFEF0000, usable_region 0x100000000 0x340000000]"

theorem high_memory_refused_witness:
  "transfer_control 0x200000 info_for_two 0x7F00 (heaped [0x3FFE4 \<mapsto> as_node 0x3FFC8 (high_regions ! 0),
     0x3FFC8 \<mapsto> as_node 0 (high_regions ! 1)] 0x3FFC8 (boot_state (\<lambda>_. 0) ()))
   = Some (Inr CONTROL_NO_SPACE_FOR_STACK, heaped [0x3FFE4 \<mapsto> as_node 0x3FFC8 (high_regions ! 0),
     0x3FFC8 \<mapsto> as_node 0 (high_regions ! 1)] 0x3FFC8 (boot_state (\<lambda>_. 0) ()))"
proof (rule high_memory_refused)
  show "regions_at (heaped [0x3FFE4 \<mapsto> as_node 0x3FFC8 (high_regions ! 0),
     0x3FFC8 \<mapsto> as_node 0 (high_regions ! 1)] 0x3FFC8 (boot_state (\<lambda>_. 0) ())) (si_mem_regions info_for_two) high_regions"
    by (auto simp: regions_at_def high_regions_def info_for_two_def segment_Cons segment_Nil
        intro!: exI [of _ "[(0x3FFE4, high_regions ! 0), (0x3FFC8, high_regions ! 1)]"])
  show "high_regions = [] \<or> 2 ^ 32 \<le> unat (base (largest_region high_regions))"
    by (simp add: largest_region_def high_regions_def)
qed

end
