(* ===== verification/Boot_Main.thy ===== *)
theory Boot_Main
  imports Options Sysinfo Elf_Load Prot
begin

text \<open>
  \<^verbatim>\<open>stage1/main.c\<close>: the whole of stage 1, from the greeting to the jump into the loaded
  program, every message and every early return included. Each block of \<open>main\<close> is a definition
  of its own that returns \<^term>\<open>None\<close> where \<open>main\<close> returns early; \<open>main\<close> puts them in order.

  The BIOS services are the parameters \<open>int13\<close> and \<open>int15\<close>. What the compiler and the stack
  decide is the record \<open>frame\<close>: the addresses of the locals whose bytes other code sees, the
  address of the signature literal, and what the local arrays hold before they are written.
\<close>

section \<open>The locals\<close>

record frame =
  boot_drive_str :: "u8 list"
  load_offset_str :: "u8 list"
  parser_key :: "u8 list"
  parser_value :: "u8 list"
  options_start :: boot_options_t
  elf_header_at :: u32
  prog_header_at :: u32
  sysinfo_at :: u32
  signature_literal :: u32

section \<open>The blocks of main\<close>

definition BOOT_OPTIONS_TXT :: string where
  "BOOT_OPTIONS_TXT = ''/boot/options.txt''"

definition crlf :: string where
  "crlf = [CHR 0x0D, CHR 0x0A]"

text \<open>A block after another one, unless that one made \<open>main\<close> return.\<close>

definition unless_returned ::
  "('s, 'a option) cmd \<Rightarrow> ('a \<Rightarrow> ('s, 'b option) cmd) \<Rightarrow> ('s, 'b option) cmd"
where
  "unless_returned m k = bind m (\<lambda>r. case r of None \<Rightarrow> ret None | Some a \<Rightarrow> k a)"

text \<open>The end of every error path: the message, the reason, a new line, and the return.\<close>

definition give_up :: "string \<Rightarrow> string \<Rightarrow> ('e machine, 'a option) cmd" where
  "give_up message reason =
     bind (puts (lit message)) (\<lambda>_. bind (puts (lit reason)) (\<lambda>_. bind (puts (lit crlf)) (\<lambda>_. ret None)))"

text \<open>\<open>puts\<close> of what \<open>itoa\<close> returns, which may be a null pointer.\<close>

definition puts_ptr :: "u8 list option \<Rightarrow> ('e machine, unit) cmd" where
  "puts_ptr p = (case p of None \<Rightarrow> halt (Undef Null_Deref) | Some cs \<Rightarrow> puts cs)"

definition greet :: "u8 \<Rightarrow> frame \<Rightarrow> ('e machine, unit) cmd" where
  "greet boot_drive fr =
     bind (puts (lit (''stage2'' @ crlf))) (\<lambda>_.
     bind (puts (lit ''Boot drive: 0x'')) (\<lambda>_.
     bind (lift_res (itoa (uint boot_drive) (Some (boot_drive_str fr)) 16)) (\<lambda>r.
     bind (puts (case r of None \<Rightarrow> boot_drive_str fr | Some str \<Rightarrow> str)) (\<lambda>_.
     puts (lit crlf)))))"

definition mount_volume :: "'e int13 \<Rightarrow> u8 \<Rightarrow> ('e machine, fat_t option) cmd" where
  "mount_volume int13 boot_drive =
     bind (puts (lit (''Reading FAT filesystem...'' @ crlf))) (\<lambda>_.
     bind (fat_mount int13 boot_drive) (\<lambda>(status, fat).
     if status \<noteq> DISK_SUCCESS then
       give_up ''Error loading FAT filesystem. Reason: '' (disk_status_to_str status)
     else ret fat))"

text \<open>
  The twelve bytes copied to \<open>volume_label\<close>: the eleven of the label and the first one of the
  file system type behind it.
\<close>

definition label_bytes :: "fat_t \<Rightarrow> u8 list" where
  "label_bytes fat =
     (case fat_type fat of
       FAT_TYPE_32 \<Rightarrow> take 12 (e32_volume_label (ext_32 (fat_bpb_ext fat)) @ e32_file_system_type (ext_32 (fat_bpb_ext fat)))
     | _ \<Rightarrow> take 12 (e16_volume_label (ext_12_16 (fat_bpb_ext fat)) @ e16_file_system_type (ext_12_16 (fat_bpb_ext fat))))"

definition show_volume :: "fat_t \<Rightarrow> ('e machine, unit) cmd" where
  "show_volume fat =
     bind (puts (lit (''Loaded FAT filesystem.'' @ crlf))) (\<lambda>_.
     bind (puts (lit ''Detected FAT type: '')) (\<lambda>_.
     bind (puts (lit (case fat_type fat of FAT_TYPE_12 \<Rightarrow> ''FAT12'' | FAT_TYPE_16 \<Rightarrow> ''FAT16'' | FAT_TYPE_32 \<Rightarrow> ''FAT32''))) (\<lambda>_.
     bind (lift_res (wr (label_bytes fat) 11 0)) (\<lambda>volume_label.
     bind (puts (lit crlf)) (\<lambda>_.
     bind (puts (lit ''Reading from: '')) (\<lambda>_.
     bind (puts volume_label) (\<lambda>_.
     puts (lit crlf))))))))"

text \<open>
  The parser is given the text up to the terminator that \<open>main\<close> puts behind the file; it
  never reads on.
\<close>

definition read_options :: "'e int13 \<Rightarrow> fat_t \<Rightarrow> frame \<Rightarrow> ('e machine, boot_options_t option) cmd" where
  "read_options int13 fat fr =
     bind (puts (lit (''Opening file: '' @ BOOT_OPTIONS_TXT @ crlf))) (\<lambda>_.
     bind (fat_open int13 fat (lit BOOT_OPTIONS_TXT)) (\<lambda>(fat_result, options_txt).
     case (fat_result, options_txt) of
       (FAT_SUCCESS, Some options_txt) \<Rightarrow>
         bind (puts (lit (''Reading file: '' @ BOOT_OPTIONS_TXT @ crlf))) (\<lambda>_.
         let file_size = de_file_size (file_entry options_txt);
             options_txt_length = file_size + 1 in
         bind (push options_txt_length) (\<lambda>contents.
         bind (fat_read int13 options_txt 0 file_size contents) (\<lambda>fat_result.
         if fat_result \<noteq> FAT_SUCCESS then give_up ''Error reading file. Reason: '' (fat_result_to_str fat_result)
         else
           bind (modify (\<lambda>s. s\<lparr>mem := (mem s)(contents + file_size := 0)\<rparr>)) (\<lambda>_.
           bind (puts (lit (''Parsing file...'' @ crlf))) (\<lambda>_.
           bind (gets (\<lambda>s. bytes_at (mem s) contents (Suc (unat file_size)))) (\<lambda>text.
           bind (lift_res (parse (parser_key fr) (parser_value fr) text (options_start fr))) (\<lambda>(parser_result, boot_options).
           if parser_result \<noteq> PARSER_SUCCESS then
             give_up ''Error parsing file. Reason: '' (parser_result_to_str parser_result)
           else bind (pop options_txt_length) (\<lambda>_. ret (Some boot_options)))))))))
     | _ \<Rightarrow> give_up ''Error opening file. Reason: '' (fat_result_to_str fat_result)))"

definition show_options :: "boot_options_t \<Rightarrow> frame \<Rightarrow> ('e machine, unit) cmd" where
  "show_options boot_options fr =
     bind (puts (lit ''Boot binary path: '')) (\<lambda>_.
     bind (puts (boot_binary boot_options)) (\<lambda>_.
     bind (puts (lit (crlf @ ''Load offset: 0x''))) (\<lambda>_.
     bind (lift_res (itoa (sint (load_offset boot_options)) (Some (load_offset_str fr)) 16)) (\<lambda>r.
     bind (puts_ptr r) (\<lambda>_.
     puts (lit crlf))))))"

definition open_binary :: "'e int13 \<Rightarrow> fat_t \<Rightarrow> boot_options_t \<Rightarrow> ('e machine, fat_file_t option) cmd" where
  "open_binary int13 fat boot_options =
     bind (puts (lit (''Opening boot binary...'' @ crlf))) (\<lambda>_.
     bind (fat_open int13 fat (boot_binary boot_options)) (\<lambda>(fat_result, boot_binary_file).
     if fat_result \<noteq> FAT_SUCCESS then give_up ''Error opening file. Reason: '' (fat_result_to_str fat_result)
     else ret boot_binary_file))"

definition parse_elf :: "'e int13 \<Rightarrow> fat_file_t \<Rightarrow> frame \<Rightarrow> ('e machine, elf_t option) cmd" where
  "parse_elf int13 boot_binary_file fr =
     bind (puts (lit (''Parsing ELF...'' @ crlf))) (\<lambda>_.
     bind (elf_open int13 (elf_header_at fr) boot_binary_file) (\<lambda>(elf_result, elf).
     if elf_result \<noteq> ELF_SUCCESS then give_up ''Error opening file. Reason: '' (elf_result_to_str elf_result)
     else ret (Some elf)))"

text \<open>The bytes of the local \<^verbatim>\<open>sysinfo\<close>, which the loaded program gets a pointer to.\<close>

definition write_sysinfo :: "u32 \<Rightarrow> sysinfo_t \<Rightarrow> ('e machine, unit) cmd" where
  "write_sysinfo a info = modify (\<lambda>s. s\<lparr>mem :=
     store32 (a + 8) (si_rsdp info) (store32 (a + 4) (si_mem_regions info) ((mem s)(a := si_boot_drive info)))\<rparr>)"

definition extract_sysinfo :: "'e int15 \<Rightarrow> u8 \<Rightarrow> frame \<Rightarrow> ('e machine, sysinfo_t option) cmd" where
  "extract_sysinfo int15 boot_drive fr =
     bind (puts (lit (''Extracting sysinfo...'' @ crlf))) (\<lambda>_.
     bind (get_sysinfo int15 (signature_literal fr) boot_drive) (\<lambda>(sysinfo_result, sysinfo).
     case (sysinfo_result, sysinfo) of
       (SYSINFO_SUCCESS, Some sysinfo) \<Rightarrow>
         bind (write_sysinfo (sysinfo_at fr) sysinfo) (\<lambda>_. ret (Some sysinfo))
     | _ \<Rightarrow> give_up ''Error extracting sysinfo. Reason: '' (sysinfo_result_to_str sysinfo_result)))"

text \<open>
  \<open>elf_load\<close> gets the address of the field \<^verbatim>\<open>sysinfo.mem_regions\<close>. It works on the pointer alone, so
  what it leaves there is stored in the field when it returns, whether it succeeded or not; the
  other bytes of the local stay what they are.
\<close>

definition write_mem_regions :: "u32 \<Rightarrow> u32 \<Rightarrow> ('e machine, unit) cmd" where
  "write_mem_regions a mem_regions = modify (\<lambda>s. s\<lparr>mem := store32 (a + 4) mem_regions (mem s)\<rparr>)"

definition load_binary :: "'e int13 \<Rightarrow> elf_t \<Rightarrow> sysinfo_t \<Rightarrow> frame \<Rightarrow> ('e machine, sysinfo_t option) cmd" where
  "load_binary int13 elf sysinfo fr =
     bind (puts (lit (''Loading ELF...'' @ crlf))) (\<lambda>_.
     bind (elf_load int13 (prog_header_at fr) elf (si_mem_regions sysinfo)) (\<lambda>(elf_result, mem_regions).
     bind (write_mem_regions (sysinfo_at fr) mem_regions) (\<lambda>_.
     if elf_result \<noteq> ELF_SUCCESS then give_up ''Error loading file. Reason: '' (elf_result_to_str elf_result)
     else ret (Some (sysinfo\<lparr>si_mem_regions := mem_regions\<rparr>)))))"

text \<open>\<open>transfer_control\<close> only comes back when it has failed.\<close>

definition start_binary :: "sysinfo_t \<Rightarrow> frame \<Rightarrow> ('e machine, unit option) cmd" where
  "start_binary sysinfo fr =
     bind (puts (lit (''Switching to protected mode & transferring control to boot binary...'' @ crlf))) (\<lambda>_.
     bind (gets (\<lambda>s. entry_point (decode_elf_header (mem s) (elf_header_at fr)))) (\<lambda>entry.
     bind (transfer_control entry sysinfo (sysinfo_at fr)) (\<lambda>result.
     give_up ''Error transferring control to kernel. Reason: '' (control_result_to_str result))))"

definition main :: "'e int13 \<Rightarrow> 'e int15 \<Rightarrow> u8 \<Rightarrow> frame \<Rightarrow> ('e machine, unit) cmd" where
  "main int13 int15 boot_drive fr =
     bind (greet boot_drive fr) (\<lambda>_.
     bind (unless_returned (mount_volume int13 boot_drive) (\<lambda>fat.
       bind (show_volume fat) (\<lambda>_.
       unless_returned (read_options int13 fat fr) (\<lambda>boot_options.
       bind (show_options boot_options fr) (\<lambda>_.
       unless_returned (open_binary int13 fat boot_options) (\<lambda>boot_binary_file.
       unless_returned (parse_elf int13 boot_binary_file fr) (\<lambda>elf.
       unless_returned (extract_sysinfo int15 boot_drive fr) (\<lambda>sysinfo.
       unless_returned (load_binary int13 elf sysinfo fr) (\<lambda>sysinfo.
       start_binary sysinfo fr)))))))))
     (\<lambda>_. ret ()))"

section \<open>What a block says and touches\<close>

text \<open>
  \<open>ran txt D s t\<close>: from \<open>s\<close> to \<open>t\<close> the characters \<open>txt\<close> were printed, the extended stack is back
  where it was, and no byte changed outside \<open>D\<close> and the area of the extended stack.
\<close>

definition teletype :: "u8 \<Rightarrow> u32" where
  "teletype c = 0xe00 OR scast c"

definition ran :: "u8 list \<Rightarrow> (u32 \<Rightarrow> bool) \<Rightarrow> 'e machine \<Rightarrow> 'e machine \<Rightarrow> bool" where
  "ran txt D s t \<longleftrightarrow> ext_stack_top t = ext_stack_top s \<and> int10_log t = int10_log s @ map teletype txt
     \<and> (\<forall>x. \<not> D x \<and> (unat x < 0x40000 \<or> 0x80000 \<le> unat x) \<longrightarrow> mem t x = mem s x)"

abbreviation nowhere :: "u32 \<Rightarrow> bool" where
  "nowhere \<equiv> \<lambda>_. False"

text \<open>The list of regions and the static stack are left alone.\<close>

definition same_nodes :: "'e machine \<Rightarrow> 'e machine \<Rightarrow> bool" where
  "same_nodes s t \<longleftrightarrow> region_heap t = region_heap s \<and> static_stack_top t = static_stack_top s"

lemma ran_trans: "ran a D s t \<Longrightarrow> ran b D' t u \<Longrightarrow> ran (a @ b) (\<lambda>x. D x \<or> D' x) s u"
  by (auto simp: ran_def)

lemma ran_quiet: "ran a nowhere s t \<Longrightarrow> ran b D t u \<Longrightarrow> ran (a @ b) D s u"
  by (auto simp: ran_def)

lemma ran_top: "ran a D s t \<Longrightarrow> ext_stack_top t = ext_stack_top s"
  by (simp add: ran_def)

lemma ran_mem: "ran a D s t \<Longrightarrow> \<not> D x \<Longrightarrow> unat x < 0x40000 \<or> 0x80000 \<le> unat x \<Longrightarrow> mem t x = mem s x"
  by (simp add: ran_def)

lemma ran_touched: "touched D s t \<Longrightarrow> ran [] D s t"
  by (simp add: touched_def ran_def)

lemma ran_scratch:
  assumes "only_scratch k s t" and "ext_stack_ok s" and "0x40000 + k \<le> unat (ext_stack_top s)"
  shows "ran [] nowhere s t" "same_nodes s t"
proof -
  have "unat (ext_stack_top s) \<le> 0x80000" using assms(2) by (simp add: ext_stack_ok_def memory_map word_le_nat_alt)
  then have "mem t x = mem s x" if "unat x < 0x40000 \<or> 0x80000 \<le> unat x" for x
    using that assms(3) by (intro only_scratch_mem [OF assms(1)]) auto
  then show "ran [] nowhere s t" "same_nodes s t"
    by (simp_all add: ran_def same_nodes_def only_scratch_frame [OF assms(1)])
qed

lemma ran_put_all: "ran cs nowhere s (put_all cs s)" "same_nodes s (put_all cs s)"
  by (simp_all add: ran_def same_nodes_def put_all_def teletype_def)

lemma put_all_log: "int10_log (put_all cs s) = int10_log s @ map teletype cs"
  by (simp add: put_all_def teletype_def)

lemma same_nodes_trans: "same_nodes s t \<Longrightarrow> same_nodes t u \<Longrightarrow> same_nodes s u"
  by (simp add: same_nodes_def)

lemma put_all_append: "put_all b (put_all a s) = put_all (a @ b) s"
  by (simp add: put_all_def)

lemma read_ready_top: "ext_stack_top t = ext_stack_top s \<Longrightarrow> read_ready int13 f d k t = read_ready int13 f d k s"
  by (simp add: read_ready_def ext_stack_ok_def)

section \<open>Printing\<close>

abbreviation chars :: "string \<Rightarrow> u8 list" where
  "chars \<equiv> map of_char"

lemma puts_cstr:
  assumes "terminated cs"
  shows "puts cs s = Some (Inr (), put_all (cstr cs) s)"
proof -
  obtain rest where "cs = cstr cs @ 0 # rest" using assms terminated_split by blast
  moreover have "0 \<notin> set (cstr cs)" by (auto simp: cstr_def dest: set_takeWhileD)
  ultimately show ?thesis using puts_run [of "cstr cs" rest s] by (simp add: put_all_def)
qed

text \<open>Running a print and what comes after it.\<close>

lemma say_run:
  "CHR 0x00 \<notin> set cs \<Longrightarrow> k () (put_all (chars cs) s) = r \<Longrightarrow> bind (puts (lit cs)) k s = r"
  by (simp add: bind_return puts_lit_run)

lemma print_run: "terminated cs \<Longrightarrow> k () (put_all (cstr cs) s) = r \<Longrightarrow> bind (puts cs) k s = r"
  by (simp add: bind_return puts_cstr)

lemma give_up_run:
  assumes "CHR 0x00 \<notin> set msg" and "CHR 0x00 \<notin> set reason"
  shows "give_up msg reason s = Some (Inr None, put_all (chars (msg @ reason @ crlf)) s)"
  unfolding give_up_def
  by (rule say_run [OF assms(1)], rule say_run [OF assms(2)], rule say_run) (simp_all add: crlf_def exec_basic put_all_append)

definition greeting :: "u8 \<Rightarrow> u8 list" where
  "greeting drv = chars (''stage2'' @ crlf @ ''Boot drive: 0x'') @ itoa_text 16 (uint drv) @ chars crlf"

lemma itoa_buffer:
  assumes "- (2 ^ 31) < v" and "length (itoa_text 16 v) < length str"
  shows "\<exists>str'. itoa v (Some str) 16 = Inr (Some str') \<and> terminated str' \<and> cstr str' = itoa_text 16 v"
  using itoa_writes [of 16 v str] itoa_text_nonzero [of 16 v] assms
  by (auto simp: terminated_def cstr_append)

lemma itoa_text_byte: "length (itoa_text 16 (uint (x :: u8))) \<le> 2"
  using lsd_length [of "uint x" 16 2] uint_lt2p [of x] by (simp add: itoa_text_def)

lemma greet_run:
  assumes "length (boot_drive_str fr) = 3"
  shows "greet drv fr s = Some (Inr (), put_all (greeting drv) s)"
proof -
  have "- (2 ^ 31) < uint drv" by (rule order_less_le_trans [OF _ uint_ge_0]) simp
  moreover have "length (itoa_text 16 (uint drv)) < length (boot_drive_str fr)"
    using itoa_text_byte [of drv] assms by simp
  ultimately obtain str where str: "itoa (uint drv) (Some (boot_drive_str fr)) 16 = Inr (Some str)" "terminated str"
      "cstr str = itoa_text 16 (uint drv)"
    using itoa_buffer by blast
  show ?thesis
    unfolding greet_def
    by (rule say_run, simp add: crlf_def, rule say_run, simp, rule bind_run, unfold str(1), rule exec_lift_res(1),
        unfold option.case, rule print_run [OF str(2)])
      (simp add: puts_lit_run crlf_def str(3) put_all_append greeting_def)
qed

definition type_name :: "fat_type_t \<Rightarrow> string" where
  "type_name ft = (case ft of FAT_TYPE_12 \<Rightarrow> ''FAT12'' | FAT_TYPE_16 \<Rightarrow> ''FAT16'' | FAT_TYPE_32 \<Rightarrow> ''FAT32'')"

definition volume_text :: "fat_t \<Rightarrow> u8 list" where
  "volume_text f = chars (''Loaded FAT filesystem.'' @ crlf @ ''Detected FAT type: '' @ type_name (fat_type f) @ crlf
     @ ''Reading from: '') @ cstr (take 11 (label_bytes f) @ [0]) @ chars crlf"

lemma length_label_bytes: "length (fat_bpb_ext f) = 54 \<Longrightarrow> length (label_bytes f) = 12"
  by (cases "fat_type f") (simp_all add: label_bytes_def ext_12_16_def ext_32_def sub_bytes_def)

lemma show_volume_run:
  assumes "length (fat_bpb_ext f) = 54"
  shows "show_volume f s = Some (Inr (), put_all (volume_text f) s)"
proof -
  note len = length_label_bytes [OF assms]
  have upd: "(label_bytes f)[11 := 0] = take 11 (label_bytes f) @ [0]"
    using len by (simp add: upd_conv_take_nth_drop)
  have lab: "wr (label_bytes f) 11 0 = Inr (take 11 (label_bytes f) @ [0])"
    using len by (simp add: upd)
  have nm: "CHR 0x00 \<notin> set (type_name (fat_type f))"
    by (cases "fat_type f") (simp_all add: type_name_def)
  have "terminated (take 11 (label_bytes f) @ [0])" by (simp add: terminated_def)
  note lab_run = print_run [OF this]
  show ?thesis
    unfolding show_volume_def lab type_name_def [symmetric]
    by (rule say_run, simp add: crlf_def, rule say_run, simp, rule say_run, rule nm, rule bind_run, rule exec_lift_res(1),
        rule say_run, simp add: crlf_def, rule say_run, simp, rule lab_run)
      (simp add: puts_lit_run crlf_def put_all_append volume_text_def)
qed

lemma length_mounted_ext: "length b = 90 \<Longrightarrow> length (fat_bpb_ext (fat_of_boot_sector drv b)) = 54"
  by (simp add: fat_of_boot_sector_def Let_def sub_bytes_def)

lemma mount_volume_run:
  fixes int13 :: "'e int13"
  assumes "edd_read int13 drv d ssz" and "no_read_errors int13 drv"
    and "90 \<le> ssz" and "ssz \<le> 4096" and "ext_stack_ok s" and "ext_room 4096 s"
  shows "\<exists>t. mount_volume int13 drv s = Some (Inr (Some (fat_of_boot_sector drv (map (d 0) [0..<90]))), t)
    \<and> ran (chars (''Reading FAT filesystem...'' @ crlf)) nowhere s t \<and> same_nodes s t"
proof -
  let ?txt = "''Reading FAT filesystem...'' @ crlf" and ?f = "fat_of_boot_sector drv (map (d 0) [0..<90])"
  let ?u = "put_all (chars ?txt) s"
  have u: "ext_stack_ok ?u" "ext_room 4096 ?u" using assms(5,6) by (simp_all add: ext_stack_ok_def ext_room_def)
  from fat_mount_run [OF assms(1-4) u] obtain e m where
    run: "fat_mount int13 drv ?u = Some (Inr (DISK_SUCCESS, Some ?f), ?u\<lparr>bios_env := e, mem := m\<rparr>)"
    and m: "\<And>x. \<not> in_range (ext_stack_top s - 4096) 4096 x \<Longrightarrow> m x = mem s x" by auto
  have le: "unat (4096 :: u32) \<le> unat (ext_stack_top s)" and top: "0x40000 + 4096 \<le> unat (ext_stack_top s)"
    using assms(5,6) ext_room_unat [of s 4096] by simp_all
  have "unat (ext_stack_top s) \<le> 0x80000" using assms(5) by (simp add: ext_stack_ok_def memory_map word_le_nat_alt)
  then have "m x = mem s x" if "unat x < 0x40000 \<or> 0x80000 \<le> unat x" for x
    using that top in_range_below [OF le, of 4096 x] by (intro m) auto
  then have "ran (chars ?txt) nowhere s (?u\<lparr>bios_env := e, mem := m\<rparr>)" "same_nodes s (?u\<lparr>bios_env := e, mem := m\<rparr>)"
    using ran_put_all(1) [of "chars ?txt" s] by (simp_all add: ran_def same_nodes_def)
  moreover have "mount_volume int13 drv s = Some (Inr (Some ?f), ?u\<lparr>bios_env := e, mem := m\<rparr>)"
    unfolding mount_volume_def
    by (rule say_run, simp add: crlf_def, rule bind_run, rule run) (simp add: exec_basic)
  ultimately show ?thesis by blast
qed

definition options_text :: "boot_options_t \<Rightarrow> u8 list" where
  "options_text opts = chars ''Boot binary path: '' @ cstr (boot_binary opts) @ chars (crlf @ ''Load offset: 0x'')
     @ itoa_text 16 (sint (load_offset opts)) @ chars crlf"

lemma show_options_run:
  assumes "terminated (boot_binary opts)" and "- (2 ^ 31) < sint (load_offset opts)"
    and "length (itoa_text 16 (sint (load_offset opts))) < length (load_offset_str fr)"
  shows "show_options opts fr s = Some (Inr (), put_all (options_text opts) s)"
proof -
  obtain str where str: "itoa (sint (load_offset opts)) (Some (load_offset_str fr)) 16 = Inr (Some str)" "terminated str"
      "cstr str = itoa_text 16 (sint (load_offset opts))"
    using itoa_buffer [OF assms(2,3)] by blast
  show ?thesis
    unfolding show_options_def str(1)
    by (rule say_run, simp, rule print_run [OF assms(1)], rule say_run, simp add: crlf_def, rule bind_run, rule exec_lift_res(1),
        unfold puts_ptr_def option.case, rule print_run [OF str(2)])
      (simp add: puts_lit_run crlf_def str(3) put_all_append options_text_def)
qed

lemma sint_small:
  assumes "unat (x :: u32) < 2 ^ 31"
  shows "sint x = uint x" "uint x < 2 ^ 31"
proof -
  have "int (unat x) < int (2 ^ 31)" using assms by (simp only: of_nat_less_iff)
  then show lt: "uint x < 2 ^ 31" by simp
  have "- (2 ^ 31) \<le> uint x" by (rule order_trans [OF _ uint_ge_0]) simp
  with lt have "signed_take_bit 31 (uint x) = uint x" by (intro signed_take_bit_int_eq_self) simp_all
  then show "sint x = uint x" by (simp only: sint_uint) simp
qed

lemma itoa_text_offset:
  assumes "unat (x :: u32) < 2 ^ 31"
  shows "length (itoa_text 16 (sint x)) \<le> 8" "- (2 ^ 31) < sint x"
proof -
  note x = sint_small [OF assms]
  show "- (2 ^ 31) < sint x" unfolding x(1) by (rule order_less_le_trans [OF _ uint_ge_0]) simp
  have "uint x < 16 ^ 8" using x(2) by simp
  then have "length (lsd 16 (uint x)) \<le> 8" by (intro lsd_length) simp_all
  then show "length (itoa_text 16 (sint x)) \<le> 8" unfolding x(1) by (simp add: itoa_text_def)
qed

definition opening_text :: "u8 list" where
  "opening_text = chars (''Opening boot binary...'' @ crlf)"

lemma open_binary_run:
  fixes int13 :: "'e int13"
  assumes leads: "path_leads f d segs r" and ne: "segs \<noteq> []"
    and ready: "read_ready int13 f d (open_scratch f) s"
    and root: "fat_type f \<noteq> FAT_TYPE_32 \<longrightarrow> root_fits f"
    and path: "boot_binary opts = path_of segs rest" and res: "open_result f r = (FAT_SUCCESS, Some fl)"
  shows "\<exists>t. open_binary int13 f opts s = Some (Inr (Some fl), t)
    \<and> ran opening_text nowhere s t \<and> same_nodes s t"
proof -
  let ?u = "put_all opening_text s"
  have u: "read_ready int13 f d (open_scratch f) ?u" using ready by (simp add: read_ready_top [of ?u s])
  from fat_open_run [OF leads ne u, of rest] root obtain t where
    run: "fat_open int13 f (path_of segs rest) ?u = Some (Inr (FAT_SUCCESS, Some fl), t)"
    and t: "only_scratch (open_scratch f) ?u t" by (auto simp: res)
  have "ran [] nowhere ?u t" "same_nodes ?u t"
    using ran_scratch [OF t] u by (simp_all add: read_ready_def)
  then have "ran opening_text nowhere s t" "same_nodes s t"
    using ran_quiet [OF ran_put_all(1)] same_nodes_trans [OF ran_put_all(2)] by fastforce+
  moreover have "open_binary int13 f opts s = Some (Inr (Some fl), t)"
    unfolding open_binary_def path
    by (rule say_run, simp add: crlf_def, rule bind_run, rule run [unfolded opening_text_def]) (simp add: exec_basic)
  ultimately show ?thesis by blast
qed

definition found_text :: "u8 list" where
  "found_text = chars (''Opening file: '' @ BOOT_OPTIONS_TXT @ crlf) @ chars (''Reading file: '' @ BOOT_OPTIONS_TXT @ crlf)"

definition parsing_text :: "u8 list" where
  "parsing_text = chars (''Parsing file...'' @ crlf)"

text \<open>The text of the options in the block above the stack top, ended by the zero behind it.\<close>

lemma bytes_at_terminated:
  assumes "\<forall>i<n. m (b + of_nat i) = g i" and "n < 2 ^ 32"
  shows "bytes_at (m(b + of_nat n := 0)) b (Suc n) = map g [0..<n] @ [0]"
proof -
  have "(of_nat i :: u32) \<noteq> of_nat n" if "i < n" for i
    using that assms(2) by (auto simp: of_nat_inverse dest: arg_cong [of _ _ unat])
  then show ?thesis using assms(1) by (auto simp: bytes_at_def)
qed

lemma options_block:
  fixes int13 :: "'e int13"
  assumes rdy: "file_ready int13 fl d s" and holds: "file_holds fl d 0 (unat n)"
    and room: "0x40000 + read_scratch (file_fat fl) + unat n + 1 \<le> unat (ext_stack_top s)"
  shows "\<exists>t u. push (n + 1) s = Some (Inr (ext_stack_top s - (n + 1)), t)
    \<and> fat_read int13 fl 0 n (ext_stack_top s - (n + 1)) t = Some (Inr FAT_SUCCESS, u)
    \<and> (\<forall>i < unat n. mem u (ext_stack_top s - (n + 1) + of_nat i) = file_bytes fl d i)
    \<and> (\<forall>v :: 'e machine. ext_stack_top v = ext_stack_top u \<longrightarrow> pop (n + 1) v = Some (Inr (), v\<lparr>ext_stack_top := ext_stack_top s\<rparr>))
    \<and> ext_stack_top u = ext_stack_top s - (n + 1) \<and> int10_log u = int10_log s \<and> same_nodes s u
    \<and> (\<forall>x. unat x < 0x40000 \<or> 0x80000 \<le> unat x \<longrightarrow> mem u x = mem s x)
    \<and> 0x40000 \<le> unat (ext_stack_top s - (n + 1)) \<and> unat (ext_stack_top s - (n + 1)) + unat n < 0x80000"
proof -
  let ?top = "ext_stack_top s" let ?b = "?top - (n + 1)" let ?t = "s\<lparr>ext_stack_top := ?b\<rparr>"
  have st: "ext_stack_ok s" using rdy by (simp add: file_ready_def read_ready_def)
  have top: "unat ?top \<le> 0x80000" using st by (simp add: ext_stack_ok_def memory_map word_le_nat_alt)
  have n1: "unat (n + 1) = unat n + 1" using room u32_bound [of ?top] by (simp add: unat_word_ariths)
  have er: "ext_room (n + 1) s" using room by (simp add: ext_room_unat [OF st] n1)
  have b: "unat ?b = unat ?top - (unat n + 1)" using room by (subst unat_sub) (simp_all add: word_le_nat_alt n1)
  have rr: "read_ready int13 (file_fat fl) d (read_scratch (file_fat fl)) ?t"
    using rdy room push_keeps_ok [OF st er] b by (simp add: file_ready_def read_ready_def)
  then have rdy': "file_ready int13 fl d ?t" using rdy by (simp add: file_ready_def)
  have "clear_of_stack ?b (unat n) ?t" using b top room by (simp add: clear_of_stack_def)
  moreover have "unat ?b + unat n < 2 ^ 32"
  proof -
    have "unat ?b + unat n + 1 = unat ?top" using b room by simp
    with top show ?thesis by simp
  qed
  ultimately obtain u where
    run: "fat_read int13 fl 0 n ?b ?t = Some (Inr FAT_SUCCESS, u)"
    and fl: "filled ?b (unat n) (file_bytes fl d) (read_scratch (file_fat fl)) ?t u"
    using fat_file.read_fills [OF rdy', of 0 n ?b] holds by auto
  from fl obtain e m where u: "u = ?t\<lparr>bios_env := e, mem := m\<rparr>" and data: "\<forall>i < unat n. m (?b + of_nat i) = file_bytes fl d i"
    and fm: "\<And>x. \<not> in_range ?b (unat n) x \<Longrightarrow>
      \<not> (unat x < unat ?b \<and> unat ?b \<le> unat x + read_scratch (file_fat fl)) \<Longrightarrow> m x = mem s x"
    unfolding filled_def by auto
  have "m x = mem s x" if "unat x < 0x40000 \<or> 0x80000 \<le> unat x" for x
  proof (rule fm)
    show "\<not> in_range ?b (unat n) x" using that b top room by (subst in_range_nat) auto
    show "\<not> (unat x < unat ?b \<and> unat ?b \<le> unat x + read_scratch (file_fat fl))" using that b top room by auto
  qed
  then show ?thesis
    using push_run [OF er] run u data b top room pop_after_push [OF st er]
    by (intro exI [of _ ?t] exI [of _ u]) (auto simp: same_nodes_def)
qed

lemma read_options_parses:
  fixes int13 :: "'e int13"
  assumes leads: "path_leads f d [chars ''boot'', chars ''options.txt''] (Some e)" and plain: "de_attr e AND FAT_ATTR_DIRECTORY = 0"
    and ready: "read_ready int13 f d (open_scratch f) s" and root: "fat_type f \<noteq> FAT_TYPE_32 \<longrightarrow> root_fits f"
    and start: "unat (dirent_cluster e) < 2 ^ 28"
    and holds: "file_holds \<lparr>file_fat = f, file_entry = e\<rparr> d 0 (unat (de_file_size e))"
    and room: "0x40000 + read_scratch f + unat (de_file_size e) + 1 \<le> unat (ext_stack_top s)"
  shows "\<exists>t. read_options int13 f fr s =
      bind (lift_res (parse (parser_key fr) (parser_value fr)
          (map (file_bytes \<lparr>file_fat = f, file_entry = e\<rparr> d) [0..<unat (de_file_size e)] @ [0]) (options_start fr)))
        (\<lambda>(parser_result, boot_options).
           if parser_result \<noteq> PARSER_SUCCESS then give_up ''Error parsing file. Reason: '' (parser_result_to_str parser_result)
           else bind (pop (de_file_size e + 1)) (\<lambda>_. ret (Some boot_options))) t
    \<and> ext_stack_top t = ext_stack_top s - (de_file_size e + 1)
    \<and> int10_log t = int10_log s @ map teletype (found_text @ parsing_text) \<and> same_nodes s t
    \<and> (\<forall>x. unat x < 0x40000 \<or> 0x80000 \<le> unat x \<longrightarrow> mem t x = mem s x)
    \<and> pop (de_file_size e + 1) t = Some (Inr (), t\<lparr>ext_stack_top := ext_stack_top s\<rparr>)"
proof -
  let ?fl = "\<lparr>file_fat = f, file_entry = e\<rparr>" and ?n = "de_file_size e"
  define t1 where "t1 = chars (''Opening file: '' @ BOOT_OPTIONS_TXT @ crlf)"
  define t2 where "t2 = chars (''Reading file: '' @ BOOT_OPTIONS_TXT @ crlf)"
  let ?s1 = "put_all t1 s"
  have r1: "read_ready int13 f d (open_scratch f) ?s1" using ready by (simp add: read_ready_top [of ?s1 s])
  have "path_of [chars ''boot'', chars ''options.txt''] [] = lit BOOT_OPTIONS_TXT" by (simp add: lit_def BOOT_OPTIONS_TXT_def)
  moreover have "open_result f (Some e) = (FAT_SUCCESS, Some ?fl)" using plain by (simp add: open_result_def)
  ultimately obtain s2 where op: "fat_open int13 f (lit BOOT_OPTIONS_TXT) ?s1 = Some (Inr (FAT_SUCCESS, Some ?fl), s2)"
    and sc: "only_scratch (open_scratch f) ?s1 s2"
    using fat_open_run [OF leads _ r1, of "[]"] root by auto
  have s2: "ran [] nowhere ?s1 s2" "same_nodes ?s1 s2"
    using ran_scratch [OF sc] r1 by (simp_all add: read_ready_def)
  let ?s3 = "put_all t2 s2"
  have top2: "ext_stack_top s2 = ext_stack_top s" using ran_top [OF s2(1)] by simp
  then have top3: "ext_stack_top ?s3 = ext_stack_top s" by simp
  have rdy3: "file_ready int13 ?fl d ?s3"
    using ready start room by (simp add: file_ready_def read_ready_def ext_stack_ok_def top2)
  have room3: "0x40000 + read_scratch (file_fat ?fl) + unat ?n + 1 \<le> unat (ext_stack_top ?s3)"
    using room by (simp add: top2)
  from options_block [OF rdy3 holds room3] obtain s4 s5 where
    pu: "push (?n + 1) ?s3 = Some (Inr (ext_stack_top ?s3 - (?n + 1)), s4)"
    and rd: "fat_read int13 ?fl 0 ?n (ext_stack_top ?s3 - (?n + 1)) s4 = Some (Inr FAT_SUCCESS, s5)"
    and data: "\<forall>i < unat ?n. mem s5 (ext_stack_top ?s3 - (?n + 1) + of_nat i) = file_bytes ?fl d i"
    and po: "\<And>v :: 'e machine. ext_stack_top v = ext_stack_top s5 \<Longrightarrow> pop (?n + 1) v = Some (Inr (), v\<lparr>ext_stack_top := ext_stack_top ?s3\<rparr>)"
    and top5: "ext_stack_top s5 = ext_stack_top ?s3 - (?n + 1)"
    and fr5: "int10_log s5 = int10_log ?s3" "same_nodes ?s3 s5"
      "\<And>x. unat x < 0x40000 \<or> 0x80000 \<le> unat x \<Longrightarrow> mem s5 x = mem ?s3 x"
    and b: "0x40000 \<le> unat (ext_stack_top ?s3 - (?n + 1))" "unat (ext_stack_top ?s3 - (?n + 1)) + unat ?n < 0x80000"
    by blast
  let ?b = "ext_stack_top ?s3 - (?n + 1)"
  let ?t = "put_all parsing_text (s5\<lparr>mem := (mem s5)(?b + ?n := 0)\<rparr>)"
  have "bytes_at ((mem s5)(?b + of_nat (unat ?n) := 0)) ?b (Suc (unat ?n)) = map (file_bytes ?fl d) [0..<unat ?n] @ [0]"
    by (rule bytes_at_terminated [OF data]) (use u32_bound [of ?n] in simp)
  then have content: "bytes_at (mem ?t) ?b (Suc (unat ?n)) = map (file_bytes ?fl d) [0..<unat ?n] @ [0]" by simp
  have run: "read_options int13 f fr s =
      bind (lift_res (parse (parser_key fr) (parser_value fr) (map (file_bytes ?fl d) [0..<unat ?n] @ [0]) (options_start fr)))
        (\<lambda>(parser_result, boot_options).
           if parser_result \<noteq> PARSER_SUCCESS then give_up ''Error parsing file. Reason: '' (parser_result_to_str parser_result)
           else bind (pop (?n + 1)) (\<lambda>_. ret (Some boot_options))) ?t"
    unfolding read_options_def
    by (rule say_run, simp add: crlf_def BOOT_OPTIONS_TXT_def, rule bind_run, rule op [unfolded t1_def], unfold prod.case fat_result_t.case option.case,
        rule say_run, simp add: crlf_def BOOT_OPTIONS_TXT_def, unfold Let_def fat_file_t.simps,
        rule bind_run, rule pu [unfolded t2_def], rule bind_run, rule rd [unfolded t2_def], subst if_not_P, simp,
        rule bind_run, rule exec_basic(4), rule say_run, simp add: crlf_def, rule bind_run, rule exec_basic(3),
        unfold content [unfolded parsing_text_def t2_def]) (simp only: t2_def parsing_text_def)
  moreover have "int10_log ?t = int10_log s @ map teletype (found_text @ parsing_text)"
  proof -
    have "found_text = t1 @ t2" by (simp only: found_text_def t1_def t2_def)
    moreover have "int10_log ?t = int10_log s @ map teletype ((t1 @ t2) @ parsing_text)"
      using fr5(1) s2(1) by (simp add: ran_def put_all_log)
    ultimately show ?thesis by (simp only:)
  qed
  moreover have "mem ?t x = mem s x" if x: "unat x < 0x40000 \<or> 0x80000 \<le> unat x" for x
  proof -
    have "unat (?b + ?n) = unat ?b + unat ?n" using b(2) by (subst unat_word_ariths) simp
    then have "x \<noteq> ?b + ?n" using x b by auto
    moreover have "mem s5 x = mem s x" using fr5(3) [of x] ran_mem [OF s2(1), of x] x by simp
    ultimately show ?thesis by simp
  qed
  moreover have "ext_stack_top ?t = ext_stack_top s - (?n + 1)" using top5 top3 by simp
  moreover have "pop (?n + 1) ?t = Some (Inr (), ?t\<lparr>ext_stack_top := ext_stack_top s\<rparr>)" using po [of ?t] top3 by simp
  moreover have "same_nodes s ?t" using fr5(2) s2(2) by (simp add: same_nodes_def)
  ultimately show ?thesis by blast
qed

lemma read_options_run:
  fixes int13 :: "'e int13"
  assumes leads: "path_leads f d [chars ''boot'', chars ''options.txt''] (Some e)" and plain: "de_attr e AND FAT_ATTR_DIRECTORY = 0"
    and ready: "read_ready int13 f d (open_scratch f) s" and root: "fat_type f \<noteq> FAT_TYPE_32 \<longrightarrow> root_fits f"
    and start: "unat (dirent_cluster e) < 2 ^ 28"
    and holds: "file_holds \<lparr>file_fat = f, file_entry = e\<rparr> d 0 (unat (de_file_size e))"
    and room: "0x40000 + read_scratch f + unat (de_file_size e) + 1 \<le> unat (ext_stack_top s)"
    and ok: "parse (parser_key fr) (parser_value fr)
        (map (file_bytes \<lparr>file_fat = f, file_entry = e\<rparr> d) [0..<unat (de_file_size e)] @ [0]) (options_start fr) = Inr (PARSER_SUCCESS, opts)"
  shows "\<exists>t. read_options int13 f fr s = Some (Inr (Some opts), t)
    \<and> ran (found_text @ parsing_text) nowhere s t \<and> same_nodes s t"
proof -
  from read_options_parses [OF assms(1-7), of fr, unfolded ok] obtain t where
    run: "read_options int13 f fr s = bind (lift_res (Inr (PARSER_SUCCESS, opts)))
        (\<lambda>(parser_result, boot_options).
           if parser_result \<noteq> PARSER_SUCCESS then give_up ''Error parsing file. Reason: '' (parser_result_to_str parser_result)
           else bind (pop (de_file_size e + 1)) (\<lambda>_. ret (Some boot_options))) t"
    and t: "int10_log t = int10_log s @ map teletype (found_text @ parsing_text)" "same_nodes s t"
      "\<forall>x. unat x < 0x40000 \<or> 0x80000 \<le> unat x \<longrightarrow> mem t x = mem s x"
    and po: "pop (de_file_size e + 1) t = Some (Inr (), t\<lparr>ext_stack_top := ext_stack_top s\<rparr>)" by blast
  have "read_options int13 f fr s = Some (Inr (Some opts), t\<lparr>ext_stack_top := ext_stack_top s\<rparr>)"
    unfolding run by (rule bind_run, rule exec_lift_res(1)) (simp add: exec_bind po exec_basic)
  moreover have "ran (found_text @ parsing_text) nowhere s (t\<lparr>ext_stack_top := ext_stack_top s\<rparr>)"
    using t(1,3) by (simp add: ran_def)
  ultimately show ?thesis using t(2) by (auto simp: same_nodes_def)
qed

text \<open>The options cannot be opened: nothing is left on the stack.\<close>

definition missing_text :: "fat_result_t \<Rightarrow> u8 list" where
  "missing_text r = chars (''Opening file: '' @ BOOT_OPTIONS_TXT @ crlf)
     @ chars (''Error opening file. Reason: '' @ fat_result_to_str r @ crlf)"

lemma fat_reason_chars: "CHR 0x00 \<notin> set (fat_result_to_str r)"
  by (cases r) simp_all

lemma read_options_missing:
  fixes int13 :: "'e int13"
  assumes leads: "path_leads f d [chars ''boot'', chars ''options.txt''] r" and err: "open_result f r = (err, None)"
    and ready: "read_ready int13 f d (open_scratch f) s" and root: "fat_type f \<noteq> FAT_TYPE_32 \<longrightarrow> root_fits f"
  shows "\<exists>t. read_options int13 f fr s = Some (Inr None, t) \<and> ran (missing_text err) nowhere s t \<and> same_nodes s t"
proof -
  define t1 where "t1 = chars (''Opening file: '' @ BOOT_OPTIONS_TXT @ crlf)"
  define t2 where "t2 = chars (''Error opening file. Reason: '' @ fat_result_to_str err @ crlf)"
  let ?s1 = "put_all t1 s"
  have r1: "read_ready int13 f d (open_scratch f) ?s1" using ready by (simp add: read_ready_top [of ?s1 s])
  have "path_of [chars ''boot'', chars ''options.txt''] [] = lit BOOT_OPTIONS_TXT" by (simp add: lit_def BOOT_OPTIONS_TXT_def)
  then obtain s2 where op: "fat_open int13 f (lit BOOT_OPTIONS_TXT) ?s1 = Some (Inr (err, None), s2)"
    and sc: "only_scratch (open_scratch f) ?s1 s2"
    using fat_open_run [OF leads _ r1, of "[]"] root err by auto
  have s2: "ran [] nowhere ?s1 s2" "same_nodes ?s1 s2" using ran_scratch [OF sc] r1 by (simp_all add: read_ready_def)
  have gu: "give_up ''Error opening file. Reason: '' (fat_result_to_str err) s2 = Some (Inr None, put_all t2 s2)"
    unfolding t2_def by (rule give_up_run) (simp_all add: fat_reason_chars)
  have "read_options int13 f fr s = Some (Inr None, put_all t2 s2)"
    unfolding read_options_def
    by (rule say_run, simp add: crlf_def BOOT_OPTIONS_TXT_def, rule bind_run, rule op [unfolded t1_def])
      (use gu in \<open>cases err; simp\<close>)
  moreover have "ran (t1 @ [] @ t2) nowhere s (put_all t2 s2)"
    by (rule ran_quiet [OF ran_put_all(1) ran_quiet [OF s2(1) ran_put_all(1)]])
  moreover have "same_nodes s (put_all t2 s2)" using s2(2) by (simp add: same_nodes_def)
  ultimately show ?thesis by (auto simp: missing_text_def t1_def t2_def simp del: list.map map_append)
qed

definition elf_text :: "u8 list" where
  "elf_text = chars (''Parsing ELF...'' @ crlf)"

lemma parse_elf_run:
  fixes int13 :: "'e int13"
  assumes "file_ready int13 fl d s" and "file_holds fl d 0 52" and "unat (elf_header_at fr) + 52 \<le> 0x40000"
    and ok: "accepted_elf (file_bytes fl d)"
  shows "\<exists>t. parse_elf int13 fl fr s = Some (Inr (Some \<lparr>elf_file = fl, elf_header = elf_header_at fr\<rparr>), t)
    \<and> decode_elf_header (mem t) (elf_header_at fr) = header_of (file_bytes fl d)
    \<and> ran elf_text (in_range (elf_header_at fr) 52) s t \<and> same_nodes s t"
proof -
  let ?s = "put_all elf_text s"
  have "file_ready int13 fl d ?s" using fat_file.ready_top [OF assms(1), of ?s] by simp
  from elf_open_run [OF this assms(2,3)] validate_header_accepts [of "file_bytes fl d"] ok obtain t where
    run: "elf_open int13 (elf_header_at fr) fl ?s = Some (Inr (ELF_SUCCESS, \<lparr>elf_file = fl, elf_header = elf_header_at fr\<rparr>), t)"
    and t: "decode_elf_header (mem t) (elf_header_at fr) = header_of (file_bytes fl d)" "touched (in_range (elf_header_at fr) 52) ?s t"
      "region_heap t = region_heap ?s" "static_stack_top t = static_stack_top ?s"
    by auto
  have "parse_elf int13 fl fr s = Some (Inr (Some \<lparr>elf_file = fl, elf_header = elf_header_at fr\<rparr>), t)"
    unfolding parse_elf_def
    by (rule say_run, simp add: crlf_def, rule bind_run, rule run [unfolded elf_text_def]) (simp add: exec_basic)
  moreover have "ran (elf_text @ []) (in_range (elf_header_at fr) 52) s t"
    by (rule ran_quiet [OF ran_put_all(1) ran_touched [OF t(2)]])
  ultimately show ?thesis using t(1,3,4) by (auto simp: same_nodes_def)
qed

section \<open>The bytes of sysinfo\<close>

definition sysinfo_in :: "memory \<Rightarrow> u32 \<Rightarrow> sysinfo_t \<Rightarrow> bool" where
  "sysinfo_in m a info \<longleftrightarrow> m a = si_boot_drive info \<and> load32 m (a + 4) = si_mem_regions info \<and> load32 m (a + 8) = si_rsdp info"

definition sysinfo_written :: "u32 \<Rightarrow> sysinfo_t \<Rightarrow> 'e machine \<Rightarrow> 'e machine" where
  "sysinfo_written a info s = s\<lparr>mem :=
     store32 (a + 8) (si_rsdp info) (store32 (a + 4) (si_mem_regions info) ((mem s)(a := si_boot_drive info)))\<rparr>"

lemma write_sysinfo_run: "write_sysinfo a info s = Some (Inr (), sysinfo_written a info s)"
  by (simp add: write_sysinfo_def sysinfo_written_def exec_basic)

lemma unat_offsets:
  assumes "unat (a :: u32) + 12 \<le> 0x40000"
  shows "unat (a + 1) = unat a + 1" "unat (a + 2) = unat a + 2" "unat (a + 3) = unat a + 3" "unat (a + 4) = unat a + 4"
    "unat (a + 5) = unat a + 5" "unat (a + 6) = unat a + 6" "unat (a + 7) = unat a + 7" "unat (a + 8) = unat a + 8"
  using assms by (simp_all add: unat_word_ariths)

lemma sysinfo_written_ok:
  assumes a: "unat a + 12 \<le> 0x40000"
  shows "sysinfo_in (mem (sysinfo_written a info s)) a info" "ran [] (in_range a 12) s (sysinfo_written a info s)"
    "same_nodes s (sysinfo_written a info s)"
proof -
  note u = unat_offsets [OF a]
  have four: "unat (a + 4) + 4 \<le> 2 ^ 32" "unat (a + 8) + 4 \<le> 2 ^ 32" using a u by simp_all
  let ?m1 = "(mem s)(a := si_boot_drive info)"
  let ?m2 = "store32 (a + 4) (si_mem_regions info) ?m1"
  let ?m3 = "store32 (a + 8) (si_rsdp info) ?m2"
  have low: "?m3 x = ?m2 x" if "unat x < unat a + 8" for x
    using that u by (intro store32_other [OF four(2)]) simp
  have "?m3 a = ?m2 a" by (rule low) simp
  also have "\<dots> = ?m1 a" using u by (intro store32_other [OF four(1)]) simp
  finally have "?m3 a = si_boot_drive info" by simp
  moreover have "load32 ?m3 (a + 4) = load32 ?m2 (a + 4)"
    using u by (intro load32_cong low) (simp_all add: add.assoc)
  ultimately show "sysinfo_in (mem (sysinfo_written a info s)) a info"
    by (simp add: sysinfo_in_def sysinfo_written_def load32_store32)
  have "?m3 x = mem s x" if "\<not> in_range a 12 x" for x
  proof -
    have x: "unat x < unat a \<or> unat a + 12 \<le> unat x" using that a by (subst (asm) in_range_nat) auto
    have "?m3 x = ?m2 x" by (rule store32_other [OF four(2)]) (use x u in auto)
    moreover have "?m2 x = ?m1 x" by (rule store32_other [OF four(1)]) (use x u in auto)
    moreover have "x \<noteq> a" using x by auto
    ultimately show ?thesis by simp
  qed
  then show "ran [] (in_range a 12) s (sysinfo_written a info s)"
    by (simp add: ran_def sysinfo_written_def)
  show "same_nodes s (sysinfo_written a info s)" by (simp add: same_nodes_def sysinfo_written_def)
qed

lemma sysinfo_in_cong:
  assumes "sysinfo_in m a info" and "\<And>x. in_range a 12 x \<Longrightarrow> m' x = m x"
  shows "sysinfo_in m' a info"
proof -
  have r: "m' (a + k) = m (a + k)" if "unat k < 12" for k
    using assms(2) [of "a + k"] that by (simp add: in_range_def)
  have "m' a = m a" using r [of 0] by simp
  moreover have "load32 m' (a + 4) = load32 m (a + 4)" "load32 m' (a + 8) = load32 m (a + 8)"
    using r [of 4] r [of 5] r [of 6] r [of 7] r [of 8] r [of 9] r [of 10] r [of 11]
    by (simp_all add: load32_def add.assoc)
  ultimately show ?thesis using assms(1) by (simp add: sysinfo_in_def)
qed

definition regions_written :: "u32 \<Rightarrow> u32 \<Rightarrow> 'e machine \<Rightarrow> 'e machine" where
  "regions_written a q s = s\<lparr>mem := store32 (a + 4) q (mem s)\<rparr>"

lemma regions_written_ok:
  assumes a: "unat a + 12 \<le> 0x40000"
  shows "sysinfo_in (mem s) a info \<Longrightarrow> sysinfo_in (mem (regions_written a q s)) a (info\<lparr>si_mem_regions := q\<rparr>)"
    and "ran [] (in_range a 12) s (regions_written a q s)" "same_nodes s (regions_written a q s)"
proof -
  note u = unat_offsets [OF a]
  have four: "unat (a + 4) + 4 \<le> 2 ^ 32" using a u by simp
  let ?m = "store32 (a + 4) q (mem s)"
  have out: "?m x = mem s x" if "unat x < unat a + 4 \<or> unat a + 8 \<le> unat x" for x
    using that u(4) by (intro store32_other [OF four]) auto
  have u2: "unat (a + 9) = unat a + 9" "unat (a + 10) = unat a + 10" "unat (a + 11) = unat a + 11"
    using a by (simp_all add: unat_word_ariths)
  have "?m a = mem s a" by (rule out) simp
  moreover have "load32 ?m (a + 8) = load32 (mem s) (a + 8)"
    using u u2 by (intro load32_cong out) (simp_all add: add.assoc)
  ultimately show "sysinfo_in (mem s) a info \<Longrightarrow> sysinfo_in (mem (regions_written a q s)) a (info\<lparr>si_mem_regions := q\<rparr>)"
    by (simp add: sysinfo_in_def regions_written_def load32_store32)
  have "?m x = mem s x" if "\<not> in_range a 12 x" for x
    by (rule out) (use that a in \<open>auto simp: in_range_nat\<close>)
  then show "ran [] (in_range a 12) s (regions_written a q s)" by (simp add: ran_def regions_written_def)
  show "same_nodes s (regions_written a q s)" by (simp add: same_nodes_def regions_written_def)
qed

lemma write_mem_regions_run: "write_mem_regions a q s = Some (Inr (), regions_written a q s)"
  by (simp add: write_mem_regions_def regions_written_def exec_basic)

section \<open>The later blocks\<close>

definition sysinfo_text :: "u8 list" where
  "sysinfo_text = chars (''Extracting sysinfo...'' @ crlf)"

lemma regions_at_nodes: "same_nodes s t \<Longrightarrow> regions_at t head zs = regions_at s head zs"
  by (simp add: same_nodes_def regions_at_def)

lemma node_room_nodes: "same_nodes s t \<Longrightarrow> node_room t k = node_room s k"
  by (simp add: same_nodes_def node_room_def)

lemma extract_sysinfo_run:
  assumes bios: "serves_e820 int15 token (ms @ [z])" "ms \<noteq> []" "ascending (map region_of ms)"
    and room: "node_room s (5 * length ms + 3 + k)" and sig: "signature_at (mem s) (signature_literal fr)"
    and rsdp: "find (rsdp_at (mem s)) (rsdp_candidates (mem s)) = Some p" and a: "unat (sysinfo_at fr) + 12 \<le> 0x40000"
  shows "\<exists>zs head t. extract_sysinfo int15 drv fr s
      = Some (Inr (Some \<lparr>si_boot_drive = drv, si_mem_regions = head, si_rsdp = p\<rparr>), t)
    \<and> regions_at t head zs \<and> usable_map zs \<and> length zs \<le> 2 * length ms + 2 \<and> node_room t k
    \<and> (\<forall>a. kind_at zs a = boot_map (map region_of ms) a) \<and> ran sysinfo_text (in_range (sysinfo_at fr) 12) s t
    \<and> sysinfo_in (mem t) (sysinfo_at fr) \<lparr>si_boot_drive = drv, si_mem_regions = head, si_rsdp = p\<rparr>"
proof -
  let ?s = "put_all sysinfo_text s"
  have r: "node_room ?s (5 * length ms + 3)" using room by (simp add: node_room_def room_def)
  have m: "signature_at (mem ?s) (signature_literal fr)" "find (rsdp_at (mem ?s)) (rsdp_candidates (mem ?s)) = Some p"
    using sig rsdp by simp_all
  from get_sysinfo_run [OF bios r m(1), of drv] obtain zs head t where
    run: "get_sysinfo int15 (signature_literal fr) drv ?s
      = Some (Inr (SYSINFO_SUCCESS, Some \<lparr>si_boot_drive = drv, si_mem_regions = head, si_rsdp = p\<rparr>), t)"
    and zs: "regions_at t head zs" "usable_map zs" "length zs \<le> 2 * length ms + 2"
      "\<forall>a. kind_at zs a = boot_map (map region_of ms) a" and t: "only_map (5 * length ms + 3) ?s t"
    unfolding m(2) option.case by blast
  let ?info = "\<lparr>si_boot_drive = drv, si_mem_regions = head, si_rsdp = p\<rparr>"
  let ?t = "sysinfo_written (sysinfo_at fr) ?info t"
  have "extract_sysinfo int15 drv fr s = Some (Inr (Some ?info), ?t)"
    unfolding extract_sysinfo_def
    by (rule say_run, simp add: crlf_def, rule bind_run, rule run [unfolded sysinfo_text_def])
      (simp add: exec_bind write_sysinfo_run exec_basic)
  moreover have "ran (sysinfo_text @ []) (in_range (sysinfo_at fr) 12) s ?t"
  proof (rule ran_quiet)
    show "ran sysinfo_text nowhere s t"
      using only_map_frame [OF t] ran_put_all(1) [of sysinfo_text s] by (simp add: ran_def)
    show "ran [] (in_range (sysinfo_at fr) 12) t ?t" by (rule sysinfo_written_ok(2) [OF a])
  qed
  moreover have "node_room t k" by (rule only_map_room [OF t]) (use room in \<open>simp add: node_room_def\<close>)
  moreover note n = sysinfo_written_ok(3) [OF a, of t ?info]
  ultimately show ?thesis
    using zs regions_at_nodes [OF n] node_room_nodes [OF n] sysinfo_written_ok(1) [OF a, of ?info t]
    by (intro exI [of _ zs] exI [of _ head] exI [of _ ?t]) auto
qed

definition load_text :: "u8 list" where
  "load_text = chars (''Loading ELF...'' @ crlf)"

text \<open>The segments of the file that are loaded, and what becomes of the memory map.\<close>

definition program_segments :: "(nat \<Rightarrow> u8) \<Rightarrow> elf_program_header_t list" where
  "program_segments g = load_headers g (lsb32 g 28) 0 (lsb16 g 44)"

definition loaded_map :: "(u64 \<Rightarrow> sysinfo_mem_type_t option) \<Rightarrow> elf_program_header_t list \<Rightarrow> u64 \<Rightarrow> sysinfo_mem_type_t option" where
  "loaded_map M ps a = (if \<exists>p\<in>set ps. covers a (segment_region p) then Some SYSINFO_MT_ELF_EXECUTABLE else M a)"

text \<open>The headers of the program can be read and the header table does not wrap.\<close>

definition headers_held :: "fat_file_t \<Rightarrow> disk \<Rightarrow> bool" where
  "headers_held fl d \<longleftrightarrow> (let g = file_bytes fl d in
     lsb16 g 42 = 32 \<and> lsb32 g 28 + 32 * lsb16 g 44 < 2 ^ 32
     \<and> (\<forall>i < lsb16 g 44. file_holds fl d (lsb32 g 28 + 32 * i) 32))"

lemma segment_still_loaded:
  assumes "segment_loaded g p m" and "\<And>x. in_segment p x \<Longrightarrow> m' x = m x"
  shows "segment_loaded g p m'"
proof -
  have "m' (p_vaddr p + of_nat i) = m (p_vaddr p + of_nat i)" if "i < unat (p_memsz p)" for i
  proof (rule assms(2))
    have "i < 2 ^ 32" using that u32_bound [of "p_memsz p"] by simp
    then show "in_segment p (p_vaddr p + of_nat i)" using that by (simp add: in_range_def unat_of_nat)
  qed
  with assms(1) show ?thesis by (simp add: segment_loaded_def)
qed

lemma load_binary_run:
  fixes int13 :: "'e int13"
  assumes rdy: "file_ready int13 fl d s" and dec: "decode_elf_header (mem s) header = header_of (file_bytes fl d)"
    and held: "headers_held fl d" and at: "regions_at s (si_mem_regions info) zs" and zs: "memory_layout zs" "zs \<noteq> []"
    and room: "node_room s (lsb16 (file_bytes fl d) 44 * (length zs + 2 * lsb16 (file_bytes fl d) 44 + 3))"
    and pl: "placeable (file_holds fl d) zs (program_segments (file_bytes fl d))"
    and a: "unat (prog_header_at fr) + 32 \<le> 0x40000" "unat (sysinfo_at fr) + 12 \<le> 0x40000"
    and apart: "\<And>x. in_range (sysinfo_at fr) 12 x \<Longrightarrow> \<not> in_range (prog_header_at fr) 32 x"
    and info: "sysinfo_in (mem s) (sysinfo_at fr) info"
  shows "\<exists>head zs' t. load_binary int13 \<lparr>elf_file = fl, elf_header = header\<rparr> info fr s
      = Some (Inr (Some (info\<lparr>si_mem_regions := head\<rparr>)), t)
    \<and> sysinfo_in (mem t) (sysinfo_at fr) (info\<lparr>si_mem_regions := head\<rparr>)
    \<and> regions_at t head zs' \<and> memory_layout zs' \<and> zs' \<noteq> []
    \<and> (\<forall>a. kind_at zs' a = loaded_map (kind_at zs) (program_segments (file_bytes fl d)) a)
    \<and> (\<forall>p\<in>set (program_segments (file_bytes fl d)). segment_loaded (file_bytes fl d) p (mem t))
    \<and> ran load_text (\<lambda>x. (in_range (prog_header_at fr) 32 x \<or> (\<exists>p\<in>set (program_segments (file_bytes fl d)). in_segment p x))
        \<or> in_range (sysinfo_at fr) 12 x) s t"
proof -
  let ?g = "file_bytes fl d" and ?s = "put_all load_text s" and ?elf = "\<lparr>elf_file = fl, elf_header = header\<rparr>"
  let ?ps = "program_segments ?g"
  have h: "program_entry_size (header_of ?g) = 32" "unat (program_entry_count (header_of ?g)) = lsb16 ?g 44"
    "unat (program_header_table (header_of ?g)) = lsb32 ?g 28"
    using header_of_fields [of ?g] held by (simp_all add: headers_held_def Let_def word_unat_eq_iff)
  note L = elf_load_run [where elf = ?elf and h = "header_of ?g" and s = ?s and d = d and zs = zs
      and head = "si_mem_regions info" and prog_at = "prog_header_at fr", unfolded elf_t.select_convs h(2,3)]
  have 1: "file_ready int13 fl d ?s" using fat_file.ready_top [OF rdy, of ?s] by simp
  have 2: "decode_elf_header (mem ?s) header = header_of ?g" using dec by simp
  have 3: "regions_at ?s (si_mem_regions info) zs" using at regions_at_nodes [OF ran_put_all(2)] by blast
  have 4: "node_room ?s (lsb16 ?g 44 * (length zs + 2 * lsb16 ?g 44 + 3))" using room node_room_nodes [OF ran_put_all(2)] by blast
  have 5: "lsb32 ?g 28 + 32 * lsb16 ?g 44 < 2 ^ 32" "\<forall>i < lsb16 ?g 44. file_holds fl d (lsb32 ?g 28 + 32 * i) 32"
    using held unfolding headers_held_def Let_def by blast+
  have "\<exists>t head zs'. elf_load int13 (prog_header_at fr) ?elf (si_mem_regions info) ?s = Some (Inr (ELF_SUCCESS, head), t)
    \<and> regions_at t head zs' \<and> memory_layout zs' \<and> (\<forall>a. kind_at zs' a = loaded_map (kind_at zs) ?ps a) \<and> zs' \<noteq> []
    \<and> (\<forall>p\<in>set ?ps. segment_loaded ?g p (mem t))
    \<and> touched (\<lambda>x. in_range (prog_header_at fr) 32 x \<or> (\<exists>p\<in>set ?ps. in_segment p x)) ?s t"
    using L [OF 1 2 h(1) 3 zs(1) 4 pl [unfolded program_segments_def] a(1) 5] zs(2)
    unfolding loaded_map_def program_segments_def by blast
  then obtain t head zs' where
    run: "elf_load int13 (prog_header_at fr) ?elf (si_mem_regions info) ?s = Some (Inr (ELF_SUCCESS, head), t)"
    and r: "regions_at t head zs'" "memory_layout zs'" "\<forall>a. kind_at zs' a = loaded_map (kind_at zs) ?ps a" "zs' \<noteq> []"
    and ld: "\<forall>p\<in>set ?ps. segment_loaded ?g p (mem t)"
    and t: "touched (\<lambda>x. in_range (prog_header_at fr) 32 x \<or> (\<exists>p\<in>set ?ps. in_segment p x)) ?s t" by blast
  let ?info = "info\<lparr>si_mem_regions := head\<rparr>"
  let ?t = "regions_written (sysinfo_at fr) head t"
  have high: "0x80000 \<le> unat x" if "p \<in> set ?ps" "in_segment p x" for p x
    using that pl by (intro fat_file.segment_high [of fl d p x]) (simp_all add: placeable_def)
  have kept: "mem t x = mem s x" if "in_range (sysinfo_at fr) 12 x" for x
  proof -
    have "unat x < 0x40000" using that a(2) by (simp add: in_range_nat)
    then show ?thesis using t apart [OF that] high [of _ x] by (fastforce simp: touched_def)
  qed
  note si = sysinfo_in_cong [OF info kept]
  have "load_binary int13 ?elf info fr s = Some (Inr (Some ?info), ?t)"
    unfolding load_binary_def
    by (rule say_run, simp add: crlf_def, rule bind_run, rule run [unfolded load_text_def])
      (simp add: exec_bind write_mem_regions_run exec_basic)
  moreover have "segment_loaded ?g p (mem ?t)" if p: "p \<in> set ?ps" for p
  proof (rule segment_still_loaded [of _ _ "mem t"])
    show "segment_loaded ?g p (mem t)" using ld p by blast
    show "mem ?t x = mem t x" if "in_segment p x" for x
    proof (rule ran_mem [OF regions_written_ok(2) [OF a(2)]])
      from high [OF p that] show "\<not> in_range (sysinfo_at fr) 12 x" "unat x < 0x40000 \<or> 0x80000 \<le> unat x"
        using a(2) by (auto simp: in_range_nat)
    qed
  qed
  moreover have "ran (load_text @ ([] @ [])) (\<lambda>x. (in_range (prog_header_at fr) 32 x \<or> (\<exists>p\<in>set ?ps. in_segment p x))
      \<or> in_range (sysinfo_at fr) 12 x) s ?t"
    by (rule ran_quiet [OF ran_put_all(1) ran_trans [OF ran_touched [OF t] regions_written_ok(2) [OF a(2)]]])
  moreover have "regions_at ?t head zs'"
    using r(1) regions_at_nodes [OF regions_written_ok(3) [OF a(2)]] by blast
  ultimately show ?thesis
    using r(2-4) regions_written_ok(1) [OF a(2) si, of head] unfolding append_Nil2 by blast
qed

end
