(* ===== verification/Boot.thy ===== *)
theory Boot
  imports Boot_Main
begin

text \<open>
  The whole of stage 1: the blocks of \<open>main\<close> composed, from the two empty stacks to the jump
  into the loaded program, and the ways it ends before. The memory maps on the way are
  functions from addresses to kinds, so that the hypotheses speak of the entries of the BIOS
  and of the program's segments and not of the lists stage 1 builds of them.
\<close>

section \<open>Maps as functions of the address\<close>

text \<open>A stretch of one kind, other than reserved, lies in one region of a layout.\<close>

lemma stretch_region:
  assumes "memory_layout zs" and "b < l" and "k \<noteq> SYSINFO_MT_RESERVED"
    and "\<And>a. b \<le> a \<Longrightarrow> a < l \<Longrightarrow> kind_at zs a = Some k"
  shows "\<exists>u\<in>set zs. kind u = k \<and> base u \<le> b \<and> l \<le> limit u"
  using assms(1,4)
proof (induction zs)
  case Nil
  then show ?case using assms(2) by auto
next
  case (Cons z zs)
  have z: "base z < limit z" and zs: "memory_layout zs" "zs \<noteq> [] \<Longrightarrow> limit z = base (hd zs)"
    "zs \<noteq> [] \<Longrightarrow> kind z = kind (hd zs) \<Longrightarrow> kind z = SYSINFO_MT_RESERVED"
    using Cons.prems(1) by (auto simp: memory_layout_def tiled_Cons varied_Cons proper_def)
  show ?case
  proof (cases "limit z \<le> b")
    case True
    have "kind_at zs a = Some k" if "b \<le> a" "a < l" for a
      using Cons.prems(2) [OF that] order_trans [OF True that(1)] by (simp add: covers_def leD)
    with Cons.IH [OF zs(1)] show ?thesis by auto
  next
    case False
    have "base z \<le> b"
    proof (rule ccontr)
      assume "\<not> base z \<le> b"
      then have "kind_at (z # zs) b = None"
        using kind_at_below [of "z # zs" b] Cons.prems(1) by (simp add: memory_layout_def)
      with Cons.prems(2) [of b] assms(2) show False by simp
    qed
    then have k: "kind z = k" using Cons.prems(2) [of b] False assms(2) by (simp add: covers_def not_le)
    have "l \<le> limit z"
    proof (rule ccontr)
      assume l: "\<not> l \<le> limit z"
      then have at: "kind_at zs (limit z) = Some k" using Cons.prems(2) [of "limit z"] False by (simp add: covers_def not_le)
      then obtain y ys where zs': "zs = y # ys" by (cases zs) auto
      then have "covers (limit z) y" using zs by (simp add: memory_layout_def tiled_Cons proper_def covers_def)
      with at zs(3) zs' k assms(3) show False by simp
    qed
    with k \<open>base z \<le> b\<close> show ?thesis by auto
  qed
qed

text \<open>Room for a segment in usable memory, with an address to spare on both sides.\<close>

definition room_around :: "(u64 \<Rightarrow> sysinfo_mem_type_t option) \<Rightarrow> region \<Rightarrow> bool" where
  "room_around M r \<longleftrightarrow> (\<forall>a. base r - 1 \<le> a \<and> a \<le> limit r \<longrightarrow> M a = Some SYSINFO_MT_USABLE)"

definition segments_placed :: "(nat \<Rightarrow> nat \<Rightarrow> bool) \<Rightarrow> (u64 \<Rightarrow> sysinfo_mem_type_t option) \<Rightarrow> elf_program_header_t list \<Rightarrow> bool" where
  "segments_placed holds M ps \<longleftrightarrow> (\<forall>p\<in>set ps. segment_fits holds p \<and> room_around M (segment_region p))
     \<and> sorted_wrt (\<lambda>p q. apart (segment_region p) (segment_region q)) ps"

lemma segments_placeable:
  assumes "segments_placed holds M ps" and "memory_layout zs" and "\<forall>a. kind_at zs a = M a"
  shows "placeable holds zs ps"
proof -
  have "inside_usable zs (segment_region p)" if "p \<in> set ps" for p
  proof -
    let ?r = "segment_region p"
    have fits: "segment_fits holds p" and room: "room_around M ?r" using assms(1) that by (auto simp: segments_placed_def)
    have b: "0x10FFEF \<le> unat (base ?r)" and l: "unat (limit ?r) < 2 ^ 32" and bl: "unat (base ?r) < unat (limit ?r)"
      using fits by (auto simp: segment_fits_def no_wrap_def REAL_MODE_LIMIT_val word_le_nat_alt unat_limit_segment unat_gt_0)
    have u: "unat (base ?r - 1) = unat (base ?r) - 1" "unat (limit ?r + 1) = unat (limit ?r) + 1"
      using b l by (subst unat_sub unat_word_ariths, simp_all add: word_le_nat_alt)+
    have "kind_at zs a = Some SYSINFO_MT_USABLE" if "base ?r - 1 \<le> a" "a < limit ?r + 1" for a
    proof -
      have "a \<le> limit ?r" using that(2) u(2) by (simp add: word_le_nat_alt word_less_nat_alt)
      with that(1) room assms(3) show ?thesis by (simp add: room_around_def)
    qed
    moreover have "base ?r - 1 < limit ?r + 1" using b bl by (simp only: word_less_nat_alt u)
    ultimately obtain w where "w \<in> set zs" "kind w = SYSINFO_MT_USABLE" "base w \<le> base ?r - 1" "limit ?r + 1 \<le> limit w"
      using stretch_region [OF assms(2), of "base ?r - 1" "limit ?r + 1" SYSINFO_MT_USABLE] by auto
    moreover from this have "base w < base ?r" "limit ?r < limit w"
      using b by (simp_all only: word_less_nat_alt word_le_nat_alt u)
    ultimately show ?thesis unfolding inside_usable_def by blast
  qed
  with assms(1) show ?thesis by (simp add: segments_placed_def placeable_def)
qed

text \<open>Whatever layout has these kinds, the stack fits into its largest region, which is usable.\<close>

definition stack_space :: "(u64 \<Rightarrow> sysinfo_mem_type_t option) \<Rightarrow> bool" where
  "stack_space M \<longleftrightarrow> (\<forall>zs. zs \<noteq> [] \<and> memory_layout zs \<and> (\<forall>a. kind_at zs a = M a) \<longrightarrow>
     stack_fits (largest_region zs) \<and> kind (largest_region zs) = SYSINFO_MT_USABLE)"

section \<open>The whole of main\<close>

definition switch_text :: "u8 list" where
  "switch_text = chars (''Switching to protected mode & transferring control to boot binary...'' @ crlf)"

lemma start_binary_run:
  assumes "regions_at s (si_mem_regions info) zs" and "zs \<noteq> []" and "stack_fits (largest_region zs)"
  shows "start_binary info fr s =
    Some (Inl (Control_Transferred (entry_point (decode_elf_header (mem s) (elf_header_at fr))) (of_nat (stack_base (largest_region zs)))),
      (put_all switch_text s)\<lparr>mem := store32 (of_nat (stack_base (largest_region zs))) 0
        (store32 (of_nat (stack_base (largest_region zs)) + 4) (sysinfo_at fr) (mem s))\<rparr>)"
proof -
  let ?s = "put_all switch_text s" and ?entry = "entry_point (decode_elf_header (mem s) (elf_header_at fr))"
  have at: "regions_at ?s (si_mem_regions info) zs" using assms(1) regions_at_nodes [OF ran_put_all(2)] by blast
  have run: "bind (transfer_control ?entry info (sysinfo_at fr)) k ?s =
    Some (Inl (Control_Transferred ?entry (of_nat (stack_base (largest_region zs)))),
      ?s\<lparr>mem := store32 (of_nat (stack_base (largest_region zs))) 0
        (store32 (of_nat (stack_base (largest_region zs)) + 4) (sysinfo_at fr) (mem s))\<rparr>)" for k :: "control_result_t \<Rightarrow> ('a machine, unit option) cmd"
    using transfer_control_run [OF at assms(2,3), of ?entry "sysinfo_at fr"] by (simp add: bind_halts)
  have "start_binary info fr s = bind (transfer_control ?entry info (sysinfo_at fr))
      (\<lambda>result. give_up ''Error transferring control to kernel. Reason: '' (control_result_to_str result)) ?s"
    unfolding start_binary_def switch_text_def
    by (rule say_run, simp add: crlf_def, rule bind_run, rule exec_basic(3)) (simp only: put_all_frame)
  then show ?thesis by (simp only: run)
qed

lemma returned_run:
  "m s = Some (Inr (Some a), t) \<Longrightarrow> k a t = r \<Longrightarrow> unless_returned m k s = r"
  "m s = Some (Inr None, t) \<Longrightarrow> unless_returned m k s = Some (Inr None, t)"
  by (simp_all add: unless_returned_def exec_bind exec_basic)

text \<open>The same under what is left of \<open>main\<close>.\<close>

lemma bind_inside:
  "m s = Some (Inr a, t) \<Longrightarrow> bind (k a) r t = x \<Longrightarrow> bind (bind m k) r s = x"
  "n s = Some (Inr (Some b), t) \<Longrightarrow> bind (l b) r t = x \<Longrightarrow> bind (unless_returned n l) r s = x"
  "n s = Some (Inr None, t) \<Longrightarrow> r None t = x \<Longrightarrow> bind (unless_returned n l) r s = x"
  by (simp_all add: unless_returned_def exec_bind exec_basic)

text \<open>A drive with a sound volume that fits the buffers.\<close>

definition good_drive :: "'e int13 \<Rightarrow> u8 \<Rightarrow> disk \<Rightarrow> fat_t \<Rightarrow> bool" where
  "good_drive int13 drv d f \<longleftrightarrow> f = fat_of_boot_sector drv (map (d 0) [0..<90])
     \<and> edd_read int13 drv d (unat (bytes_per_sector (fat_bpb f))) \<and> no_read_errors int13 drv
     \<and> sound_volume f \<and> unat (bytes_per_sector (fat_bpb f)) \<le> 4096
     \<and> (fat_type f \<noteq> FAT_TYPE_32 \<longrightarrow> root_fits f) \<and> open_scratch f \<le> 0x40000"

text \<open>The file of options on it with its lines, and what they make of the options.\<close>

definition options_lines :: "disk \<Rightarrow> fat_t \<Rightarrow> fat_dirent_t \<Rightarrow> (u8 list \<times> u8 list) list \<Rightarrow> bool" where
  "options_lines d f e ls \<longleftrightarrow> path_leads f d [chars ''boot'', chars ''options.txt''] (Some e)
     \<and> de_attr e AND FAT_ATTR_DIRECTORY = 0 \<and> unat (dirent_cluster e) < 2 ^ 28
     \<and> file_holds \<lparr>file_fat = f, file_entry = e\<rparr> d 0 (unat (de_file_size e))
     \<and> read_scratch f + unat (de_file_size e) + 1 \<le> 0x40000
     \<and> map (file_bytes \<lparr>file_fat = f, file_entry = e\<rparr> d) [0..<unat (de_file_size e)] = config_text ls
     \<and> list_all line_ok ls"

definition options_file :: "disk \<Rightarrow> fat_t \<Rightarrow> boot_options_t \<Rightarrow> boot_options_t \<Rightarrow> bool" where
  "options_file d f start opts \<longleftrightarrow> (\<exists>e ls. options_lines d f e ls
     \<and> config_result (apply_lines ls start) = Inr (PARSER_SUCCESS, opts) \<and> unat (load_offset opts) < 2 ^ 31)"

text \<open>The program the options name: an executable file whose headers can be read.\<close>

definition program_file :: "disk \<Rightarrow> fat_t \<Rightarrow> boot_options_t \<Rightarrow> fat_file_t \<Rightarrow> bool" where
  "program_file d f opts fl \<longleftrightarrow> (\<exists>segs rest e. boot_binary opts = path_of segs rest \<and> segs \<noteq> []
     \<and> path_leads f d segs (Some e) \<and> de_attr e AND FAT_ATTR_DIRECTORY = 0 \<and> fl = \<lparr>file_fat = f, file_entry = e\<rparr>
     \<and> unat (dirent_cluster e) < 2 ^ 28 \<and> file_holds fl d 0 52 \<and> accepted_elf (file_bytes fl d) \<and> headers_held fl d)"

text \<open>The arrays have their lengths; the addressed locals lie below both stacks of \<^verbatim>\<open>mem.c\<close> (the C stack
  does), and no two of them overlap.\<close>

definition locals_ok :: "frame \<Rightarrow> bool" where
  "locals_ok fr \<longleftrightarrow> length (boot_drive_str fr) = 3 \<and> length (load_offset_str fr) = 9
     \<and> length (parser_key fr) = 65 \<and> length (parser_value fr) = 257 \<and> length (boot_binary (options_start fr)) = 257
     \<and> unat (elf_header_at fr) + 52 \<le> 0x10000 \<and> unat (prog_header_at fr) + 32 \<le> 0x10000 \<and> unat (sysinfo_at fr) + 12 \<le> 0x10000
     \<and> (\<forall>x. in_range (elf_header_at fr) 52 x \<longrightarrow> \<not> in_range (prog_header_at fr) 32 x \<and> \<not> in_range (sysinfo_at fr) 12 x)
     \<and> (\<forall>x. in_range (sysinfo_at fr) 12 x \<longrightarrow> \<not> in_range (prog_header_at fr) 32 x)"

text \<open>
  The search for the root pointer ends with \<open>found\<close> in every memory that differs from \<open>m\<close> only
  where stage 1 has written by then: the ELF header and the area of the extended stack.
\<close>

definition root_pointer :: "memory \<Rightarrow> frame \<Rightarrow> u32 option \<Rightarrow> bool" where
  "root_pointer m fr found \<longleftrightarrow> (\<forall>m'.
     (\<forall>x. \<not> in_range (elf_header_at fr) 52 x \<and> (unat x < 0x40000 \<or> 0x80000 \<le> unat x) \<longrightarrow> m' x = m x) \<longrightarrow>
       signature_at m' (signature_literal fr) \<and> find (rsdp_at m') (rsdp_candidates m') = found)"

lemma root_pointer_ran:
  assumes "root_pointer m fr found" and "ran txt (in_range (elf_header_at fr) 52) (boot_state m e) t"
  shows "signature_at (mem t) (signature_literal fr)" "find (rsdp_at (mem t)) (rsdp_candidates (mem t)) = found"
proof -
  have "\<forall>x. \<not> in_range (elf_header_at fr) 52 x \<and> (unat x < 0x40000 \<or> 0x80000 \<le> unat x) \<longrightarrow> mem t x = m x"
    using assms(2) by (simp add: ran_def boot_state_def)
  with assms(1) show "signature_at (mem t) (signature_literal fr)" "find (rsdp_at (mem t)) (rsdp_candidates (mem t)) = found"
    unfolding root_pointer_def by blast+
qed

definition start_text :: "u8 \<Rightarrow> fat_t \<Rightarrow> u8 list" where
  "start_text drv f = greeting drv @ chars (''Reading FAT filesystem...'' @ crlf) @ volume_text f"

text \<open>Everything that is printed on the way.\<close>

definition boot_text :: "u8 \<Rightarrow> fat_t \<Rightarrow> boot_options_t \<Rightarrow> u8 list" where
  "boot_text drv f opts = start_text drv f @ (found_text @ parsing_text) @ options_text opts @ opening_text
     @ elf_text @ sysinfo_text @ load_text @ switch_text"

lemma terminated_path: "terminated (path_of segs rest)"
  by (induction segs) (auto simp: terminated_def)

text \<open>\<open>main\<close> in two halves: up to the opened program, and from there on.\<close>

definition second_half :: "'e int13 \<Rightarrow> 'e int15 \<Rightarrow> u8 \<Rightarrow> frame \<Rightarrow> fat_file_t \<Rightarrow> ('e machine, unit option) cmd" where
  "second_half int13 int15 drv fr fl =
     unless_returned (parse_elf int13 fl fr) (\<lambda>elf.
     unless_returned (extract_sysinfo int15 drv fr) (\<lambda>sysinfo.
     unless_returned (load_binary int13 elf sysinfo fr) (\<lambda>sysinfo.
     start_binary sysinfo fr)))"

lemma boot_state_top: "ext_stack_top (boot_state m e) = 0x80000" "mem (boot_state m e) = m"
  "int10_log (boot_state m e) = []" "static_stack_top (boot_state m e) = 0x40000"
  by (simp_all add: boot_state_def memory_map)

lemma drive_ready:
  fixes int13 :: "'e int13"
  assumes "good_drive int13 drv d f" and "ext_stack_top t = 0x80000"
  shows "read_ready int13 f d (open_scratch f) t"
proof -
  have vol: "f = fat_of_boot_sector drv (map (d 0) [0..<90])" "edd_read int13 drv d (unat (bytes_per_sector (fat_bpb f)))"
    "no_read_errors int13 drv" "sound_volume f" "open_scratch f \<le> 0x40000"
    using assms(1) unfolding good_drive_def by blast+
  have "drive_number f = drv" by (simp add: vol(1) fat_of_boot_sector_def Let_def)
  then show ?thesis using vol(2-5) assms(2) by (simp add: read_ready_def ext_stack_ok_def memory_map)
qed

lemma before_options_run:
  fixes int13 :: "'e int13"
  assumes drive: "good_drive int13 drv d f" and fr: "locals_ok fr"
  shows "\<exists>t. main int13 int15 drv fr (boot_state m e) =
      bind (unless_returned (read_options int13 f fr) (\<lambda>boot_options. bind (show_options boot_options fr) (\<lambda>_.
        unless_returned (open_binary int13 f boot_options) (second_half int13 int15 drv fr)))) (\<lambda>_. ret ()) t
    \<and> ran (start_text drv f) nowhere (boot_state m e) t \<and> same_nodes (boot_state m e) t"
proof -
  let ?s = "boot_state m e" and ?mt = "chars (''Reading FAT filesystem...'' @ crlf)"
  have vol: "f = fat_of_boot_sector drv (map (d 0) [0..<90])" "edd_read int13 drv d (unat (bytes_per_sector (fat_bpb f)))"
    "no_read_errors int13 drv" "sound_volume f" "unat (bytes_per_sector (fat_bpb f)) \<le> 4096"
    using drive unfolding good_drive_def by blast+
  have ext: "length (fat_bpb_ext f) = 54" unfolding vol(1) by (rule length_mounted_ext) simp
  let ?s1 = "put_all (greeting drv) ?s"
  have g: "greet drv fr ?s = Some (Inr (), ?s1)" by (rule greet_run) (use fr in \<open>simp add: locals_ok_def\<close>)
  have "ext_stack_ok ?s1" "ext_room 4096 ?s1" by (simp_all add: ext_stack_ok_def ext_room_def boot_state_top memory_map)
  with mount_volume_run [OF vol(2,3) _ vol(5), of ?s1, folded vol(1)] vol(4) obtain s2 where
    mnt: "mount_volume int13 drv ?s1 = Some (Inr (Some f), s2)" and s2: "ran ?mt nowhere ?s1 s2" "same_nodes ?s1 s2"
    by (auto simp: sound_volume_def)
  let ?t = "put_all (volume_text f) s2"
  have "ran (start_text drv f) nowhere ?s ?t" "same_nodes ?s ?t"
    using ran_quiet [OF ran_put_all(1) ran_quiet [OF s2(1) ran_put_all(1)]] s2(2) by (simp_all add: same_nodes_def start_text_def)
  moreover have "main int13 int15 drv fr ?s =
      bind (unless_returned (read_options int13 f fr) (\<lambda>boot_options. bind (show_options boot_options fr) (\<lambda>_.
        unless_returned (open_binary int13 f boot_options) (second_half int13 int15 drv fr)))) (\<lambda>_. ret ()) ?t"
    unfolding main_def second_half_def
    by (rule bind_run, rule g, rule bind_inside(2), rule mnt, rule bind_inside(1), rule show_volume_run [OF ext]) (rule refl)
  ultimately show ?thesis by blast
qed

text \<open>What the parser makes of the file.\<close>

lemma options_parsed:
  assumes "options_lines d f e ls" and "locals_ok fr"
  shows "parse (parser_key fr) (parser_value fr)
      (map (file_bytes \<lparr>file_fat = f, file_entry = e\<rparr> d) [0..<unat (de_file_size e)] @ [0]) (options_start fr)
    = config_result (apply_lines ls (options_start fr))"
proof -
  have cfg: "map (file_bytes \<lparr>file_fat = f, file_entry = e\<rparr> d) [0..<unat (de_file_size e)] = config_text ls" "list_all line_ok ls"
    using assms(1) unfolding options_lines_def by blast+
  show ?thesis
    unfolding cfg(1) by (rule parse_config [OF cfg(2)]) (use assms(2) in \<open>simp_all add: locals_ok_def\<close>)
qed

text \<open>The options have been read; they are printed next.\<close>

lemma options_read_run:
  fixes int13 :: "'e int13"
  assumes drive: "good_drive int13 drv d f" and fr: "locals_ok fr" and lines: "options_lines d f de ls"
    and cfg: "config_result (apply_lines ls (options_start fr)) = Inr (PARSER_SUCCESS, opts)"
  shows "\<exists>t. main int13 int15 drv fr (boot_state m e) = bind (bind (show_options opts fr)
        (\<lambda>_. unless_returned (open_binary int13 f opts) (second_half int13 int15 drv fr))) (\<lambda>_. ret ()) t
    \<and> ran (start_text drv f @ (found_text @ parsing_text)) nowhere (boot_state m e) t \<and> same_nodes (boot_state m e) t"
proof -
  let ?s = "boot_state m e"
  have root: "fat_type f \<noteq> FAT_TYPE_32 \<longrightarrow> root_fits f" using drive unfolding good_drive_def by blast
  from before_options_run [OF drive fr, of int15 m e] obtain s3 where
    start: "main int13 int15 drv fr ?s = bind (unless_returned (read_options int13 f fr) (\<lambda>boot_options.
        bind (show_options boot_options fr) (\<lambda>_. unless_returned (open_binary int13 f boot_options) (second_half int13 int15 drv fr)))) (\<lambda>_. ret ()) s3"
    and s3: "ran (start_text drv f) nowhere ?s s3" "same_nodes ?s s3" by blast
  have leads: "path_leads f d [chars ''boot'', chars ''options.txt''] (Some de)"
    and de: "de_attr de AND FAT_ATTR_DIRECTORY = 0" "unat (dirent_cluster de) < 2 ^ 28"
      "file_holds \<lparr>file_fat = f, file_entry = de\<rparr> d 0 (unat (de_file_size de))"
      "read_scratch f + unat (de_file_size de) + 1 \<le> 0x40000"
    using lines unfolding options_lines_def by blast+
  have top3: "ext_stack_top s3 = 0x80000" using ran_top [OF s3(1)] by (simp only: boot_state_top)
  from read_options_run [OF leads de(1) drive_ready [OF drive top3] root de(2,3) _ options_parsed [OF lines fr, unfolded cfg]] de(4) top3
  obtain s4 where ro: "read_options int13 f fr s3 = Some (Inr (Some opts), s4)"
    and s4: "ran (found_text @ parsing_text) nowhere s3 s4" "same_nodes s3 s4" by auto
  have "main int13 int15 drv fr ?s = bind (bind (show_options opts fr)
        (\<lambda>_. unless_returned (open_binary int13 f opts) (second_half int13 int15 drv fr))) (\<lambda>_. ret ()) s4"
    unfolding start by (rule bind_inside(2), rule ro) (rule refl)
  then show ?thesis using ran_quiet [OF s3(1) s4(1)] same_nodes_trans [OF s3(2) s4(2)] by blast
qed

text \<open>Options that the parser accepts have a terminated path.\<close>

lemma accepted_terminated:
  assumes "config_result (apply_lines ls start) = Inr (PARSER_SUCCESS, opts)"
  shows "terminated (boot_binary opts)"
proof -
  have "apply_lines ls start = (Some r, opts') \<Longrightarrow> r \<noteq> PARSER_SUCCESS" for r opts'
    by (induction ls start rule: apply_lines.induct) (auto split: prod.splits if_splits)
  with assms show ?thesis
    by (cases "apply_lines ls start") (auto simp: config_result_def finish_def split: option.splits if_splits)
qed

lemma options_shown_run:
  fixes int13 :: "'e int13"
  assumes drive: "good_drive int13 drv d f" and fr: "locals_ok fr" and opts: "options_file d f (options_start fr) opts"
  shows "\<exists>t. main int13 int15 drv fr (boot_state m e)
      = bind (unless_returned (open_binary int13 f opts) (second_half int13 int15 drv fr)) (\<lambda>_. ret ()) t
    \<and> ran (start_text drv f @ (found_text @ parsing_text) @ options_text opts) nowhere (boot_state m e) t
    \<and> same_nodes (boot_state m e) t"
proof -
  let ?s = "boot_state m e"
  from opts obtain de ls where lines: "options_lines d f de ls"
    and cfg: "config_result (apply_lines ls (options_start fr)) = Inr (PARSER_SUCCESS, opts)"
    and lo: "unat (load_offset opts) < 2 ^ 31"
    unfolding options_file_def by blast
  from options_read_run [OF drive fr lines cfg, of int15 m e] obtain s4 where
    start: "main int13 int15 drv fr ?s = bind (bind (show_options opts fr)
        (\<lambda>_. unless_returned (open_binary int13 f opts) (second_half int13 int15 drv fr))) (\<lambda>_. ret ()) s4"
    and s4: "ran (start_text drv f @ (found_text @ parsing_text)) nowhere ?s s4" "same_nodes ?s s4" by blast
  let ?t = "put_all (options_text opts) s4"
  have so: "show_options opts fr s4 = Some (Inr (), ?t)"
    by (rule show_options_run [OF accepted_terminated [OF cfg]]) (use fr itoa_text_offset [OF lo] in \<open>simp_all add: locals_ok_def\<close>)
  have "main int13 int15 drv fr ?s
      = bind (unless_returned (open_binary int13 f opts) (second_half int13 int15 drv fr)) (\<lambda>_. ret ()) ?t"
    unfolding start by (rule bind_inside(1), rule so) (rule refl)
  moreover have "ran ((start_text drv f @ (found_text @ parsing_text)) @ options_text opts) nowhere ?s ?t"
    by (rule ran_quiet [OF s4(1) ran_put_all(1)])
  moreover have "same_nodes ?s ?t" by (rule same_nodes_trans [OF s4(2) ran_put_all(2)])
  ultimately show ?thesis by (auto simp only: append_assoc)
qed

lemma first_half_run:
  fixes int13 :: "'e int13"
  assumes drive: "good_drive int13 drv d f" and opts: "options_file d f (options_start fr) opts"
    and prog: "boot_binary opts = path_of segs rest" "segs \<noteq> []" "path_leads f d segs (Some e)" "de_attr e AND FAT_ATTR_DIRECTORY = 0"
      "unat (dirent_cluster e) < 2 ^ 28" and fr: "locals_ok fr"
  shows "\<exists>t. main int13 int15 drv fr (boot_state m env)
      = bind (second_half int13 int15 drv fr \<lparr>file_fat = f, file_entry = e\<rparr>) (\<lambda>_. ret ()) t
    \<and> ran (start_text drv f @ (found_text @ parsing_text) @ options_text opts @ opening_text) nowhere (boot_state m env) t
    \<and> same_nodes (boot_state m env) t \<and> file_ready int13 \<lparr>file_fat = f, file_entry = e\<rparr> d t"
proof -
  let ?s = "boot_state m env" and ?fl = "\<lparr>file_fat = f, file_entry = e\<rparr>"
  have root: "fat_type f \<noteq> FAT_TYPE_32 \<longrightarrow> root_fits f" using drive unfolding good_drive_def by blast
  from options_shown_run [OF drive fr opts, of int15 m env] obtain s5 where
    start: "main int13 int15 drv fr ?s = bind (unless_returned (open_binary int13 f opts) (second_half int13 int15 drv fr)) (\<lambda>_. ret ()) s5"
    and r5: "ran (start_text drv f @ (found_text @ parsing_text) @ options_text opts) nowhere ?s s5" "same_nodes ?s s5" by blast
  have top5: "ext_stack_top s5 = 0x80000" using ran_top [OF r5(1)] by (simp only: boot_state_top)
  have "open_result f (Some e) = (FAT_SUCCESS, Some ?fl)" using prog(4) by (simp add: open_result_def)
  from open_binary_run [OF prog(3,2) drive_ready [OF drive top5] root prog(1) this] obtain t where
    ob: "open_binary int13 f opts s5 = Some (Inr (Some ?fl), t)" and t: "ran opening_text nowhere s5 t" "same_nodes s5 t" by blast
  have "main int13 int15 drv fr ?s = bind (second_half int13 int15 drv fr ?fl) (\<lambda>_. ret ()) t"
    unfolding start by (rule bind_inside(2), rule ob) (rule refl)
  moreover have rt: "ran ((start_text drv f @ (found_text @ parsing_text) @ options_text opts) @ opening_text) nowhere ?s t"
    by (rule ran_quiet [OF r5(1) t(1)])
  moreover have "file_ready int13 ?fl d t"
    using drive_ready [OF drive, of t] ran_top [OF rt] prog(5) by (simp add: file_ready_def read_ready_def open_scratch_def boot_state_top)
  ultimately show ?thesis using same_nodes_trans [OF r5(2) t(2)] by (auto simp only: append_assoc)
qed

text \<open>The same for a program that can be loaded.\<close>

lemma program_opened_run:
  fixes int13 :: "'e int13"
  assumes "good_drive int13 drv d f" and "options_file d f (options_start fr) opts" and "program_file d f opts fl" and "locals_ok fr"
  shows "\<exists>t. main int13 int15 drv fr (boot_state m env) = bind (second_half int13 int15 drv fr fl) (\<lambda>_. ret ()) t
    \<and> ran (start_text drv f @ (found_text @ parsing_text) @ options_text opts @ opening_text) nowhere (boot_state m env) t
    \<and> same_nodes (boot_state m env) t \<and> file_ready int13 fl d t"
proof -
  from assms(3) obtain segs rest pe where
    path: "boot_binary opts = path_of segs rest" "segs \<noteq> []" "path_leads f d segs (Some pe)" "de_attr pe AND FAT_ATTR_DIRECTORY = 0"
      "unat (dirent_cluster pe) < 2 ^ 28" and fl: "fl = \<lparr>file_fat = f, file_entry = pe\<rparr>"
    unfolding program_file_def by blast
  show ?thesis unfolding fl by (rule first_half_run [OF assms(1,2) path assms(4)])
qed

text \<open>The last block leaves what was loaded and the bytes of sysinfo alone.\<close>

lemma stack_words_clear:
  assumes zs: "memory_layout zs" "zs \<noteq> []" and r: "r = largest_region zs" "stack_fits r" "kind r = SYSINFO_MT_USABLE"
    and x: "stack_base r \<le> unat x" "unat x < stack_base r + 8"
  shows "kind_at zs (ucast (x :: u32)) = Some SYSINFO_MT_USABLE"
proof -
  have "r \<in> set zs" using largest_region_props(1) [OF zs(2)] by (simp add: r(1))
  moreover have "covers (ucast x) r"
    using stack_base_bounds(2,3) [OF r(2)] x by (auto simp: covers_def word_le_nat_alt word_less_nat_alt)
  ultimately show ?thesis using tiled_kind_of [of zs r "ucast x"] zs(1) r(3) by (simp add: memory_layout_def)
qed

lemma in_segment_covers: "no_wrap p \<Longrightarrow> in_segment p x \<Longrightarrow> covers (ucast x) (segment_region p)"
  by (auto simp: no_wrap_def in_range_nat covers_def word_le_nat_alt word_less_nat_alt unat_limit_segment)

lemma decode_elf_header_kept:
  assumes "\<And>x. in_range a 52 x \<Longrightarrow> m' x = m x"
  shows "decode_elf_header m' a = decode_elf_header m a"
proof -
  have "decode_elf_header m' a = header_of (\<lambda>i. m (a + of_nat i))"
    by (rule decode_elf_header_bytes) (use assms in \<open>simp add: in_range_def unat_of_nat\<close>)
  also have "\<dots> = decode_elf_header m a" by (rule decode_elf_header_bytes [symmetric]) simp
  finally show ?thesis .
qed

lemma second_half_run:
  fixes int13 :: "'e int13"
  assumes rdy: "file_ready int13 fl d s" and held: "file_holds fl d 0 52" "accepted_elf (file_bytes fl d)" "headers_held fl d"
    and fr: "locals_ok fr" and root: "root_pointer (mem s) fr (Some p)"
    and bios: "serves_e820 int15 token (ms @ [z])" "ms \<noteq> []" "ascending (map region_of ms)"
    and nodes: "node_room s (5 * length ms + 3 + lsb16 (file_bytes fl d) 44 * (2 * length ms + 2 * lsb16 (file_bytes fl d) 44 + 5))"
    and pl: "segments_placed (file_holds fl d) (boot_map (map region_of ms)) (program_segments (file_bytes fl d))"
    and sp: "stack_space (loaded_map (boot_map (map region_of ms)) (program_segments (file_bytes fl d)))"
  shows "\<exists>head zs t u. second_half int13 int15 drv fr fl s = Some (Inl (Control_Transferred
        (entry_point (header_of (file_bytes fl d))) (of_nat (stack_base (largest_region zs)))), t)
    \<and> t = (put_all switch_text u)\<lparr>mem := store32 (of_nat (stack_base (largest_region zs))) 0
        (store32 (of_nat (stack_base (largest_region zs)) + 4) (sysinfo_at fr) (mem u))\<rparr>
    \<and> regions_at u head zs \<and> memory_layout zs \<and> zs \<noteq> []
    \<and> (\<forall>a. kind_at zs a = loaded_map (boot_map (map region_of ms)) (program_segments (file_bytes fl d)) a)
    \<and> (\<forall>q\<in>set (program_segments (file_bytes fl d)). segment_loaded (file_bytes fl d) q (mem u))
    \<and> sysinfo_in (mem u) (sysinfo_at fr) \<lparr>si_boot_drive = drv, si_mem_regions = head, si_rsdp = p\<rparr>
    \<and> ext_stack_top u = ext_stack_top s \<and> int10_log u = int10_log s @ map teletype (elf_text @ sysinfo_text @ load_text)"
proof -
  let ?g = "file_bytes fl d" and ?h = "elf_header_at fr" and ?M = "boot_map (map region_of ms)"
  let ?ps = "program_segments ?g" and ?n = "lsb16 ?g 44"
  have at: "unat ?h + 52 \<le> 0x40000" "unat (prog_header_at fr) + 32 \<le> 0x40000" "unat (sysinfo_at fr) + 12 \<le> 0x40000"
    and apart: "\<And>x. in_range ?h 52 x \<Longrightarrow> \<not> in_range (prog_header_at fr) 32 x \<and> \<not> in_range (sysinfo_at fr) 12 x"
    and apart2: "\<And>x. in_range (sysinfo_at fr) 12 x \<Longrightarrow> \<not> in_range (prog_header_at fr) 32 x"
    using fr by (simp_all add: locals_ok_def)
  from parse_elf_run [OF rdy held(1) at(1) held(2)] obtain s1 where
    pe: "parse_elf int13 fl fr s = Some (Inr (Some \<lparr>elf_file = fl, elf_header = ?h\<rparr>), s1)"
    and h1: "decode_elf_header (mem s1) ?h = header_of ?g" and s1: "ran elf_text (in_range ?h 52) s s1" "same_nodes s s1" by blast
  have root1: "signature_at (mem s1) (signature_literal fr)" "find (rsdp_at (mem s1)) (rsdp_candidates (mem s1)) = Some p"
    using root ran_mem [OF s1(1)] unfolding root_pointer_def by blast+
  have "node_room s1 (5 * length ms + 3 + ?n * (2 * length ms + 2 * ?n + 5))" using nodes node_room_nodes [OF s1(2)] by blast
  from extract_sysinfo_run [OF bios this root1 at(3), of drv] obtain ys head0 s2 where
    ex: "extract_sysinfo int15 drv fr s1 = Some (Inr (Some \<lparr>si_boot_drive = drv, si_mem_regions = head0, si_rsdp = p\<rparr>), s2)"
    and ys: "regions_at s2 head0 ys" "usable_map ys" "length ys \<le> 2 * length ms + 2" "\<forall>a. kind_at ys a = ?M a"
    and room2: "node_room s2 (?n * (2 * length ms + 2 * ?n + 5))" and s2: "ran sysinfo_text (in_range (sysinfo_at fr) 12) s1 s2"
    and si0: "sysinfo_in (mem s2) (sysinfo_at fr) \<lparr>si_boot_drive = drv, si_mem_regions = head0, si_rsdp = p\<rparr>"
    by blast
  let ?info0 = "\<lparr>si_boot_drive = drv, si_mem_regions = head0, si_rsdp = p\<rparr>"
  have lay: "memory_layout ys" "ys \<noteq> []" using ys(2) by (simp_all add: usable_map_def)
  have low: "unat x < 0x40000" if "in_range ?h 52 x" for x using that at(1) by (simp add: in_range_nat)
  have h2: "decode_elf_header (mem s2) ?h = header_of ?g"
    using decode_elf_header_kept [of ?h "mem s2" "mem s1"] ran_mem [OF s2] apart low h1 by auto
  have "file_ready int13 fl d s2" using fat_file.ready_top [OF rdy, of s2] ran_top [OF s1(1)] ran_top [OF s2] by simp
  moreover have "node_room s2 (?n * (length ys + 2 * ?n + 3))"
    using room2 ys(3) room_mono [of "static_stack_top s2"] by (simp add: node_room_def)
  ultimately obtain head zs u where
    lo: "load_binary int13 \<lparr>elf_file = fl, elf_header = ?h\<rparr> ?info0 fr s2 = Some (Inr (Some (?info0\<lparr>si_mem_regions := head\<rparr>)), u)"
    and si: "sysinfo_in (mem u) (sysinfo_at fr) (?info0\<lparr>si_mem_regions := head\<rparr>)"
    and zs: "regions_at u head zs" "memory_layout zs" "zs \<noteq> []" "\<forall>a. kind_at zs a = loaded_map (kind_at ys) ?ps a"
    and ld: "\<forall>q\<in>set ?ps. segment_loaded ?g q (mem u)"
    and u: "ran load_text (\<lambda>x. (in_range (prog_header_at fr) 32 x \<or> (\<exists>q\<in>set ?ps. in_segment q x)) \<or> in_range (sysinfo_at fr) 12 x) s2 u"
    using load_binary_run [of int13 fl d s2 ?h ?info0 ys fr] h2 held(3) ys(1) lay segments_placeable [OF pl lay(1) ys(4)] at(2,3) apart2 si0
    by auto
  have fits: "segment_fits (file_holds fl d) q" if "q \<in> set ?ps" for q using pl that by (simp add: segments_placed_def)
  have "mem u x = mem s2 x" if x: "in_range ?h 52 x" for x
  proof (rule ran_mem [OF u])
    have "\<not> in_segment q x" if "q \<in> set ?ps" for q
      using fat_file.segment_high [OF fits [OF that], of x] low [OF x] by auto
    with apart [OF x] show "\<not> ((in_range (prog_header_at fr) 32 x \<or> (\<exists>q\<in>set ?ps. in_segment q x)) \<or> in_range (sysinfo_at fr) 12 x)"
      by blast
    show "unat x < 0x40000 \<or> 0x80000 \<le> unat x" using low [OF x] by simp
  qed
  then have h3: "decode_elf_header (mem u) ?h = header_of ?g"
    using decode_elf_header_kept [of ?h "mem u" "mem s2"] h2 by simp
  have kinds: "\<forall>a. kind_at zs a = loaded_map ?M ?ps a" using zs(4) ys(4) by (simp add: loaded_map_def)
  then have "stack_fits (largest_region zs)" using sp zs(2,3) by (simp add: stack_space_def)
  note st = start_binary_run [of u "?info0\<lparr>si_mem_regions := head\<rparr>" zs fr, unfolded sysinfo_t.simps, OF zs(1,3) this, unfolded h3]
  have "second_half int13 int15 drv fr fl s = Some (Inl (Control_Transferred (entry_point (header_of ?g))
      (of_nat (stack_base (largest_region zs)))), (put_all switch_text u)\<lparr>mem := store32 (of_nat (stack_base (largest_region zs))) 0
        (store32 (of_nat (stack_base (largest_region zs)) + 4) (sysinfo_at fr) (mem u))\<rparr>)"
    unfolding second_half_def
    by (rule returned_run(1), rule pe, rule returned_run(1), rule ex, rule returned_run(1), rule lo [unfolded sysinfo_t.simps]) (rule st)
  moreover have "ext_stack_top u = ext_stack_top s" "int10_log u = int10_log s @ map teletype (elf_text @ sysinfo_text @ load_text)"
    using s1(1) s2 u by (simp_all add: ran_def)
  ultimately show ?thesis using zs(1-3) kinds ld si by (intro exI [of _ head] exI [of _ zs] exI) auto
qed

text \<open>The two words on the new stack meet neither a segment nor low memory.\<close>

lemma pushes_kept:
  assumes zs: "memory_layout zs" "zs \<noteq> []" and r: "stack_fits (largest_region zs)" "kind (largest_region zs) = SYSINFO_MT_USABLE"
    and k: "\<forall>a. kind_at zs a = loaded_map (boot_map rs) ps a"
    and x: "unat x < 0x10FFEF \<or> (\<exists>p\<in>set ps. no_wrap p \<and> in_segment p x)"
  shows "store32 (of_nat (stack_base (largest_region zs))) 0
    (store32 (of_nat (stack_base (largest_region zs)) + 4) v m) x = m x"
proof -
  let ?n = "stack_base (largest_region zs)"
  have le: "?n + 8 \<le> 2 ^ 32" using stack_base_bounds(3) [OF r(1)] r(1) by (simp add: stack_fits_def)
  have "unat x < ?n \<or> ?n + 8 \<le> unat x"
  proof (rule ccontr)
    assume "\<not> (unat x < ?n \<or> ?n + 8 \<le> unat x)"
    then have u: "kind_at zs (ucast x) = Some SYSINFO_MT_USABLE"
      using stack_words_clear [OF zs refl r, of x] by simp
    have "loaded_map (boot_map rs) ps (ucast x) \<noteq> Some SYSINFO_MT_USABLE"
    proof (cases "\<exists>p\<in>set ps. covers (ucast x) (segment_region p)")
      case False
      then have "unat x < 0x10FFEF" using x in_segment_covers by blast
      then have "ucast x < (ucast REAL_MODE_LIMIT :: u64)" by (simp add: word_less_nat_alt REAL_MODE_LIMIT_val)
      with False show ?thesis by (simp add: loaded_map_def boot_map_def)
    qed (simp add: loaded_map_def)
    with u k show False by simp
  qed
  then show ?thesis by (rule two_pushes(3) [OF le])
qed

text \<open>What the loaded program finds.\<close>

lemma handed_over:
  assumes zs: "memory_layout zs" "zs \<noteq> []" and r: "stack_fits (largest_region zs)" "kind (largest_region zs) = SYSINFO_MT_USABLE"
    and k: "\<forall>a. kind_at zs a = loaded_map (boot_map rs) ps a"
    and ld: "\<forall>q\<in>set ps. no_wrap q \<and> segment_loaded g q (mem u)"
    and si: "sysinfo_in (mem u) at info" and at: "unat at + 12 \<le> 0x10000"
    and t: "mem t = store32 (of_nat (stack_base (largest_region zs))) 0 (store32 (of_nat (stack_base (largest_region zs)) + 4) at (mem u))"
  shows "\<forall>q\<in>set ps. segment_loaded g q (mem t)" "16 dvd unat (of_nat (stack_base (largest_region zs)) :: u32)"
    "kind_at zs (ucast (of_nat (stack_base (largest_region zs)) :: u32)) = Some SYSINFO_MT_USABLE"
    "load32 (mem t) (of_nat (stack_base (largest_region zs))) = 0" "load32 (mem t) (of_nat (stack_base (largest_region zs)) + 4) = at"
    "sysinfo_in (mem t) at info"
proof -
  let ?n = "stack_base (largest_region zs)"
  have le: "?n + 8 \<le> 2 ^ 32" using stack_base_bounds(3) [OF r(1)] r(1) by (simp add: stack_fits_def)
  then have n: "unat (of_nat ?n :: u32) = ?n" by (simp add: unat_of_nat)
  have kept: "mem t x = mem u x" if "unat x < 0x10FFEF \<or> (\<exists>p\<in>set ps. no_wrap p \<and> in_segment p x)" for x
    unfolding t by (rule pushes_kept [OF zs r k that])
  show "\<forall>q\<in>set ps. segment_loaded g q (mem t)"
  proof
    fix q assume q: "q \<in> set ps"
    show "segment_loaded g q (mem t)"
    proof (rule segment_still_loaded [of _ _ "mem u"])
      show "segment_loaded g q (mem u)" using ld q by blast
      show "mem t x = mem u x" if "in_segment q x" for x using ld q that by (intro kept) blast
    qed
  qed
  show "16 dvd unat (of_nat ?n :: u32)" using stack_base_bounds(1) [OF r(1)] by (simp only: n)
  show "kind_at zs (ucast (of_nat ?n :: u32)) = Some SYSINFO_MT_USABLE"
    by (rule stack_words_clear [OF zs refl r]) (simp_all add: n)
  show "load32 (mem t) (of_nat ?n) = 0" "load32 (mem t) (of_nat ?n + 4) = at"
    unfolding t by (rule two_pushes [OF le])+
  show "sysinfo_in (mem t) at info"
  proof (rule sysinfo_in_cong [OF si])
    fix x assume "in_range at 12 x"
    then have "unat x < 0x10FFEF" using at by (simp add: in_range_nat)
    then show "mem t x = mem u x" by (intro kept) simp
  qed
qed

section \<open>Room for the stack\<close>

text \<open>
  A usable stretch at the end of a map, longer than everything before it, is the largest region
  of every layout with that map.
\<close>

lemma top_stretch_largest:
  assumes zs: "memory_layout zs" "zs \<noteq> []" and k: "k \<noteq> SYSINFO_MT_RESERVED" and bl: "0 < b" "unat b + unat b < unat l"
    and at: "\<And>a. b \<le> a \<Longrightarrow> a < l \<Longrightarrow> kind_at zs a = Some k"
    and before: "kind_at zs (b - 1) \<noteq> Some k" and behind: "\<And>a. l \<le> a \<Longrightarrow> kind_at zs a = None"
  shows "base (largest_region zs) = b \<and> limit (largest_region zs) = l \<and> kind (largest_region zs) = k"
proof -
  have t: "tiled zs" using zs(1) by (simp add: memory_layout_def)
  have kindof: "kind_at zs a = Some (kind r)" if "r \<in> set zs" "base r \<le> a" "a < limit r" for a r
    by (rule tiled_kind_of [OF t that(1)]) (use that in \<open>simp add: covers_def\<close>)
  have lim: "limit r \<le> l" if "r \<in> set zs" for r
  proof (rule ccontr)
    assume "\<not> limit r \<le> l"
    moreover have "base r < limit r" using tiled_proper [OF t that] by (simp add: proper_def)
    ultimately have "kind_at zs (max (base r) l) = Some (kind r)" by (intro kindof that) (auto simp: max_def)
    with behind [of "max (base r) l"] show False by simp
  qed
  have ext: "unat (extent r) = unat (limit r) - unat (base r)" "unat (base r) < unat (limit r)" if "r \<in> set zs" for r
  proof -
    show "unat (base r) < unat (limit r)" using tiled_proper [OF t that] by (simp add: proper_def word_less_nat_alt)
    then show "unat (extent r) = unat (limit r) - unat (base r)"
      unfolding extent_eq by (subst unat_sub) (simp_all add: word_le_nat_alt)
  qed
  have b1: "unat (b - 1) = unat b - 1" using bl(1) by (subst unat_sub) (simp_all add: word_le_nat_alt word_less_nat_alt)
  have from_b: "b \<le> base r" if r: "r \<in> set zs" "b < limit r" for r
  proof (rule ccontr)
    assume "\<not> b \<le> base r"
    then have "base r \<le> b - 1" "b - 1 < limit r" "base r \<le> b"
      using r(2) b1 by (simp_all add: word_le_nat_alt word_less_nat_alt)
    moreover have "b < l" using bl by (simp add: word_less_nat_alt)
    ultimately show False using kindof [OF r(1), of "b - 1"] kindof [OF r(1), of b] at [of b] r(2) before by simp
  qed
  have "b < l" using bl by (simp add: word_less_nat_alt)
  from stretch_region [OF zs(1) this k at] obtain u where u: "u \<in> set zs" "kind u = k" "base u \<le> b" "l \<le> limit u" by blast
  let ?r = "largest_region zs"
  note r = largest_region_props(1) [OF zs(2)]
  have "unat (extent u) \<le> unat (extent ?r)" using largest_region_props(2) [OF zs(2) u(1)] by (simp add: word_le_nat_alt)
  then have big: "unat l - unat b \<le> unat (limit ?r) - unat (base ?r)"
    using ext [OF u(1)] ext [OF r] u(3,4) by (simp add: word_le_nat_alt)
  then have "b < limit ?r" using bl ext(2) [OF r] by (simp add: word_less_nat_alt)
  note br = from_b [OF r this]
  have "unat (limit ?r) = unat l" "unat (base ?r) = unat b"
    using big lim [OF r] br ext(2) [OF r] bl(2) by (simp_all add: word_le_nat_alt)
  then have "base ?r = b" "limit ?r = l" by (simp_all add: word_unat_eq_iff)
  moreover have "kind ?r = k" using kindof [OF r, of b] at [of b] \<open>b < l\<close> calculation by simp
  ultimately show ?thesis by simp
qed

lemma stack_space_top:
  assumes "0 < b" and "unat b + unat b < unat l" and "unat l \<le> 2 ^ 32" and "16 dvd unat b" and "unat b + 32 \<le> unat l"
    and "\<And>a. b \<le> a \<Longrightarrow> a < l \<Longrightarrow> M a = Some SYSINFO_MT_USABLE"
    and "M (b - 1) \<noteq> Some SYSINFO_MT_USABLE" and "\<And>a. l \<le> a \<Longrightarrow> M a = None"
  shows "stack_space M"
  unfolding stack_space_def
proof (intro allI impI)
  fix zs assume zs: "zs \<noteq> [] \<and> memory_layout zs \<and> (\<forall>a. kind_at zs a = M a)"
  then have "base (largest_region zs) = b \<and> limit (largest_region zs) = l \<and> kind (largest_region zs) = SYSINFO_MT_USABLE"
    using assms by (intro top_stretch_largest) simp_all
  then have r: "base (largest_region zs) = b" "limit (largest_region zs) = l" "kind (largest_region zs) = SYSINFO_MT_USABLE"
    by simp_all
  have "unat (extent (largest_region zs)) = unat l - unat b"
    unfolding extent_eq r using assms(5) by (subst unat_sub) (simp_all add: word_le_nat_alt)
  moreover have "unat b \<le> (unat l - 9) div 16 * 16"
  proof -
    obtain q where q: "unat b = q * 16" using assms(4) by (auto simp: dvd_def)
    then have "q \<le> (unat l - 9) div 16" using assms(5) by (simp add: less_eq_div_iff_mult_less_eq)
    with q show ?thesis by simp
  qed
  ultimately have "stack_fits (largest_region zs)"
    using assms(2,3,5) by (simp add: stack_fits_def stack_base_def proper_def r word_less_nat_alt)
  with r(3) show "stack_fits (largest_region zs) \<and> kind (largest_region zs) = SYSINFO_MT_USABLE" by simp
qed

end
