(* ===== verification/Boot_Theorems.thy ===== *)
theory Boot_Theorems
  imports Boot
begin

text \<open>
  What \<open>main\<close> does on a whole machine: the theorem that it boots, the ways it gives up over its
  options, and a floppy that carries a program, its options and a sound memory map, on which
  every hypothesis holds.
\<close>

section \<open>A floppy that boots\<close>

text \<open>
  The root directory has \<^verbatim>\<open>BOOT\<close> in cluster 2, with \<^verbatim>\<open>OPTIONS.TXT\<close> in cluster 3, and
  \<^verbatim>\<open>KERNEL.ELF\<close> in cluster 4.
\<close>

definition dirent_bytes :: "string \<Rightarrow> u8 \<Rightarrow> u8 \<Rightarrow> u8 \<Rightarrow> u8 list" where
  "dirent_bytes name attr cluster sz =
     chars name @ [attr, 0, 0, 0, 0, 0, 0, 0, 0, 0, 0, 0, 0, 0, 0, cluster, 0, sz, 0, 0, 0]"

definition boot_file :: "u8 list" where
  "boot_file = chars (''boot_binary=/kernel.elf'' @ [CHR 0x0A])"

definition boot_dir :: fat_dirent_t where "boot_dir = decode_dirent (dirent_bytes ''BOOT       '' 0x10 2 0)"
definition options_dirent :: fat_dirent_t where "options_dirent = decode_dirent (dirent_bytes ''OPTIONS TXT'' 0x20 3 24)"
definition kernel_dirent :: fat_dirent_t where "kernel_dirent = decode_dirent (dirent_bytes ''KERNEL  ELF'' 0x20 4 88)"

definition boot_sectors :: "u8 list \<Rightarrow> u64 \<Rightarrow> u8 list" where
  "boot_sectors cfg l =
     (if l = 0 then floppy_boot_sector
      else if l = 19 then dirent_bytes ''BOOT       '' 0x10 2 0 @ dirent_bytes ''KERNEL  ELF'' 0x20 4 88
      else if l = 33 then dirent_bytes ''OPTIONS TXT'' 0x20 3 24
      else if l = 34 then cfg
      else if l = 35 then elf_image else [])"

definition boot_disk :: "u8 list \<Rightarrow> disk" where
  "boot_disk cfg l i = (if i < length (boot_sectors cfg l) then boot_sectors cfg l ! i else 0)"

lemma dirent_fields:
  "length name = 11 \<Longrightarrow> de_name (decode_dirent (dirent_bytes name a c n)) = chars name"
  "length name = 11 \<Longrightarrow> de_attr (decode_dirent (dirent_bytes name a c n)) = a"
  "length name = 11 \<Longrightarrow> unat (dirent_cluster (decode_dirent (dirent_bytes name a c n))) = unat c"
  "length name = 11 \<Longrightarrow> unat (de_file_size (decode_dirent (dirent_bytes name a c n))) = unat n"
  "length name = 11 \<Longrightarrow> length (dirent_bytes name a c n) = 32"
  by (simp_all add: dirent_bytes_def decode_dirent_def sub_bytes_def nth_append le16_def le32_def dirent_cluster_def)

lemma boot_dirents:
  "de_name boot_dir = chars ''BOOT       ''" "de_attr boot_dir = 0x10" "unat (dirent_cluster boot_dir) = 2"
  "de_name options_dirent = chars ''OPTIONS TXT''" "de_attr options_dirent = 0x20" "unat (dirent_cluster options_dirent) = 3"
  "unat (de_file_size options_dirent) = 24"
  "de_name kernel_dirent = chars ''KERNEL  ELF''" "de_attr kernel_dirent = 0x20" "unat (dirent_cluster kernel_dirent) = 4"
  unfolding boot_dir_def options_dirent_def kernel_dirent_def
  by (subst dirent_fields, simp, simp)+

lemma entries_two:
  "entries_of b (Suc (Suc n)) = decode_dirent (map b [0..<32]) # decode_dirent (map (\<lambda>j. b (32 + j)) [0..<32])
     # map (\<lambda>i. decode_dirent (map (\<lambda>j. b (32 * i + j)) [0..<32])) [2..<Suc (Suc n)]"
proof -
  have "[0..<Suc (Suc n)] = 0 # 1 # [2..<Suc (Suc n)]" by (simp add: upt_conv_Cons numeral_2_eq_2 del: upt_Suc)
  then show ?thesis unfolding entries_of_def by (simp del: upt_Suc)
qed

lemma boot_sector_lengths [simp]:
  "length floppy_boot_sector = 90" "length boot_file = 24" "length elf_image = 88"
  by (simp_all add: floppy_boot_sector_def boot_file_def elf_image_def)

lemma boot_root:
  "root_entries floppy (boot_disk cfg) = boot_dir # kernel_dirent
     # map (\<lambda>i. decode_dirent (map (\<lambda>j. disk_at (boot_disk cfg) 512 19 (32 * i + j)) [0..<32])) [2..<224]"
proof -
  have 1: "map (disk_at (boot_disk cfg) 512 19) [0..<32] = dirent_bytes ''BOOT       '' 0x10 2 0"
    by (rule nth_equalityI) (simp_all add: dirent_fields disk_at_def boot_disk_def boot_sectors_def nth_append)
  have 2: "map (\<lambda>j. disk_at (boot_disk cfg) 512 19 (32 + j)) [0..<32] = dirent_bytes ''KERNEL  ELF'' 0x20 4 88"
    by (rule nth_equalityI) (simp_all add: dirent_fields disk_at_def boot_disk_def boot_sectors_def nth_append)
  have "root_entries floppy (boot_disk cfg) = entries_of (disk_at (boot_disk cfg) 512 19) (Suc (Suc 222))"
    by (simp add: root_entries_def floppy_fields)
  then show ?thesis unfolding entries_two 1 2 boot_dir_def kernel_dirent_def by simp
qed

lemma boot_cluster: "\<exists>es. cluster_entries floppy (boot_disk cfg) 2 = options_dirent # es"
proof -
  have 1: "map (disk_at (boot_disk cfg) 512 33) [0..<32] = dirent_bytes ''OPTIONS TXT'' 0x20 3 24"
    by (rule nth_equalityI) (simp_all add: dirent_fields disk_at_def boot_disk_def boot_sectors_def)
  have "cluster_entries floppy (boot_disk cfg) 2 = entries_of (disk_at (boot_disk cfg) 512 33) (Suc (Suc 14))"
    by (simp add: cluster_entries_def floppy_fields floppy_cluster cluster_sector_def)
  then show ?thesis unfolding entries_two 1 options_dirent_def by simp
qed

lemma boot_found:
  "find_in_dir (root_entries floppy (boot_disk cfg)) (chars ''boot'') = Some boot_dir"
  "find_in_dir (root_entries floppy (boot_disk cfg)) (chars ''kernel.elf'') = Some kernel_dirent"
  "find_in_dir (cluster_entries floppy (boot_disk cfg) 2) (chars ''options.txt'') = Some options_dirent"
proof -
  have nm: "name83 (chars ''boot'') = Some (chars ''BOOT       '')" "name83 (chars ''kernel.elf'') = Some (chars ''KERNEL  ELF'')"
    "name83 (chars ''options.txt'') = Some (chars ''OPTIONS TXT'')"
    by (simp_all add: name83_def pad_def toupper_def replicate_num)
  show "find_in_dir (root_entries floppy (boot_disk cfg)) (chars ''boot'') = Some boot_dir"
    by (simp only: find_in_dir_def nm boot_root live_def) (simp add: visible_def boot_dirents fat_attrs)
  show "find_in_dir (root_entries floppy (boot_disk cfg)) (chars ''kernel.elf'') = Some kernel_dirent"
    by (simp only: find_in_dir_def nm boot_root live_def) (simp add: visible_def boot_dirents fat_attrs)
  obtain es where es: "cluster_entries floppy (boot_disk cfg) 2 = options_dirent # es" using boot_cluster by blast
  show "find_in_dir (cluster_entries floppy (boot_disk cfg) 2) (chars ''options.txt'') = Some options_dirent"
    by (simp only: find_in_dir_def nm es live_def) (simp add: visible_def boot_dirents fat_attrs)
qed

lemma boot_paths:
  "path_leads floppy (boot_disk cfg) [chars ''boot'', chars ''options.txt''] (Some options_dirent)"
  "path_leads floppy (boot_disk cfg) [chars ''kernel.elf''] (Some kernel_dirent)"
proof -
  have seg: "segment_ok (chars ''boot'')" "segment_ok (chars ''options.txt'')" "segment_ok (chars ''kernel.elf'')"
    by (simp_all add: segment_ok_def)
  have "cluster_fits floppy 2" by (simp add: cluster_fits_def cluster_sector_def floppy_fields)
  then have "dir_entry floppy (boot_disk cfg) (chars ''options.txt'') 2 (Some options_dirent)" by (rule dir_found) (rule boot_found)
  then have "path_walk floppy (boot_disk cfg) [chars ''options.txt''] boot_dir (Some options_dirent)"
    using seg(2) by (intro walk_step [OF _ _ _ _ walk_end]) (simp_all only: boot_dirents list.pred_inject, simp)
  then show "path_leads floppy (boot_disk cfg) [chars ''boot'', chars ''options.txt''] (Some options_dirent)"
    using seg by (simp only: path_leads_def floppy_fields boot_found list.case option.case list.pred_inject) simp
  show "path_leads floppy (boot_disk cfg) [chars ''kernel.elf''] (Some kernel_dirent)"
    using seg walk_end by (simp only: path_leads_def floppy_fields boot_found list.case option.case list.pred_inject) simp
qed

definition boot_frame :: frame where
  "boot_frame = \<lparr>boot_drive_str = replicate 3 0, load_offset_str = replicate 9 0, parser_key = replicate 65 0,
     parser_value = replicate 257 0, options_start = \<lparr>boot_binary = replicate 257 0, load_offset = 0\<rparr>,
     elf_header_at = 0x7100, prog_header_at = 0x7200, sysinfo_at = 0x7300, signature_literal = 0x9000\<rparr>"

definition boot_opts :: boot_options_t where
  "boot_opts = \<lparr>boot_binary = chars ''/kernel.elf'' @ 0 # replicate 245 0, load_offset = 0\<rparr>"

definition boot_kernel :: fat_file_t where
  "boot_kernel = \<lparr>file_fat = floppy, file_entry = kernel_dirent\<rparr>"

lemma boot_frame_ok: "locals_ok boot_frame"
proof -
  have "\<not> in_range 0x7200 32 x \<and> \<not> in_range 0x7300 12 x" if "in_range 0x7100 52 x" for x :: u32
    using that by (simp add: in_range_nat)
  moreover have "\<not> in_range 0x7200 32 x" if "in_range 0x7300 12 x" for x :: u32
    using that by (simp add: in_range_nat)
  ultimately show ?thesis by (simp add: locals_ok_def boot_frame_def)
qed

lemma floppy_drive:
  assumes "\<And>i. i < 90 \<Longrightarrow> d 0 i = floppy_boot_sector ! i"
  shows "good_drive (perfect_int13 d 512) 0 d floppy"
proof -
  have "map (d 0) [0..<90] = floppy_boot_sector" by (rule nth_equalityI) (simp_all add: assms)
  then have "floppy = fat_of_boot_sector 0 (map (d 0) [0..<90])" by (simp add: floppy_def)
  moreover have "sound_volume floppy" by (simp add: sound_volume_def floppy_fields)
  moreover have "root_fits floppy" "open_scratch floppy \<le> 0x40000"
    by (simp_all add: root_fits_def open_scratch_def root_bytes_def floppy_fields floppy_cluster)
  ultimately show ?thesis by (simp add: good_drive_def floppy_fields perfect_int13_ok)
qed

lemma boot_drive_ok: "good_drive (perfect_int13 (boot_disk cfg) 512) 0 (boot_disk cfg) floppy"
  by (rule floppy_drive) (simp add: boot_disk_def boot_sectors_def)

lemma boot_lines:
  assumes "length cfg = 24" and "cfg = config_text ls" and "list_all line_ok ls"
  shows "options_lines (boot_disk cfg) floppy options_dirent ls"
proof -
  let ?fl = "\<lparr>file_fat = floppy, file_entry = options_dirent\<rparr>"
  have "map (file_bytes ?fl (boot_disk cfg)) [0..<24] = cfg"
    using one_cluster_bytes [OF boot_dirents(6)] assms(1)
    by (intro nth_equalityI) (simp_all add: boot_disk_def boot_sectors_def)
  moreover have "file_holds ?fl (boot_disk cfg) 0 24" by (rule one_cluster_holds [OF boot_dirents(6)]) simp_all
  moreover have "de_attr options_dirent AND FAT_ATTR_DIRECTORY = 0" "read_scratch floppy + 24 + 1 \<le> 0x40000"
    by (simp_all add: boot_dirents fat_attrs floppy_fields floppy_cluster)
  ultimately show ?thesis
    using boot_paths(1) [of cfg] assms(2,3) unfolding options_lines_def by (simp only: boot_dirents, simp)
qed

lemma boot_options_ok: "options_file (boot_disk boot_file) floppy (options_start boot_frame) boot_opts"
proof -
  let ?ls = "[(chars ''boot_binary'', chars ''/kernel.elf'')] :: (u8 list \<times> u8 list) list"
  have "options_lines (boot_disk boot_file) floppy options_dirent ?ls"
    by (rule boot_lines) (simp_all add: line_ok_def plain_def, simp add: boot_file_def)
  moreover have "config_result (apply_lines ?ls (options_start boot_frame)) = Inr (PARSER_SUCCESS, boot_opts)"
    by (simp add: boot_frame_def boot_opts_def apply_option_def config_result_def finish_def drop_replicate)
  moreover have "unat (load_offset boot_opts) < 2 ^ 31" by (simp add: boot_opts_def)
  ultimately show ?thesis unfolding options_file_def by blast
qed

lemma boot_image: "is_image (file_bytes boot_kernel (boot_disk cfg))"
proof -
  have "file_bytes boot_kernel (boot_disk cfg) i = elf_image ! i" if "i < 88" for i
    using one_cluster_bytes [OF boot_dirents(10), of i "boot_disk cfg"] that
    by (simp add: boot_kernel_def boot_disk_def boot_sectors_def)
  then show ?thesis by (simp add: is_image_def)
qed

lemma boot_kernel_holds: "off + n < 512 \<Longrightarrow> file_holds boot_kernel (boot_disk cfg) off n"
  unfolding boot_kernel_def by (rule one_cluster_holds [OF boot_dirents(10)]) simp_all

lemma boot_program_ok: "program_file (boot_disk cfg) floppy boot_opts boot_kernel"
proof -
  have "boot_binary boot_opts = path_of [chars ''kernel.elf''] (replicate 245 0)" by (simp add: boot_opts_def)
  moreover have "headers_held boot_kernel (boot_disk cfg)"
    by (simp add: headers_held_def image_header [OF boot_image] boot_kernel_holds)
  moreover have "file_holds boot_kernel (boot_disk cfg) 0 52" by (rule boot_kernel_holds) simp
  moreover have "de_attr kernel_dirent AND FAT_ATTR_DIRECTORY = 0" by (simp add: boot_dirents fat_attrs)
  ultimately show ?thesis
    using boot_paths(2) image_accepted [OF boot_image] boot_dirents(10) unfolding program_file_def
    by (intro exI [of _ "[chars ''kernel.elf'']"] exI [of _ "replicate 245 0"] exI [of _ kernel_dirent])
      (simp del: path_of.simps list.map add: boot_kernel_def)
qed

section \<open>Its memory\<close>

text \<open>A memory that is the one of the root pointer's example outside the extended stack and the ELF header.\<close>

lemma boot_root_pointer: "root_pointer rsdp_memory boot_frame (Some 0xE0000)"
  unfolding root_pointer_def
proof (intro allI impI)
  fix m assume same: "\<forall>x. \<not> in_range (elf_header_at boot_frame) 52 x \<and> (unat x < 0x40000 \<or> 0x80000 \<le> unat x) \<longrightarrow> m x = rsdp_memory x"
  have m: "m x = rsdp_memory x" if "unat x < 0x7000 \<or> 0x8000 \<le> unat x \<and> unat x < 0x40000 \<or> 0x80000 \<le> unat x" for x
  proof -
    have "\<not> in_range 0x7100 52 x" using that by (auto simp: in_range_nat)
    with same that show ?thesis by (auto simp: boot_frame_def)
  qed
  have sig: "signature_at m 0x9000"
    unfolding signature_at_def
  proof (intro allI impI)
    fix i :: nat assume i: "i < 8"
    have "unat (0x9000 + of_nat i :: u32) = 0x9000 + i" using i by (simp add: unat_word_ariths unat_of_nat)
    then show "m (0x9000 + of_nat i) = of_char (RSDP_SIGNATURE ! i)"
      using m [of "0x9000 + of_nat i"] rsdp_memory_ok(1) i by (simp add: signature_at_def)
  qed
  have high: "m (0xE0000 + of_nat j) = rsdp_memory (0xE0000 + of_nat j)" if "j < 24" for j
  proof (rule m)
    have "unat (0xE0000 + of_nat j :: u32) = 0xE0000 + j" using that by (simp add: unat_word_ariths unat_of_nat)
    then show "unat (0xE0000 + of_nat j :: u32) < 0x7000 \<or> 0x8000 \<le> unat (0xE0000 + of_nat j :: u32)
        \<and> unat (0xE0000 + of_nat j :: u32) < 0x40000 \<or> 0x80000 \<le> unat (0xE0000 + of_nat j :: u32)" by simp
  qed
  have "rsdp_at m 0xE0000"
  proof -
    have "rsdp_memory (0xE0000 + 15) = 0" by (simp add: rsdp_memory_def blit_def)
    then have "m (0xE0000 + 15) = 0" using high [of 15] by simp
    moreover have "sums_to_zero m 0xE0000 0 20 = sums_to_zero rsdp_memory 0xE0000 0 20"
      unfolding sums_to_zero_def by (intro arg_cong [where f = "(dvd) 256"] sum.cong) (simp_all add: high)
    ultimately show ?thesis using rsdp_memory_ok(2) high by (simp add: rsdp_at_def)
  qed
  moreover have "\<not> rsdp_at m (16 * of_nat i)" if "i < 64" for i
  proof -
    have u: "unat (16 * of_nat i :: u32) = 16 * i" using that by (simp add: unat_word_ariths unat_of_nat)
    then have "m (16 * of_nat i + of_nat 0) = 0" using that m [of "16 * of_nat i"] by (simp add: rsdp_memory_low)
    moreover have "(of_char (RSDP_SIGNATURE ! 0) :: u8) \<noteq> 0" by (simp add: RSDP_SIGNATURE_def)
    ultimately show ?thesis unfolding rsdp_at_def by (metis zero_less_numeral)
  qed
  moreover have "load16 m 0x40E = 0" using m [of "0x40E"] m [of "0x40F"] by (simp add: load16_def rsdp_memory_low)
  ultimately have "find (rsdp_at m) (rsdp_candidates m) = Some 0xE0000" by (rule first_candidate)
  with sig show "signature_at m (signature_literal boot_frame) \<and> find (rsdp_at m) (rsdp_candidates m) = Some 0xE0000"
    by (simp add: boot_frame_def)
qed

lemma example_map:
  "boot_map (map region_of example_e820) a =
    (if a < 0x10FFEF then Some SYSINFO_MT_RESERVED else if a < 0x3000000 then Some SYSINFO_MT_USABLE else None)"
proof (cases "a < 0x10FFEF")
  case True
  then show ?thesis by (simp add: boot_map_def REAL_MODE_LIMIT_val)
next
  case False
  then have "\<not> a < 0x9F000" "\<not> a < 0x100000" by (simp_all add: word_less_nat_alt)
  moreover have "a < 0x3000000 \<longleftrightarrow> a < 0x1000000 \<or> a < 0x2000000 \<or> a < 0x3000000"
    by (auto simp: word_less_nat_alt)
  ultimately show ?thesis
    using False by (auto simp: boot_map_def REAL_MODE_LIMIT_val example_e820_def region_of_def mregion_kind_def limit_def covers_def not_less)
qed

lemma boot_segments:
  "program_segments (file_bytes boot_kernel (boot_disk cfg)) = [program_header_of (file_bytes boot_kernel (boot_disk cfg)) 52]"
  by (simp add: program_segments_def load_headers_def image_header [OF boot_image] image_program_header [OF boot_image])

lemma boot_segment_region:
  "base (segment_region (program_header_of (file_bytes boot_kernel (boot_disk cfg)) 52)) = 0x200000"
  "limit (segment_region (program_header_of (file_bytes boot_kernel (boot_disk cfg)) 52)) = 0x201000"
  by (simp_all add: image_program_header [OF boot_image] limit_def)

lemma boot_segments_placed:
  "segments_placed (file_holds boot_kernel (boot_disk cfg)) (boot_map (map region_of example_e820))
    (program_segments (file_bytes boot_kernel (boot_disk cfg)))"
proof -
  let ?p = "program_header_of (file_bytes boot_kernel (boot_disk cfg)) 52"
  have "segment_fits (file_holds boot_kernel (boot_disk cfg)) ?p"
    by (simp add: segment_fits_def image_program_header [OF boot_image] REAL_MODE_LIMIT_val no_wrap_def boot_kernel_holds)
  moreover have "room_around (boot_map (map region_of example_e820)) (segment_region ?p)"
    unfolding room_around_def boot_segment_region example_map
    by (auto simp: word_less_nat_alt word_le_nat_alt)
  ultimately show ?thesis unfolding boot_segments by (simp add: segments_placed_def)
qed

lemma boot_stack_space:
  "stack_space (loaded_map (boot_map (map region_of example_e820)) (program_segments (file_bytes boot_kernel (boot_disk cfg))))"
proof -
  have M: "loaded_map (boot_map (map region_of example_e820)) (program_segments (file_bytes boot_kernel (boot_disk cfg))) a =
    (if 0x200000 \<le> a \<and> a < 0x201000 then Some SYSINFO_MT_ELF_EXECUTABLE
     else if a < 0x10FFEF then Some SYSINFO_MT_RESERVED else if a < 0x3000000 then Some SYSINFO_MT_USABLE else None)" for a
    by (simp add: loaded_map_def boot_segments covers_def limit_def example_map image_program_header [OF boot_image])
  show ?thesis
    by (rule stack_space_top [of "0x201000" "0x3000000"]) (auto simp: M word_less_nat_alt word_le_nat_alt)
qed

section \<open>Properties\<close>

text \<open>
  C1. Stage 1 boots: on a good drive with a file of options that names a loadable program, with
  a sound memory map and a root pointer, and with room for the program, its segments and its
  stack, \<open>main\<close> started with empty stacks ends in the jump to the program's entry point. Then every
  segment is in memory; the stack pointer is aligned, points into usable memory and finds a
  zero return address and the address of the system information; that holds the boot drive, the
  root pointer and the head of a memory map in which exactly the segments have been marked as
  program memory; and the messages have been printed.
\<close>

theorem main_boots:
  fixes int13 :: "'e int13" and int15 :: "'e int15"
  assumes "good_drive int13 drv d f" and "options_file d f (options_start fr) opts" and "program_file d f opts fl"
    and "locals_ok fr" and "root_pointer m fr (Some p)"
    and "serves_e820 int15 token (ms @ [z])" "ms \<noteq> []" "ascending (map region_of ms)"
    and "5 * length ms + 3 + lsb16 (file_bytes fl d) 44 * (2 * length ms + 2 * lsb16 (file_bytes fl d) 44 + 5) \<le> 7021"
    and "segments_placed (file_holds fl d) (boot_map (map region_of ms)) (program_segments (file_bytes fl d))"
    and "stack_space (loaded_map (boot_map (map region_of ms)) (program_segments (file_bytes fl d)))"
  shows "\<exists>esp head zs t. main int13 int15 drv fr (boot_state m e)
      = Some (Inl (Control_Transferred (entry_point (header_of (file_bytes fl d))) esp), t)
    \<and> (\<forall>q\<in>set (program_segments (file_bytes fl d)). segment_loaded (file_bytes fl d) q (mem t))
    \<and> 16 dvd unat esp \<and> kind_at zs (ucast esp) = Some SYSINFO_MT_USABLE
    \<and> load32 (mem t) esp = 0 \<and> load32 (mem t) (esp + 4) = sysinfo_at fr
    \<and> sysinfo_in (mem t) (sysinfo_at fr) \<lparr>si_boot_drive = drv, si_mem_regions = head, si_rsdp = p\<rparr>
    \<and> regions_at t head zs \<and> memory_layout zs
    \<and> (\<forall>a. kind_at zs a = loaded_map (boot_map (map region_of ms)) (program_segments (file_bytes fl d)) a)
    \<and> int10_log t = map teletype (boot_text drv f opts)"
proof -
  let ?g = "file_bytes fl d" let ?ps = "program_segments ?g"
  from program_opened_run [OF assms(1-4), of int15 m e] obtain s where
    first: "main int13 int15 drv fr (boot_state m e) = bind (second_half int13 int15 drv fr fl) (\<lambda>_. ret ()) s"
    and s: "ran (start_text drv f @ (found_text @ parsing_text) @ options_text opts @ opening_text) nowhere (boot_state m e) s" "same_nodes (boot_state m e) s" "file_ready int13 fl d s"
    by blast
  have root: "root_pointer (mem s) fr (Some p)"
    using assms(5) ran_mem [OF s(1)] unfolding root_pointer_def boot_state_top by metis
  have held: "file_holds fl d 0 52" "accepted_elf ?g" "headers_held fl d"
    using assms(3) unfolding program_file_def by blast+
  have room: "node_room s (5 * length ms + 3 + lsb16 ?g 44 * (2 * length ms + 2 * lsb16 ?g 44 + 5))"
    unfolding node_room_nodes [OF s(2)] by (rule boot_state_room [OF assms(9)])
  from second_half_run [OF s(3) held assms(4) root assms(6-8) room assms(10,11), of drv] obtain head zs t u where
    second: "second_half int13 int15 drv fr fl s = Some (Inl (Control_Transferred (entry_point (header_of ?g))
        (of_nat (stack_base (largest_region zs)))), t)"
    and t: "t = (put_all switch_text u)\<lparr>mem := store32 (of_nat (stack_base (largest_region zs))) 0
        (store32 (of_nat (stack_base (largest_region zs)) + 4) (sysinfo_at fr) (mem u))\<rparr>"
    and zs: "regions_at u head zs" "memory_layout zs" "zs \<noteq> []"
    and k: "\<forall>a. kind_at zs a = loaded_map (boot_map (map region_of ms)) ?ps a"
    and ld: "\<forall>q\<in>set ?ps. segment_loaded ?g q (mem u)"
    and si: "sysinfo_in (mem u) (sysinfo_at fr) \<lparr>si_boot_drive = drv, si_mem_regions = head, si_rsdp = p\<rparr>"
    and out: "int10_log u = int10_log s @ map teletype (elf_text @ sysinfo_text @ load_text)" by blast
  have r: "stack_fits (largest_region zs)" "kind (largest_region zs) = SYSINFO_MT_USABLE"
    using assms(11) zs(2,3) k unfolding stack_space_def by blast+
  have "\<forall>q\<in>set ?ps. no_wrap q \<and> segment_loaded ?g q (mem u)"
    using ld assms(10) by (simp add: segments_placed_def segment_fits_def)
  moreover have "unat (sysinfo_at fr) + 12 \<le> 0x10000" using assms(4) by (simp add: locals_ok_def)
  ultimately have over: "\<forall>q\<in>set ?ps. segment_loaded ?g q (mem t)" "16 dvd unat (of_nat (stack_base (largest_region zs)) :: u32)"
    "kind_at zs (ucast (of_nat (stack_base (largest_region zs)) :: u32)) = Some SYSINFO_MT_USABLE"
    "load32 (mem t) (of_nat (stack_base (largest_region zs))) = 0" "load32 (mem t) (of_nat (stack_base (largest_region zs)) + 4) = sysinfo_at fr"
    "sysinfo_in (mem t) (sysinfo_at fr) \<lparr>si_boot_drive = drv, si_mem_regions = head, si_rsdp = p\<rparr>"
    using handed_over [OF zs(2,3) r k _ si, of ?g t] by (simp_all add: t)
  have "main int13 int15 drv fr (boot_state m e) = Some (Inl (Control_Transferred (entry_point (header_of ?g))
      (of_nat (stack_base (largest_region zs)))), t)"
    unfolding first by (rule bind_halts, rule second)
  moreover have "regions_at t head zs" using zs(1) by (simp add: t regions_at_def put_all_def)
  moreover have "int10_log t = map teletype (boot_text drv f opts)"
    using s(1) out by (simp add: t put_all_def ran_def boot_text_def boot_state_top teletype_def del: list.map)
  ultimately show ?thesis using over zs(2) k by blast
qed



theorem main_boots_witness:
  "\<exists>esp head zs t. main (perfect_int13 (boot_disk boot_file) 512) (listed_int15 (example_e820 @ [example_last])) 0 boot_frame (boot_state rsdp_memory ())
      = Some (Inl (Control_Transferred 0x200000 esp), t)
    \<and> mem t 0x200000 = 0xEB \<and> mem t 0x200004 = 0 \<and> load32 (mem t) (esp + 4) = 0x7300
    \<and> sysinfo_in (mem t) 0x7300 \<lparr>si_boot_drive = 0, si_mem_regions = head, si_rsdp = 0xE0000\<rparr> \<and> regions_at t head zs"
proof -
  let ?g = "file_bytes boot_kernel (boot_disk boot_file)"
  have small: "5 * length example_e820 + 3 + lsb16 ?g 44 * (2 * length example_e820 + 2 * lsb16 ?g 44 + 5) \<le> 7021"
    by (simp add: example_e820_ok(4) image_header [OF boot_image])
  have entry: "entry_point (header_of ?g) = 0x200000"
    using header_of_fields(6) [of ?g] by (simp add: image_header [OF boot_image] word_unat_eq_iff)
  have at: "sysinfo_at boot_frame = 0x7300" by (simp add: boot_frame_def)
  obtain esp head zs t where run: "main (perfect_int13 (boot_disk boot_file) 512) (listed_int15 (example_e820 @ [example_last])) 0 boot_frame
      (boot_state rsdp_memory ()) = Some (Inl (Control_Transferred 0x200000 esp), t)"
    and ld: "\<forall>q\<in>set (program_segments ?g). segment_loaded ?g q (mem t)"
    and rest: "load32 (mem t) (esp + 4) = 0x7300" "sysinfo_in (mem t) 0x7300 \<lparr>si_boot_drive = 0, si_mem_regions = head, si_rsdp = 0xE0000\<rparr>"
      "regions_at t head zs"
    using main_boots [OF boot_drive_ok boot_options_ok boot_program_ok boot_frame_ok boot_root_pointer example_e820_ok(1-3) small
        boot_segments_placed boot_stack_space, of "()"] unfolding entry at by blast
  have data: "mem t (0x200000 + of_nat i) = (if i < 4 then ?g (84 + i) else 0)" if "i < 4096" for i
    using ld that by (simp add: boot_segments segment_loaded_def image_program_header [OF boot_image])
  have "mem t 0x200000 = 0xEB" "mem t 0x200004 = 0"
    using data [of 0] data [of 4] by (simp_all add: image_byte [OF boot_image] elf_image_def)
  with run rest show ?thesis by blast
qed

end
