(* ===== verification/Boot_Errors.thy ===== *)
theory Boot_Errors
  imports Boot_Theorems
begin

text \<open>
  The ways \<^verbatim>\<open>main\<close> ends over its options without starting a program: the file is missing, the
  parser refuses it, or the load offset does not fit the array it is printed to. Each on a
  floppy that shows it.
\<close>

lemma lsd_at_least: "b ^ n \<le> v \<Longrightarrow> 2 \<le> b \<Longrightarrow> n < length (lsd b v)"
proof (induction n arbitrary: v)
  case 0
  then show ?case by (simp add: lsd_step)
next
  case (Suc n)
  have "b * b ^ n \<le> v" using Suc.prems by simp
  then have "(b * b ^ n) div b \<le> v div b" using Suc.prems(2) by (intro zdiv_mono1) simp_all
  then have "b ^ n \<le> v div b" using Suc.prems(2) by simp
  moreover have "0 < v" using \<open>b * b ^ n \<le> v\<close> Suc.prems(2) by (smt (verit) mult_pos_pos zero_less_power)
  ultimately show ?case using Suc by (simp add: lsd_step)
qed

text \<open>An offset so far above \<open>2\<^sup>3\<^sup>1\<close> is negative and takes eight digits, a sign and the terminator.\<close>

lemma itoa_offset_too_long:
  assumes "2 ^ 31 < unat (x :: u32)" and "unat x \<le> 2 ^ 32 - 2 ^ 28" and "length str = 9"
  shows "itoa (sint x) (Some str) 16 = Inl Out_Of_Bounds"
proof -
  have "int (2 ^ 31) < int (unat x)" "int (unat x) \<le> int (2 ^ 32 - 2 ^ 28)"
    using assms(1,2) by (simp_all only: of_nat_less_iff of_nat_le_iff)
  then have x: "2 ^ 31 < uint x" "uint x \<le> 2 ^ 32 - 2 ^ 28" by simp_all
  have "sint x = uint x - 2 ^ 32"
  proof -
    have "sint x = signed_take_bit 31 (uint x)" by (simp only: sint_uint) simp
    also have "\<dots> = signed_take_bit 31 (uint x - 2 ^ 32)"
      by (simp add: signed_take_bit_eq_iff_take_bit_eq take_bit_eq_mod) 
    also have "\<dots> = uint x - 2 ^ 32" using x by (intro signed_take_bit_int_eq_self) simp_all
    finally show ?thesis .
  qed
  moreover have "16 ^ 7 \<le> \<bar>uint x - 2 ^ 32\<bar>" "- (2 ^ 31) < uint x - 2 ^ 32" "uint x - 2 ^ 32 < 0" using x by simp_all
  ultimately show ?thesis
    using lsd_at_least [of 16 7 "\<bar>sint x\<bar>"] assms(3)
    by (intro itoa_short) (simp_all add: itoa_text_def)
qed


definition bad_options_text :: "parser_result_t \<Rightarrow> u8 list" where
  "bad_options_text r = chars (''Error parsing file. Reason: '' @ parser_result_to_str r @ crlf)"

lemma parser_reason_chars: "CHR 0x00 \<notin> set (parser_result_to_str r)"
  by (cases r) simp_all

text \<open>
  C26. When \<^verbatim>\<open>/boot/options.txt\<close> cannot be opened - it is missing, or a directory - \<open>main\<close> says why
  and returns with the stacks empty, the list of regions untouched and memory changed at most in
  the area of the extended stack.
\<close>

theorem main_options_missing:
  fixes int13 :: "'e int13" and int15 :: "'e int15"
  assumes "good_drive int13 drv d f" and "locals_ok fr"
    and "path_leads f d [chars ''boot'', chars ''options.txt''] r" and "open_result f r = (err, None)"
  shows "\<exists>t. main int13 int15 drv fr (boot_state m e) = Some (Inr (), t)
    \<and> int10_log t = map teletype (start_text drv f @ missing_text err)
    \<and> ext_stack_top t = 0x80000 \<and> same_nodes (boot_state m e) t
    \<and> (\<forall>x. unat x < 0x40000 \<or> 0x80000 \<le> unat x \<longrightarrow> mem t x = m x)"
proof -
  let ?s = "boot_state m e"
  have root: "fat_type f \<noteq> FAT_TYPE_32 \<longrightarrow> root_fits f" using assms(1) unfolding good_drive_def by blast
  from before_options_run [OF assms(1,2), of int15 m e] obtain s3 where
    start: "main int13 int15 drv fr ?s = bind (unless_returned (read_options int13 f fr) (\<lambda>boot_options.
        bind (show_options boot_options fr) (\<lambda>_. unless_returned (open_binary int13 f boot_options) (second_half int13 int15 drv fr)))) (\<lambda>_. ret ()) s3"
    and s3: "ran (start_text drv f) nowhere ?s s3" "same_nodes ?s s3" by blast
  have "ext_stack_top s3 = 0x80000" using ran_top [OF s3(1)] by (simp only: boot_state_top)
  from read_options_missing [OF assms(3,4) drive_ready [OF assms(1) this] root] obtain t where
    ro: "read_options int13 f fr s3 = Some (Inr None, t)" and t: "ran (missing_text err) nowhere s3 t" "same_nodes s3 t" by blast
  have "main int13 int15 drv fr ?s = Some (Inr (), t)"
    unfolding start by (rule bind_inside(3), rule ro, rule exec_basic)
  moreover have "ran (start_text drv f @ missing_text err) nowhere ?s t" by (rule ran_quiet [OF s3(1) t(1)])
  ultimately show ?thesis
    using same_nodes_trans [OF s3(2) t(2)] by (auto simp: ran_def boot_state_top)
qed

text \<open>A floppy with nothing but its boot sector.\<close>

definition blank_disk :: disk where
  "blank_disk l i = (if l = 0 \<and> i < length floppy_boot_sector then floppy_boot_sector ! i else 0)"

lemma blank_path: "path_leads floppy blank_disk [chars ''boot'', chars ''options.txt''] None"
proof -
  have "disk_at blank_disk 512 19 = (\<lambda>k. if k < 512 then 0 else blank_disk (of_nat (19 + k div 512)) (k mod 512))"
    by (auto simp: disk_at_def blank_disk_def)
  then have b: "disk_at blank_disk 512 19 k = 0" if "k < 32" for k using that by simp
  have "root_entries floppy blank_disk = entries_of (disk_at blank_disk 512 19) (Suc (Suc 222))"
    by (simp add: root_entries_def floppy_fields)
  then obtain es where es: "root_entries floppy blank_disk = decode_dirent (map (disk_at blank_disk 512 19) [0..<32]) # es"
    unfolding entries_two by blast
  have "map (disk_at blank_disk 512 19) [0..<32] = replicate 32 0" by (rule nth_equalityI) (simp_all add: b)
  then have "de_name (hd (root_entries floppy blank_disk)) ! 0 = 0" by (simp add: es decode_dirent_def sub_bytes_def)
  then have "live (root_entries floppy blank_disk) = []" by (simp add: live_def es)
  then have "find_in_dir (root_entries floppy blank_disk) (chars ''boot'') = None"
    by (simp add: find_in_dir_def split: Option.bind_split)
  moreover have "segment_ok (chars ''boot'')" "segment_ok (chars ''options.txt'')" by (simp_all add: segment_ok_def)
  ultimately show ?thesis by (simp only: path_leads_def floppy_fields list.case option.case list.pred_inject) simp
qed

theorem main_options_missing_witness:
  "\<exists>t. main (perfect_int13 blank_disk 512) (listed_int15 []) 0 boot_frame (boot_state (\<lambda>_. 0) ()) = Some (Inr (), t)
    \<and> int10_log t = map teletype (start_text 0 floppy @ missing_text FAT_FILE_NOT_FOUND)"
proof -
  have drive: "good_drive (perfect_int13 blank_disk 512) 0 blank_disk floppy"
    by (rule floppy_drive) (simp add: blank_disk_def)
  have "open_result floppy None = (FAT_FILE_NOT_FOUND, None)" by (simp add: open_result_def)
  from main_options_missing [OF drive boot_frame_ok blank_path this, of "listed_int15 []" "\<lambda>_. 0" "()"] show ?thesis by blast
qed

text \<open>
  C29. When the parser refuses the file of options, \<open>main\<close> says why and returns; the block that
  held the file, of one byte more than its size, is still on the extended stack.
\<close>

theorem main_bad_options:
  fixes int13 :: "'e int13" and int15 :: "'e int15"
  assumes "good_drive int13 drv d f" and "locals_ok fr" and "options_lines d f de ls"
    and "config_result (apply_lines ls (options_start fr)) = Inr (r, opts)" and "r \<noteq> PARSER_SUCCESS"
  shows "\<exists>t. main int13 int15 drv fr (boot_state m e) = Some (Inr (), t)
    \<and> int10_log t = map teletype (start_text drv f @ (found_text @ parsing_text) @ bad_options_text r)
    \<and> unat (ext_stack_top t) = 0x80000 - (unat (de_file_size de) + 1) \<and> same_nodes (boot_state m e) t
    \<and> (\<forall>x. unat x < 0x40000 \<or> 0x80000 \<le> unat x \<longrightarrow> mem t x = m x)"
proof -
  let ?s = "boot_state m e" and ?n = "de_file_size de"
  have root: "fat_type f \<noteq> FAT_TYPE_32 \<longrightarrow> root_fits f" using assms(1) unfolding good_drive_def by blast
  from before_options_run [OF assms(1,2), of int15 m e] obtain s3 where
    start: "main int13 int15 drv fr ?s = bind (unless_returned (read_options int13 f fr) (\<lambda>boot_options.
        bind (show_options boot_options fr) (\<lambda>_. unless_returned (open_binary int13 f boot_options) (second_half int13 int15 drv fr)))) (\<lambda>_. ret ()) s3"
    and s3: "ran (start_text drv f) nowhere ?s s3" "same_nodes ?s s3" by blast
  have top3: "ext_stack_top s3 = 0x80000" using ran_top [OF s3(1)] by (simp only: boot_state_top)
  have leads: "path_leads f d [chars ''boot'', chars ''options.txt''] (Some de)"
    and de: "de_attr de AND FAT_ATTR_DIRECTORY = 0" "unat (dirent_cluster de) < 2 ^ 28"
      "file_holds \<lparr>file_fat = f, file_entry = de\<rparr> d 0 (unat ?n)" and fits: "read_scratch f + unat ?n + 1 \<le> 0x40000"
    using assms(3) unfolding options_lines_def by blast+
  have room: "0x40000 + read_scratch f + unat ?n + 1 \<le> unat (ext_stack_top s3)" using fits by (simp add: top3)
  from read_options_parses [OF leads de(1) drive_ready [OF assms(1) top3] root de(2,3) room, of fr,
      unfolded options_parsed [OF assms(3,2)] assms(4)] obtain u where
    run: "read_options int13 f fr s3 = bind (lift_res (Inr (r, opts)))
        (\<lambda>(parser_result, boot_options).
           if parser_result \<noteq> PARSER_SUCCESS then give_up ''Error parsing file. Reason: '' (parser_result_to_str parser_result)
           else bind (pop (?n + 1)) (\<lambda>_. ret (Some boot_options))) u"
    and u: "ext_stack_top u = ext_stack_top s3 - (?n + 1)" "int10_log u = int10_log s3 @ map teletype (found_text @ parsing_text)"
      "same_nodes s3 u" "\<forall>x. unat x < 0x40000 \<or> 0x80000 \<le> unat x \<longrightarrow> mem u x = mem s3 x" by blast
  let ?t = "put_all (bad_options_text r) u"
  have "give_up ''Error parsing file. Reason: '' (parser_result_to_str r) u = Some (Inr None, ?t)"
    unfolding bad_options_text_def by (rule give_up_run) (simp_all add: parser_reason_chars)
  then have ro: "read_options int13 f fr s3 = Some (Inr None, ?t)"
    unfolding run using assms(5) by - (rule bind_run, rule exec_lift_res(1), simp)
  have "main int13 int15 drv fr ?s = Some (Inr (), ?t)"
    unfolding start by (rule bind_inside(3), rule ro, rule exec_basic)
  moreover have "unat (ext_stack_top ?t) = 0x80000 - (unat ?n + 1)"
  proof -
    have "unat (?n + 1) = unat ?n + 1" using fits by (simp add: unat_word_ariths)
    then show ?thesis using fits u(1) top3 by (simp add: unat_sub word_le_nat_alt)
  qed
  moreover have "int10_log ?t = map teletype (start_text drv f @ (found_text @ parsing_text) @ bad_options_text r)"
    using s3(1) u(2) by (simp add: put_all_log ran_def boot_state_top del: list.map)
  ultimately show ?thesis
    using s3 u(3,4) by (intro exI [of _ ?t]) (simp add: ran_def boot_state_top same_nodes_def)
qed

theorem main_bad_options_witness:
  "\<exists>t. main (perfect_int13 (boot_disk (chars (''boot_kernel=/kernel.elf'' @ [CHR 0x0A]))) 512) (listed_int15 []) 0 boot_frame
      (boot_state (\<lambda>_. 0) ()) = Some (Inr (), t) \<and> unat (ext_stack_top t) = 0x80000 - (24 + 1)"
proof -
  let ?ls = "[(chars ''boot_kernel'', chars ''/kernel.elf'')] :: (u8 list \<times> u8 list) list"
  have lines: "options_lines (boot_disk (chars (''boot_kernel=/kernel.elf'' @ [CHR 0x0A]))) floppy options_dirent ?ls"
    by (rule boot_lines) (simp_all add: line_ok_def plain_def)
  have cfg: "config_result (apply_lines ?ls (options_start boot_frame)) = Inr (PARSER_UNRECOGNIZED_KEY, options_start boot_frame)"
    by (simp add: apply_option_def config_result_def)
  have "PARSER_UNRECOGNIZED_KEY \<noteq> PARSER_SUCCESS" by simp
  from main_bad_options [OF boot_drive_ok boot_frame_ok lines cfg this, of "listed_int15 []" "\<lambda>_. 0" "()", unfolded boot_dirents]
  show ?thesis by blast
qed

text \<open>
  C30. The array for the printed load offset has nine bytes: with an offset above \<open>2\<^sup>3\<^sup>1\<close> that needs
  a sign and eight digits, \<open>main\<close> writes the terminator behind it. The offset need not be in the
  file; then it is what the stack held.
\<close>

theorem main_load_offset_overflow:
  fixes int13 :: "'e int13" and int15 :: "'e int15"
  assumes "good_drive int13 drv d f" and "locals_ok fr" and "options_lines d f de ls"
    and "config_result (apply_lines ls (options_start fr)) = Inr (PARSER_SUCCESS, opts)"
    and "2 ^ 31 < unat (load_offset opts)" and "unat (load_offset opts) \<le> 2 ^ 32 - 2 ^ 28"
  shows "\<exists>t. main int13 int15 drv fr (boot_state m e) = Some (Inl (Undef Out_Of_Bounds), t)"
proof -
  from options_read_run [OF assms(1-4), of int15 m e] obtain u where
    start: "main int13 int15 drv fr (boot_state m e) = bind (bind (show_options opts fr)
        (\<lambda>_. unless_returned (open_binary int13 f opts) (second_half int13 int15 drv fr))) (\<lambda>_. ret ()) u" by blast
  have "length (load_offset_str fr) = 9" using assms(2) by (simp add: locals_ok_def)
  note long = itoa_offset_too_long [OF assms(5,6) this]
  have "\<exists>t. show_options opts fr u = Some (Inl (Undef Out_Of_Bounds), t)"
    unfolding show_options_def long
    by (intro exI, rule say_run, simp, rule print_run [OF accepted_terminated [OF assms(4)]], rule say_run, simp add: crlf_def)
      (rule bind_halts, rule exec_lift_res(2))
  then show ?thesis unfolding start by (auto intro: bind_halts)
qed

text \<open>The stack happened to hold this offset where \<open>main\<close> keeps its options; the file sets the path only.\<close>

definition unlucky_frame :: frame where
  "unlucky_frame = boot_frame\<lparr>options_start := \<lparr>boot_binary = replicate 257 0, load_offset = 0x80000001\<rparr>\<rparr>"

theorem main_load_offset_overflow_witness:
  "\<exists>t. main (perfect_int13 (boot_disk boot_file) 512) (listed_int15 []) 0 unlucky_frame (boot_state (\<lambda>_. 0) ())
      = Some (Inl (Undef Out_Of_Bounds), t)"
proof -
  let ?ls = "[(chars ''boot_binary'', chars ''/kernel.elf'')] :: (u8 list \<times> u8 list) list"
  have lines: "options_lines (boot_disk boot_file) floppy options_dirent ?ls"
    by (rule boot_lines) (simp_all add: line_ok_def plain_def, simp add: boot_file_def)
  have cfg: "config_result (apply_lines ?ls (options_start unlucky_frame)) = Inr (PARSER_SUCCESS, boot_opts\<lparr>load_offset := 0x80000001\<rparr>)"
    by (simp add: unlucky_frame_def boot_opts_def apply_option_def config_result_def finish_def drop_replicate)
  have "locals_ok unlucky_frame" using boot_frame_ok by (simp add: locals_ok_def unlucky_frame_def)
  from main_load_offset_overflow [OF boot_drive_ok this lines cfg] show ?thesis by simp
qed


section \<open>The program is refused\<close>

lemma elf_reason_chars: "CHR 0x00 \<notin> set (elf_result_to_str r)"
  by (cases r) simp_all

definition refusal :: "string \<Rightarrow> u8 list" where
  "refusal reason = chars (''Error opening file. Reason: '' @ reason @ crlf)"

text \<open>
  The program the options name cannot be opened, or is not an executable file of a supported
  kind; what is printed then.
\<close>

inductive binary_refused :: "disk \<Rightarrow> fat_t \<Rightarrow> boot_options_t \<Rightarrow> u8 list \<Rightarrow> bool"
  for d f opts
where
  not_opened: "boot_binary opts = path_of segs rest \<Longrightarrow> segs \<noteq> [] \<Longrightarrow> path_leads f d segs r \<Longrightarrow> open_result f r = (err, None) \<Longrightarrow>
    binary_refused d f opts (opening_text @ refusal (fat_result_to_str err))"
| not_executable: "boot_binary opts = path_of segs rest \<Longrightarrow> segs \<noteq> [] \<Longrightarrow> path_leads f d segs (Some e) \<Longrightarrow>
    de_attr e AND FAT_ATTR_DIRECTORY = 0 \<Longrightarrow> unat (dirent_cluster e) < 2 ^ 28 \<Longrightarrow>
    file_holds \<lparr>file_fat = f, file_entry = e\<rparr> d 0 52 \<Longrightarrow>
    validate_header (header_of (file_bytes \<lparr>file_fat = f, file_entry = e\<rparr> d)) = Inr r \<Longrightarrow> r \<noteq> ELF_SUCCESS \<Longrightarrow>
    binary_refused d f opts (opening_text @ elf_text @ refusal (elf_result_to_str r))"

lemma open_binary_fails:
  fixes int13 :: "'e int13"
  assumes "boot_binary opts = path_of segs rest" and "segs \<noteq> []" and "path_leads f d segs r" and "open_result f r = (err, None)"
    and ready: "read_ready int13 f d (open_scratch f) s" and root: "fat_type f \<noteq> FAT_TYPE_32 \<longrightarrow> root_fits f"
  shows "\<exists>t. open_binary int13 f opts s = Some (Inr None, t)
    \<and> ran (opening_text @ refusal (fat_result_to_str err)) nowhere s t \<and> same_nodes s t"
proof -
  let ?u = "put_all opening_text s"
  have err: "err \<noteq> FAT_SUCCESS" using assms(4) by (auto simp: open_result_def split: option.splits if_splits)
  have u: "read_ready int13 f d (open_scratch f) ?u" using ready by (simp add: read_ready_top [of ?u s])
  from fat_open_run [OF assms(3,2) u, of rest] root obtain t where
    run: "fat_open int13 f (path_of segs rest) ?u = Some (Inr (err, None), t)" and t: "only_scratch (open_scratch f) ?u t"
    by (auto simp: assms(4))
  let ?t = "put_all (refusal (fat_result_to_str err)) t"
  have t': "ran [] nowhere ?u t" "same_nodes ?u t" using ran_scratch [OF t] u by (simp_all add: read_ready_def)
  have "give_up ''Error opening file. Reason: '' (fat_result_to_str err) t = Some (Inr None, ?t)"
    unfolding refusal_def by (rule give_up_run) (simp_all add: fat_reason_chars)
  then have "open_binary int13 f opts s = Some (Inr None, ?t)"
    unfolding open_binary_def assms(1) using err
    by - (rule say_run, simp add: crlf_def, rule bind_run, rule run [unfolded opening_text_def], simp)
  moreover have "ran (opening_text @ [] @ refusal (fat_result_to_str err)) nowhere s ?t"
    by (rule ran_quiet [OF ran_put_all(1) ran_quiet [OF t'(1) ran_put_all(1)]])
  moreover have "same_nodes s ?t" using t'(2) by (simp add: same_nodes_def)
  ultimately show ?thesis by auto
qed

lemma parse_elf_fails:
  fixes int13 :: "'e int13"
  assumes "file_ready int13 fl d s" and "file_holds fl d 0 52" and "unat (elf_header_at fr) + 52 \<le> 0x40000"
    and "validate_header (header_of (file_bytes fl d)) = Inr r" and "r \<noteq> ELF_SUCCESS"
  shows "\<exists>t. parse_elf int13 fl fr s = Some (Inr None, t)
    \<and> ran (elf_text @ refusal (elf_result_to_str r)) (in_range (elf_header_at fr) 52) s t \<and> same_nodes s t"
proof -
  let ?s = "put_all elf_text s"
  have "file_ready int13 fl d ?s" using fat_file.ready_top [OF assms(1), of ?s] by simp
  from elf_open_run [OF this assms(2,3)] assms(4) obtain t where
    run: "elf_open int13 (elf_header_at fr) fl ?s = Some (Inr (r, \<lparr>elf_file = fl, elf_header = elf_header_at fr\<rparr>), t)"
    and t: "touched (in_range (elf_header_at fr) 52) ?s t" "same_nodes ?s t"
    by (auto simp: same_nodes_def)
  let ?t = "put_all (refusal (elf_result_to_str r)) t"
  have "give_up ''Error opening file. Reason: '' (elf_result_to_str r) t = Some (Inr None, ?t)"
    unfolding refusal_def by (rule give_up_run) (simp_all add: elf_reason_chars)
  then have "parse_elf int13 fl fr s = Some (Inr None, ?t)"
    unfolding parse_elf_def using assms(5)
    by - (rule say_run, simp add: crlf_def, rule bind_run, rule run [unfolded elf_text_def], simp)
  moreover have "ran (elf_text @ refusal (elf_result_to_str r)) (in_range (elf_header_at fr) 52) s ?t"
    using ran_trans [OF ran_quiet [OF ran_put_all(1) ran_touched [OF t(1)]] ran_put_all(1)] by auto
  moreover have "same_nodes s ?t" using t(2) by (simp add: same_nodes_def)
  ultimately show ?thesis by blast
qed

text \<open>
  C27. When the file that the options name cannot be opened, or its header is not that of an
  executable of a supported kind, \<open>main\<close> prints the reason and returns: the extended stack is
  empty, no region was allocated, and of the memory outside the area of that stack at most the
  local ELF header has changed.
\<close>

theorem main_binary_refused:
  fixes int13 :: "'e int13" and int15 :: "'e int15"
  assumes drive: "good_drive int13 drv d f" and fr: "locals_ok fr" and opts: "options_file d f (options_start fr) opts"
    and "binary_refused d f opts txt"
  shows "\<exists>t. main int13 int15 drv fr (boot_state m env) = Some (Inr (), t)
    \<and> int10_log t = map teletype (start_text drv f @ (found_text @ parsing_text) @ options_text opts @ txt)
    \<and> ext_stack_top t = 0x80000 \<and> same_nodes (boot_state m env) t
    \<and> (\<forall>x. \<not> in_range (elf_header_at fr) 52 x \<and> (unat x < 0x40000 \<or> 0x80000 \<le> unat x) \<longrightarrow> mem t x = m x)"
  using assms(4)
proof cases
  case (not_opened segs rest r err)
  have root: "fat_type f \<noteq> FAT_TYPE_32 \<longrightarrow> root_fits f" using drive unfolding good_drive_def by blast
  from options_shown_run [OF drive fr opts, of int15 m env] obtain s where
    start: "main int13 int15 drv fr (boot_state m env)
      = bind (unless_returned (open_binary int13 f opts) (second_half int13 int15 drv fr)) (\<lambda>_. ret ()) s"
    and s: "ran (start_text drv f @ (found_text @ parsing_text) @ options_text opts) nowhere (boot_state m env) s" "same_nodes (boot_state m env) s"
    by blast
  have "ext_stack_top s = 0x80000" using ran_top [OF s(1)] by (simp only: boot_state_top)
  from open_binary_fails [OF not_opened(2-5) drive_ready [OF drive this] root] obtain t where
    ob: "open_binary int13 f opts s = Some (Inr None, t)"
    and t: "ran (opening_text @ refusal (fat_result_to_str err)) nowhere s t" "same_nodes s t" by blast
  have "main int13 int15 drv fr (boot_state m env) = Some (Inr (), t)"
    unfolding start by (rule bind_inside(3), rule ob, rule exec_basic)
  with ran_quiet [OF s(1) t(1)] same_nodes_trans [OF s(2) t(2)] show ?thesis
    unfolding not_opened(1) by (auto simp: ran_def boot_state_top)
next
  case (not_executable segs rest e r)
  let ?fl = "\<lparr>file_fat = f, file_entry = e\<rparr>"
  from first_half_run [OF drive opts not_executable(2-6) fr, of int15 m env] obtain s where
    start: "main int13 int15 drv fr (boot_state m env) = bind (second_half int13 int15 drv fr ?fl) (\<lambda>_. ret ()) s"
    and s: "ran (start_text drv f @ (found_text @ parsing_text) @ options_text opts @ opening_text) nowhere (boot_state m env) s"
      "same_nodes (boot_state m env) s" "file_ready int13 ?fl d s" by blast
  have "unat (elf_header_at fr) + 52 \<le> 0x40000" using fr by (simp add: locals_ok_def)
  from parse_elf_fails [OF s(3) not_executable(7) this not_executable(8,9)] obtain t where
    pe: "parse_elf int13 ?fl fr s = Some (Inr None, t)"
    and t: "ran (elf_text @ refusal (elf_result_to_str r)) (in_range (elf_header_at fr) 52) s t" "same_nodes s t" by blast
  have "main int13 int15 drv fr (boot_state m env) = Some (Inr (), t)"
    unfolding start second_half_def by (rule bind_inside(3), rule pe, rule exec_basic)
  with ran_quiet [OF s(1) t(1)] same_nodes_trans [OF s(2) t(2)] show ?thesis
    unfolding not_executable(1) by (auto simp: ran_def boot_state_top)
qed

text \<open>Options that name a file the example floppy does not have.\<close>

definition lost_file :: "u8 list" where
  "lost_file = chars (''boot_binary=/kernel.bin'' @ [CHR 0x0A])"

definition lost_opts :: boot_options_t where
  "lost_opts = \<lparr>boot_binary = chars ''/kernel.bin'' @ 0 # replicate 245 0, load_offset = 0\<rparr>"

lemma lost_options_ok: "options_file (boot_disk lost_file) floppy (options_start boot_frame) lost_opts"
proof -
  let ?ls = "[(chars ''boot_binary'', chars ''/kernel.bin'')] :: (u8 list \<times> u8 list) list"
  have "options_lines (boot_disk lost_file) floppy options_dirent ?ls"
    by (rule boot_lines) (simp_all add: line_ok_def plain_def lost_file_def)
  moreover have "config_result (apply_lines ?ls (options_start boot_frame)) = Inr (PARSER_SUCCESS, lost_opts)"
    by (simp add: boot_frame_def lost_opts_def apply_option_def config_result_def finish_def drop_replicate)
  moreover have "unat (load_offset lost_opts) < 2 ^ 31" by (simp add: lost_opts_def)
  ultimately show ?thesis unfolding options_file_def by blast
qed

lemma boot_root_live: "live (root_entries floppy (boot_disk cfg)) = [boot_dir, kernel_dirent]"
proof -
  have "map (\<lambda>j. disk_at (boot_disk cfg) 512 19 (64 + j)) [0..<32] = replicate 32 0"
    by (rule nth_equalityI) (simp_all add: disk_at_def boot_disk_def boot_sectors_def dirent_fields)
  then have "de_name (decode_dirent (map (\<lambda>j. disk_at (boot_disk cfg) 512 19 (32 * 2 + j)) [0..<32])) ! 0 = 0"
    by (simp add: decode_dirent_def sub_bytes_def)
  then show ?thesis
    by (simp add: live_def boot_root upt_conv_Cons [of 2 224] boot_dirents del: upt_Suc)
qed

lemma lost_path: "path_leads floppy (boot_disk cfg) [chars ''kernel.bin''] None"
proof -
  have nm: "name83 (chars ''kernel.bin'') = Some (chars ''KERNEL  BIN'')"
    by (simp add: name83_def pad_def toupper_def replicate_num)
  have "find_in_dir (root_entries floppy (boot_disk cfg)) (chars ''kernel.bin'') = None"
    by (simp only: find_in_dir_def nm boot_root_live) (simp add: boot_dirents)
  moreover have "segment_ok (chars ''kernel.bin'')" by (simp add: segment_ok_def)
  ultimately show ?thesis by (simp only: path_leads_def floppy_fields list.case option.case list.pred_inject) simp
qed

theorem main_binary_refused_witness:
  "\<exists>t. main (perfect_int13 (boot_disk lost_file) 512) (listed_int15 []) 0 boot_frame (boot_state (\<lambda>_. 0) ()) = Some (Inr (), t)
    \<and> int10_log t = map teletype (start_text 0 floppy @ (found_text @ parsing_text) @ options_text lost_opts
        @ opening_text @ refusal (fat_result_to_str FAT_FILE_NOT_FOUND))"
proof -
  have path: "boot_binary lost_opts = path_of [chars ''kernel.bin''] (replicate 245 0)" by (simp add: lost_opts_def)
  have "open_result floppy None = (FAT_FILE_NOT_FOUND, None)" by (simp add: open_result_def)
  from not_opened [OF path _ lost_path this] have
    "binary_refused (boot_disk lost_file) floppy lost_opts (opening_text @ refusal (fat_result_to_str FAT_FILE_NOT_FOUND))" by simp
  from main_binary_refused [OF boot_drive_ok boot_frame_ok lost_options_ok this, of "listed_int15 []" "\<lambda>_. 0" "()"]
  show ?thesis by blast
qed

section \<open>There is no system information\<close>

lemma sysinfo_reason_chars: "CHR 0x00 \<notin> set (sysinfo_result_to_str r)"
  by (cases r) simp_all

text \<open>
  The BIOS lists the memory but no root pointer is found, or it lists one entry only: the last
  entry is never used.
\<close>

inductive sysinfo_refused :: "'e int15 \<Rightarrow> memory \<Rightarrow> frame \<Rightarrow> sysinfo_result_t \<Rightarrow> bool"
  for int15 m fr
where
  no_root_pointer: "serves_e820 int15 token (ms @ [z]) \<Longrightarrow> ms \<noteq> [] \<Longrightarrow> ascending (map region_of ms) \<Longrightarrow>
    5 * length ms + 3 \<le> 7021 \<Longrightarrow> root_pointer m fr None \<Longrightarrow> sysinfo_refused int15 m fr SYSINFO_RSDP_NOT_FOUND"
| no_memory_map: "serves_e820 int15 token [z] \<Longrightarrow> sysinfo_refused int15 m fr SYSINFO_EMPTY_MEMORY_LAYOUT"

definition sysinfo_refusal :: "sysinfo_result_t \<Rightarrow> u8 list" where
  "sysinfo_refusal r = chars (''Error extracting sysinfo. Reason: '' @ sysinfo_result_to_str r @ crlf)"

lemma extract_sysinfo_fails:
  assumes "get_sysinfo int15 (signature_literal fr) drv (put_all sysinfo_text s) = Some (Inr (r, None), t)"
    and "r \<noteq> SYSINFO_SUCCESS" and "mem t = mem s" "ext_stack_top t = ext_stack_top s" "int10_log t = int10_log (put_all sysinfo_text s)"
  shows "\<exists>t. extract_sysinfo int15 drv fr s = Some (Inr None, t) \<and> ran (sysinfo_text @ sysinfo_refusal r) nowhere s t"
proof -
  let ?t = "put_all (sysinfo_refusal r) t"
  have "give_up ''Error extracting sysinfo. Reason: '' (sysinfo_result_to_str r) t = Some (Inr None, ?t)"
    unfolding sysinfo_refusal_def by (rule give_up_run) (simp_all add: sysinfo_reason_chars)
  then have "extract_sysinfo int15 drv fr s = Some (Inr None, ?t)"
    unfolding extract_sysinfo_def using assms(2)
    by - (rule say_run, simp add: crlf_def, rule bind_run, rule assms(1) [unfolded sysinfo_text_def], cases r, simp_all)
  moreover have "ran sysinfo_text nowhere s t" using assms(3-5) by (simp add: ran_def put_all_log)
  ultimately show ?thesis using ran_quiet [OF _ ran_put_all(1)] by blast
qed

lemma boot_nodes: "same_nodes (boot_state m e) s \<Longrightarrow> k \<le> 7021 \<Longrightarrow> node_room s k"
  unfolding node_room_nodes by (rule boot_state_room)

lemma sysinfo_refused_run:
  assumes "sysinfo_refused int15 m fr r" and s: "ran txt (in_range (elf_header_at fr) 52) (boot_state m e) s" "same_nodes (boot_state m e) s"
  shows "\<exists>t. extract_sysinfo int15 drv fr s = Some (Inr None, t) \<and> ran (sysinfo_text @ sysinfo_refusal r) nowhere s t"
  using assms(1)
proof cases
  case (no_root_pointer token ms z)
  let ?s = "put_all sysinfo_text s"
  have sig: "signature_at (mem ?s) (signature_literal fr)" and none: "find (rsdp_at (mem ?s)) (rsdp_candidates (mem ?s)) = None"
    using root_pointer_ran [OF no_root_pointer(6) s(1)] by simp_all
  have "node_room ?s (5 * length ms + 3)" using boot_nodes [OF same_nodes_trans [OF s(2) ran_put_all(2)] no_root_pointer(5)] .
  from get_sysinfo_run [OF no_root_pointer(2-4) this sig, of drv] obtain t where
    run: "get_sysinfo int15 (signature_literal fr) drv ?s = Some (Inr (SYSINFO_RSDP_NOT_FOUND, None), t)"
    and t: "only_map (5 * length ms + 3) ?s t" unfolding none option.case by blast
  show ?thesis
    unfolding no_root_pointer(1) by (rule extract_sysinfo_fails [OF run]) (use only_map_frame [OF t] in simp_all)
next
  case (no_memory_map token z)
  from get_mem_regions_empty [OF this(2), of "put_all sysinfo_text s"] obtain e where
    "get_mem_regions int15 0 (put_all sysinfo_text s) = Some (Inr (SYSINFO_EMPTY_MEMORY_LAYOUT, 0), (put_all sysinfo_text s)\<lparr>bios_env := e\<rparr>)"
    by blast
  then have "get_sysinfo int15 (signature_literal fr) drv (put_all sysinfo_text s)
      = Some (Inr (SYSINFO_EMPTY_MEMORY_LAYOUT, None), (put_all sysinfo_text s)\<lparr>bios_env := e\<rparr>)"
    by (simp add: get_sysinfo_def exec_bind exec_basic)
  from extract_sysinfo_fails [OF this] show ?thesis unfolding no_memory_map(1) by simp
qed

text \<open>
  C28. When no root pointer is found, or the BIOS lists no more than one range of memory, \<open>main\<close>
  says so and returns although the program could be opened: the extended stack is empty, and of
  the memory outside its area at most the local ELF header has changed.
\<close>

theorem main_sysinfo_refused:
  fixes int13 :: "'e int13" and int15 :: "'e int15"
  assumes "good_drive int13 drv d f" and "options_file d f (options_start fr) opts" and "program_file d f opts fl"
    and "locals_ok fr" and "sysinfo_refused int15 m fr r"
  shows "\<exists>t. main int13 int15 drv fr (boot_state m e) = Some (Inr (), t)
    \<and> int10_log t = map teletype (start_text drv f @ (found_text @ parsing_text) @ options_text opts @ opening_text
        @ elf_text @ sysinfo_text @ sysinfo_refusal r)
    \<and> ext_stack_top t = 0x80000
    \<and> (\<forall>x. \<not> in_range (elf_header_at fr) 52 x \<and> (unat x < 0x40000 \<or> 0x80000 \<le> unat x) \<longrightarrow> mem t x = m x)"
proof -
  from program_opened_run [OF assms(1-4), of int15 m e] obtain s where
    start: "main int13 int15 drv fr (boot_state m e) = bind (second_half int13 int15 drv fr fl) (\<lambda>_. ret ()) s"
    and s: "ran (start_text drv f @ (found_text @ parsing_text) @ options_text opts @ opening_text) nowhere (boot_state m e) s"
      "same_nodes (boot_state m e) s" "file_ready int13 fl d s" by blast
  have held: "file_holds fl d 0 52" "accepted_elf (file_bytes fl d)" using assms(3) unfolding program_file_def by blast+
  have at: "unat (elf_header_at fr) + 52 \<le> 0x40000" using assms(4) by (simp add: locals_ok_def)
  from parse_elf_run [OF s(3) held(1) at held(2)] obtain s1 where
    pe: "parse_elf int13 fl fr s = Some (Inr (Some \<lparr>elf_file = fl, elf_header = elf_header_at fr\<rparr>), s1)"
    and s1: "ran elf_text (in_range (elf_header_at fr) 52) s s1" "same_nodes s s1" by blast
  note r1 = ran_quiet [OF s(1) s1(1)]
  from sysinfo_refused_run [OF assms(5) r1 same_nodes_trans [OF s(2) s1(2)], of drv] obtain t where
    ex: "extract_sysinfo int15 drv fr s1 = Some (Inr None, t)" and t: "ran (sysinfo_text @ sysinfo_refusal r) nowhere s1 t" by blast
  have "second_half int13 int15 drv fr fl s = Some (Inr None, t)"
    unfolding second_half_def by (rule returned_run(1), rule pe) (rule returned_run(2), rule ex)
  then have "main int13 int15 drv fr (boot_state m e) = Some (Inr (), t)"
    unfolding start by - (rule bind_run, assumption, rule exec_basic)
  with ran_trans [OF r1 t] show ?thesis by (auto simp: ran_def boot_state_top)
qed

theorem main_sysinfo_refused_witness:
  "\<exists>t. main (perfect_int13 (boot_disk boot_file) 512) (listed_int15 [example_last]) 0 boot_frame (boot_state (\<lambda>_. 0) ()) = Some (Inr (), t)
    \<and> int10_log t = map teletype (start_text 0 floppy @ (found_text @ parsing_text) @ options_text boot_opts @ opening_text
        @ elf_text @ sysinfo_text @ sysinfo_refusal SYSINFO_EMPTY_MEMORY_LAYOUT)"
proof -
  have "serves_e820 (listed_int15 [example_last]) of_nat [example_last]" by (rule listed_int15_ok) simp
  then have "sysinfo_refused (listed_int15 [example_last]) (\<lambda>_. 0) boot_frame SYSINFO_EMPTY_MEMORY_LAYOUT" by (rule no_memory_map)
  from main_sysinfo_refused [OF boot_drive_ok boot_options_ok boot_program_ok boot_frame_ok this, of "()"] show ?thesis by blast
qed

end
