(* ===== verification/Spec2Isabelle.thy ===== *)
theory Spec2Isabelle
  imports Boot_Errors
begin

text \<open>
  A verification development of stage 1 of the x86-64 boot loader: the C program that the boot
  sector starts, which mounts the FAT volume it was loaded from, reads \<^verbatim>\<open>/boot/options.txt\<close>,
  loads the ELF file named there, gathers the memory map and the ACPI root pointer, and jumps
  to the program in protected mode. Every C function under \<^verbatim>\<open>src/stage1\<close> is a definition here.

  \<^bold>\<open>How the parts work together.\<close> \<open>main\<close> calls \<open>fat_mount\<close>, \<open>fat_open\<close> and \<open>fat_read\<close> for the file
  of options, \<open>parse\<close> for its text, \<open>fat_open\<close> and \<open>elf_open\<close> for the program, \<open>get_sysinfo\<close> for
  map and root pointer, \<open>elf_load\<close> for the segments and \<open>transfer_control\<close> for the jump. The file
  system reads sectors with \<open>disk_read\<close>, which is \<^verbatim>\<open>int 0x13\<close>; buffers come from \<open>push\<close> and
  \<open>pop\<close>. The memory map is a list of regions in nodes from \<open>static_alloc\<close>, kept sorted by
  \<open>insert_sorted\<close>; \<open>elf_load\<close> inserts the segments into the list that \<open>get_mem_regions\<close> built
  from \<^verbatim>\<open>int 0x15\<close>, and \<open>transfer_control\<close> puts the stack into its largest region.

  \<^bold>\<open>State and effects.\<close> \<open>Prelude\<close> has the command type: a run gives \<^term>\<open>None\<close> when it never
  comes back from a loop, and otherwise a new state with either the reason it stopped for (a
  panic, behaviour that C leaves undefined, or the jump) or the value it returned. Loops are the
  partial function \<open>iterate\<close>, so no fuel is used and a theorem that a run gives \<^term>\<open>Some\<close> is
  one of termination. \<open>Machine\<close> has the state: flat memory, the tops of the two stacks of
  \<^verbatim>\<open>mem.c\<close>, the nodes of the region list, every \<^verbatim>\<open>int 0x10\<close> call made, and the BIOS's own
  state. Integers are words of their width. Arrays that only the code itself reads (strings, the
  parser's buffers) are byte lists with checked indices, an access outside being the stop
  \<open>Undef Out_Of_Bounds\<close>; what C leaves in them uninitialised is an argument. Locals whose
  address is handed on (ELF header, program header, sysinfo) are addresses in memory, given by
  the record \<open>frame\<close>.

  \<^bold>\<open>Theories and code.\<close>
  \<^item> \<open>Machine\<close>: \<^verbatim>\<open>include/memory_map.h\<close>, \<^verbatim>\<open>include/sysinfo.h\<close>, \<^verbatim>\<open>include/types.h\<close>, \<^verbatim>\<open>stage1/print.c\<close>.
  \<^item> \<open>Mem\<close>: \<^verbatim>\<open>stage1/mem.c\<close>. The block operations are the bytewise ones; both stacks stay in their
    disjoint areas or the code panics.
  \<^item> \<open>Cstring\<close>: \<^verbatim>\<open>stage1/string.c\<close>, \<^verbatim>\<open>stage1/math.c\<close>. What \<open>itoa\<close> writes, the room it needs, and
    that \<open>atoi\<close> reads it back.
  \<^item> \<open>Disk\<close>: \<^verbatim>\<open>stage1/disk.c\<close>. The packet names the buffer; a read delivers the sectors.
  \<^item> \<open>Fat_Layout\<close>, \<open>Fat_Table\<close>, \<open>Fat_Data\<close>, \<open>Fat_Dir\<close>, \<open>Fat_Read\<close>: \<^verbatim>\<open>stage1/fat.c\<close>, \<^verbatim>\<open>stage1/fat.h\<close>.
    In this order: structures, geometry and \<open>fat_mount\<close>; the file allocation table and
    \<open>fat_next\<close> against a specification of its entries; clusters and filled buffers; short names,
    directories, paths and \<open>fat_open\<close> against the relations \<open>dir_entry\<close> and \<open>path_walk\<close>; and
    \<open>fat_read\<close>, which delivers the bytes the chain of the file holds unless its first round
    straddles a sector.
  \<^item> \<open>Options\<close>: \<^verbatim>\<open>stage1/options_parser.c\<close>, against applying its lines one after the other.
  \<^item> \<open>Regions\<close>, \<open>Region_Map\<close>, \<open>Sysinfo\<close>: \<^verbatim>\<open>stage1/sysinfo_impl.c\<close>. \<open>insert_sorted\<close> on linked nodes is
    refined to a function on lists of regions, that to a function from addresses to kinds of
    memory; on them rest the map built from the BIOS's entries and the search for the root
    pointer.
  \<^item> \<open>Elf\<close>, \<open>Elf_Load\<close>: \<^verbatim>\<open>stage1/elf.c\<close>, \<^verbatim>\<open>stage1/elf.h\<close>. Which files are accepted, when segments
    overlap memory in use, and that \<open>elf_load\<close> loads every segment and touches nothing else.
  \<^item> \<open>Prot\<close>: \<^verbatim>\<open>stage1/prot.c\<close>. The choice of the stack, the two words on it, and the jump.
  \<^item> \<open>Boot_Main\<close>, \<open>Boot\<close>, \<open>Boot_Theorems\<close>, \<open>Boot_Errors\<close>: \<^verbatim>\<open>stage1/main.c\<close>, one definition for each block
    of \<open>main\<close>; what every block prints and touches; the composition; the theorem that stage 1
    boots; and the ways it gives up. A floppy with options, a program and a memory map shows
    that all hypotheses of the boot theorem hold together.

  \<^bold>\<open>Interfaces.\<close> Four locales state what one component relies on in another, and each is
  interpreted on the code's own functions where they are defined: \<open>stack_allocator\<close> (\<open>push\<close>,
  \<open>pop\<close>; in \<open>Mem\<close>), \<open>sector_reader\<close> (\<open>disk_read\<close>; in \<open>Disk\<close>), \<open>region_store\<close> (adding a region; in
  \<open>Region_Map\<close>) and \<open>file_reader\<close> (\<open>fat_read\<close> as the loader uses it; in \<open>Elf_Load\<close>).

  \<^bold>\<open>The environment.\<close> The BIOS is not code of the repository: \<open>int13\<close> and \<open>int15\<close> are parameters.
  \<open>edd_read\<close> says what an extended read does to memory with and without the carry flag;
  \<open>no_read_errors\<close> that no read fails; \<open>serves_e820\<close> that the continuation values step through the
  entries and end with zero. Each is met by a concrete function (\<open>perfect_int13\<close>,
  \<open>listed_int15\<close>). In \<open>root_pointer\<close> the memory that the BIOS filled is described up to what
  stage 1 may have written before the search.

  \<^bold>\<open>Bounds.\<close> \<open>boot_state_room\<close>: the static stack has room for 7021 nodes of 28 bytes, which is
  where the bound in \<open>main_boots\<close> on the number of BIOS entries and segments comes from. Buffers of
  the file system must fit the 256 KiB of the extended stack (\<open>open_scratch\<close>, \<open>read_scratch\<close>).

  \<^bold>\<open>What the region nodes assume.\<close> Nodes are a typed heap of their own, beside the byte memory:
  they are allocated by \<open>static_alloc\<close> only and the code never looks at them as bytes.
  \<open>stacks_stay_in_their_areas\<close> has them between \<^verbatim>\<open>0x10000\<close> and \<^verbatim>\<open>0x40000\<close>; \<open>locals_ok\<close> keeps the
  addressed locals below, segments lie above the real-mode limit, and buffers in the extended
  stack, so nothing that is written as bytes meets them.

  \<^bold>\<open>Not modelled.\<close> Stage 0 and the entry code of stage 1 (\<^verbatim>\<open>stage0/main.S\<close>, \<^verbatim>\<open>stage1/entry.S\<close>) are
  assembly; they set up the flat addressing the model takes as given. Of \<open>transfer_control\<close> the
  descriptor tables and control registers of the mode switch are left out: they have no effect
  on memory and stage 1 does not read them again. The enumerations \<^verbatim>\<open>elf_data_t\<close>,
  \<^verbatim>\<open>elf_version_t\<close>, \<^verbatim>\<open>elf_osabi_t\<close> and the structure \<^verbatim>\<open>fat_lfn_t\<close> are declared and never used. The
  \<^verbatim>\<open>default\<close> branches of the \<^verbatim>\<open>_to_str\<close> functions and of the file-system type in \<open>main\<close> need a
  value outside the enumeration and have no counterpart in the datatypes. The first cluster of
  a directory entry is a word also where C leaves the shift into the sign bit undefined
  (\<open>dirent_cluster\<close>). The image script and
  the makefiles run on the host; \<^verbatim>\<open>disk/boot/test.c\<close> is an example to boot.
\<close>

end
